(* ===== verification/Prelude.thy ===== *)
theory Prelude
  imports Main "HOL-Library.Sublist"
begin

text \<open>
  Shared vocabulary of the development.

  \<^item> The fact collections (\<open>js_simps\<close>, \<open>vdom_simps\<close>, \<open>host_defs\<close>, \<open>hook_defs\<close>,
    \<open>comp_defs\<close>, \<open>rt_defs\<close>, \<open>inv_defs\<close>) that the component theories fill and
    that their proofs unfold by name.
  \<^item> The fragment of JavaScript's value semantics the component relies on: a value
    that may be \<open>undefined\<close> is an \<open>option\<close>; \<open>a || b\<close> on objects is \<open>or_else\<close>;
    \<open>xs[i]\<close> is \<open>at_index\<close> (\<open>undefined\<close> out of range, never an exception);
    \<open>x.f\<close> is \<open>member\<close>, which raises \<open>TypeError\<close> when \<open>x\<close> is \<open>undefined\<close>;
    \<open>Array.prototype.find\<close> is \<open>List.find\<close>.
  \<^item> Results of code that may throw: \<open>'a result = js_error + 'a\<close> with its bind.
  \<^item> Generic facts on lists and options used by more than one component.

  Strings are byte sequences (\<open>char list\<close>); the only non-ASCII text of the sources,
  the tooltip prefix, is kept as its UTF-8 bytes.
\<close>

section \<open>Fact collections\<close>

named_theorems js_simps "characteristic equations of the JavaScript value helpers"
named_theorems vdom_simps "characteristic equations of the element-tree operations"
named_theorems host_defs "definitions of the document, listener and timer operations"
named_theorems hook_defs "definitions of the hook primitives"
named_theorems comp_defs "definitions of the functions of the ModelSelect component"
named_theorems rt_defs "definitions of commit, dispatch and step"
named_theorems inv_defs "definitions of the invariants and their parts"

section \<open>JavaScript values\<close>

datatype js_error = TypeError string

type_synonym 'a result = "js_error + 'a"

text \<open>\<open>a || b\<close> where \<open>a\<close> is an object or \<open>undefined\<close>: objects are truthy.\<close>

definition or_else :: "'a option \<Rightarrow> 'a option \<Rightarrow> 'a option" where
  "or_else a b = (case a of Some x \<Rightarrow> Some x | None \<Rightarrow> b)"

text \<open>\<open>xs[i]\<close>: reading past the end of an array gives \<open>undefined\<close>.\<close>

definition at_index :: "'a list \<Rightarrow> nat \<Rightarrow> 'a option" where
  "at_index xs i = (if i < length xs then Some (xs ! i) else None)"

text \<open>\<open>x.f\<close>: reading a property of \<open>undefined\<close> throws; the error names the property.\<close>

definition member :: "'a option \<Rightarrow> string \<Rightarrow> ('a \<Rightarrow> 'b) \<Rightarrow> 'b result" where
  "member x f sel = (case x of None \<Rightarrow> Inl (TypeError f) | Some v \<Rightarrow> Inr (sel v))"

definition bind_result :: "'a result \<Rightarrow> ('a \<Rightarrow> 'b result) \<Rightarrow> 'b result" where
  "bind_result m f = (case m of Inl e \<Rightarrow> Inl e | Inr x \<Rightarrow> f x)"

definition is_ok :: "'a result \<Rightarrow> bool" where
  "is_ok m = (case m of Inl _ \<Rightarrow> False | Inr _ \<Rightarrow> True)"

lemma or_else_simps [simp, js_simps]:
  "or_else (Some x) b = Some x"
  "or_else None b = b"
  by (simp_all add: or_else_def)

lemma or_else_eq_None_iff [js_simps]: "or_else a b = None \<longleftrightarrow> a = None \<and> b = None"
  by (cases a) simp_all

lemma or_else_eq_Some_iff [js_simps]:
  "or_else a b = Some x \<longleftrightarrow> a = Some x \<or> (a = None \<and> b = Some x)"
  by (cases a) auto

lemma at_index_simps [simp, js_simps]:
  "at_index [] i = None"
  "at_index (x # xs) 0 = Some x"
  "at_index (x # xs) (Suc i) = at_index xs i"
  by (simp_all add: at_index_def)

lemma at_index_eq_None_iff [js_simps]: "at_index xs i = None \<longleftrightarrow> length xs \<le> i"
  by (auto simp: at_index_def)

lemma at_index_eq_Some_iff [js_simps]:
  "at_index xs i = Some x \<longleftrightarrow> i < length xs \<and> xs ! i = x"
  by (auto simp: at_index_def)

lemma at_index_0_hd: "xs \<noteq> [] \<Longrightarrow> at_index xs 0 = Some (hd xs)"
  by (cases xs) simp_all

lemma member_simps [simp, js_simps]:
  "member None f sel = Inl (TypeError f)"
  "member (Some v) f sel = Inr (sel v)"
  by (simp_all add: member_def)

lemma member_eq_Inr_iff [js_simps]:
  "member x f sel = Inr y \<longleftrightarrow> (\<exists>v. x = Some v \<and> sel v = y)"
  by (cases x) auto

lemma bind_result_simps [simp, js_simps]:
  "bind_result (Inl e) f = Inl e"
  "bind_result (Inr x) f = f x"
  by (simp_all add: bind_result_def)

lemma bind_result_eq_Inr_iff [js_simps]:
  "bind_result m f = Inr y \<longleftrightarrow> (\<exists>x. m = Inr x \<and> f x = Inr y)"
  by (cases m) auto

lemma bind_result_eq_Inl_iff [js_simps]:
  "bind_result m f = Inl e \<longleftrightarrow> m = Inl e \<or> (\<exists>x. m = Inr x \<and> f x = Inl e)"
  by (cases m) auto

lemma is_ok_simps [simp, js_simps]:
  "is_ok (Inl e) = False"
  "is_ok (Inr x) = True"
  by (simp_all add: is_ok_def)

lemma is_ok_iff: "is_ok m \<longleftrightarrow> (\<exists>x. m = Inr x)"
  by (cases m) auto

section \<open>\<open>find\<close> with a fallback to the first element\<close>

text \<open>
  The idiom \<open>xs.find(p) || xs[0]\<close>: the first element that satisfies \<open>p\<close>, else the
  first element, and \<open>undefined\<close> only for the empty array.
\<close>

lemma find_eq_None_iff: "find P xs = None \<longleftrightarrow> (\<forall>x \<in> set xs. \<not> P x)"
  by (induction xs) auto

lemma find_Some_holds: "find P xs = Some x \<Longrightarrow> P x \<and> x \<in> set xs"
  by (induction xs) (auto split: if_splits)

lemma find_or_first_None_iff:
  "or_else (find P xs) (at_index xs 0) = None \<longleftrightarrow> xs = []"
  by (cases xs) (auto simp: or_else_eq_None_iff)

lemma find_or_first_in_set:
  "or_else (find P xs) (at_index xs 0) = Some x \<Longrightarrow> x \<in> set xs"
  by (cases xs) (auto simp: or_else_eq_Some_iff dest: find_Some_holds split: if_splits)

lemma find_or_first_no_match:
  "\<forall>x \<in> set xs. \<not> P x \<Longrightarrow> or_else (find P xs) (at_index xs 0) = at_index xs 0"
  by (simp add: find_eq_None_iff [THEN iffD2])

lemma find_or_first_match:
  "find P xs = Some x \<Longrightarrow> or_else (find P xs) (at_index xs 0) = Some x"
  by simp

section \<open>Lists\<close>

lemma filter_eq_Nil_iff: "filter P xs = [] \<longleftrightarrow> (\<forall>x \<in> set xs. \<not> P x)"
  by (induction xs) auto

lemma distinct_map_filter_fst:
  "distinct (map fst xs) \<Longrightarrow> distinct (map fst (filter P xs))"
  by (induction xs) (auto simp: image_iff)

lemma map_of_filter_neq:
  "map_of (filter (\<lambda>(k, v). k \<noteq> t) xs) = (map_of xs)(t := None)"
  by (induction xs) (auto simp: fun_eq_iff)

lemma length_filter_le_one_distinct:
  "distinct xs \<Longrightarrow> length (filter (\<lambda>y. y = x) xs) \<le> 1"
  by (induction xs) (auto simp: filter_eq_Nil_iff)

lemma map_filter_append:
  "List.map_filter f (xs @ ys) = List.map_filter f xs @ List.map_filter f ys"
  by (simp add: List.map_filter_def)

lemma set_map_filter: "set (List.map_filter f xs) = {y. \<exists>x \<in> set xs. f x = Some y}"
  by (induction xs) (auto split: option.splits)

lemma map_filter_eq_Nil_iff: "List.map_filter f xs = [] \<longleftrightarrow> (\<forall>x \<in> set xs. f x = None)"
  by (induction xs) (auto split: option.splits)

lemma map_filter_removeAll:
  assumes "f x = Some y" and "\<And>z. f z = Some y \<Longrightarrow> z = x"
  shows "List.map_filter f (removeAll x xs) = removeAll y (List.map_filter f xs)"
proof (induction xs)
  case Nil
  show ?case by simp
next
  case (Cons a xs)
  show ?case
  proof (cases "a = x")
    case True
    with Cons assms(1) show ?thesis by simp
  next
    case False
    with assms(2) have "f a \<noteq> Some y" by blast
    with Cons False show ?thesis
      by (cases "f a") simp_all
  qed
qed

lemma map_filter_filter:
  assumes "\<And>x y. f x = Some y \<Longrightarrow> Q y = P x"
  shows "List.map_filter f (filter P xs) = filter Q (List.map_filter f xs)"
proof (induction xs)
  case Nil
  show ?case by simp
next
  case (Cons a xs)
  then show ?case
    by (cases "f a") (simp_all add: assms)
qed

lemma filter_none_removeAll:
  "f x \<noteq> None \<Longrightarrow> filter (\<lambda>z. f z = None) (removeAll x xs) = filter (\<lambda>z. f z = None) xs"
  by (induction xs) auto

lemma filter_filter_none:
  assumes "\<And>x. f x = None \<Longrightarrow> P x"
  shows "filter (\<lambda>z. f z = None) (filter P xs) = filter (\<lambda>z. f z = None) xs"
  using assms by (induction xs) auto

lemma concat_map_const:
  "concat (map (\<lambda>x. if P x then ys else []) xs) = concat (replicate (length (filter P xs)) ys)"
  by (induction xs) auto

lemma prefix_same_length_eq: "prefix p q \<Longrightarrow> length p = length q \<Longrightarrow> p = q"
  by (auto simp: prefix_def)

end
