(* ===== verification/VDom.thy ===== *)
theory VDom
  imports Prelude
begin

text \<open>
  Element trees: what a function component returns and what the rendering surface
  keeps mounted. The types are generic in the handler closures \<open>'h\<close> and the ref
  objects \<open>'r\<close> of the component that builds the tree.

  \<^item> \<open>vnode\<close>: a host element with its attributes and children, a text node, or a
    component of another library kept as a leaf (its name and numeric props).
  \<^item> \<open>path\<close>: the position of a node, as child indices from the root; \<open>target\<close>:
    the node an event is aimed at, inside the tree or elsewhere in the document.
  \<^item> \<open>node_at\<close>, \<open>nodes_on_path\<close>: lookup by position; \<open>find_ref\<close>: the position
    of the element that carries a ref; \<open>contains\<close>: \<open>Node.contains\<close> on positions
    (inclusive, as in the DOM); \<open>click_handlers\<close>: the \<open>onClick\<close> closures met when
    a click bubbles from its target to the root, innermost first.
  \<^item> \<open>keys_ok\<close>, \<open>refs_in\<close>, \<open>well_formed\<close>: sibling keys are distinct and every ref
    is attached once.

  A conditional child (\<open>{c && <x/>}\<close>) that renders nothing is left out of the child
  list; it is only ever the last child in the trees of this development, so the
  positions of its siblings do not depend on it.
\<close>

section \<open>Trees\<close>

type_synonym path = "nat list"

datatype target = Inside path | Outside

datatype style_value = Str string | Num int

record ('h, 'r) attrs =
  className :: "string option"
  title :: "string option"
  style :: "(string \<times> style_value) list"
  onClick :: "'h option"
  ref :: "'r option"
  key :: "string option"

definition no_attrs :: "('h, 'r) attrs" where
  "no_attrs = \<lparr>className = None, title = None, style = [], onClick = None,
     ref = None, key = None\<rparr>"

datatype ('h, 'r) vnode =
    Element string "('h, 'r) attrs" "('h, 'r) vnode list"
  | Text string
  | Component string "(string \<times> nat) list"

fun children :: "('h, 'r) vnode \<Rightarrow> ('h, 'r) vnode list" where
  "children (Element tag a cs) = cs"
| "children (Text s) = []"
| "children (Component n ps) = []"

fun attrs_of :: "('h, 'r) vnode \<Rightarrow> ('h, 'r) attrs option" where
  "attrs_of (Element tag a cs) = Some a"
| "attrs_of (Text s) = None"
| "attrs_of (Component n ps) = None"

definition handler_of :: "('h, 'r) vnode \<Rightarrow> 'h option" where
  "handler_of n = (case attrs_of n of None \<Rightarrow> None | Some a \<Rightarrow> onClick a)"

definition ref_of :: "('h, 'r) vnode \<Rightarrow> 'r option" where
  "ref_of n = (case attrs_of n of None \<Rightarrow> None | Some a \<Rightarrow> ref a)"

section \<open>Positions\<close>

fun node_at :: "('h, 'r) vnode \<Rightarrow> path \<Rightarrow> ('h, 'r) vnode option" where
  "node_at t [] = Some t"
| "node_at t (i # p) =
     (case at_index (children t) i of None \<Rightarrow> None | Some c \<Rightarrow> node_at c p)"

fun nodes_on_path :: "('h, 'r) vnode \<Rightarrow> path \<Rightarrow> ('h, 'r) vnode list" where
  "nodes_on_path t [] = [t]"
| "nodes_on_path t (i # p) =
     t # (case at_index (children t) i of None \<Rightarrow> [] | Some c \<Rightarrow> nodes_on_path c p)"

fun valid_target :: "('h, 'r) vnode \<Rightarrow> target \<Rightarrow> bool" where
  "valid_target t (Inside p) = (node_at t p \<noteq> None)"
| "valid_target t Outside = True"

fun contains :: "path \<Rightarrow> target \<Rightarrow> bool" where
  "contains p (Inside q) = prefix p q"
| "contains p Outside = False"

fun find_ref :: "'r \<Rightarrow> ('h, 'r) vnode \<Rightarrow> path option"
  and find_ref_list :: "'r \<Rightarrow> ('h, 'r) vnode list \<Rightarrow> nat \<Rightarrow> path option" where
  "find_ref r (Element tag a cs) =
     (if ref a = Some r then Some [] else find_ref_list r cs 0)"
| "find_ref r (Text s) = None"
| "find_ref r (Component n ps) = None"
| "find_ref_list r [] i = None"
| "find_ref_list r (c # cs) i =
     (case find_ref r c of Some p \<Rightarrow> Some (i # p) | None \<Rightarrow> find_ref_list r cs (Suc i))"

definition click_handlers :: "('h, 'r) vnode \<Rightarrow> path \<Rightarrow> 'h list" where
  "click_handlers t p =
     (if node_at t p = None then []
      else rev (List.map_filter handler_of (nodes_on_path t p)))"

fun no_handlers :: "('h, 'r) vnode \<Rightarrow> bool" where
  "no_handlers (Element tag a cs) \<longleftrightarrow> onClick a = None \<and> list_all no_handlers cs"
| "no_handlers (Text s) \<longleftrightarrow> True"
| "no_handlers (Component n ps) \<longleftrightarrow> True"

text \<open>
  What the rendering surface asks of a tree: among the children of one element no key
  occurs twice (\<open>keys_ok\<close>), and no ref object is attached to two elements
  (\<open>refs_in\<close> lists the refs of a tree in document order).
\<close>

definition key_of :: "('h, 'r) vnode \<Rightarrow> string option" where
  "key_of n = (case attrs_of n of None \<Rightarrow> None | Some a \<Rightarrow> key a)"

fun keys_ok :: "('h, 'r) vnode \<Rightarrow> bool" where
  "keys_ok (Element tag a cs) \<longleftrightarrow> distinct (List.map_filter key_of cs) \<and> list_all keys_ok cs"
| "keys_ok (Text s) \<longleftrightarrow> True"
| "keys_ok (Component n ps) \<longleftrightarrow> True"

fun refs_in :: "('h, 'r) vnode \<Rightarrow> 'r list" where
  "refs_in (Element tag a cs) =
     (case ref a of None \<Rightarrow> [] | Some r \<Rightarrow> [r]) @ concat (map refs_in cs)"
| "refs_in (Text s) = []"
| "refs_in (Component n ps) = []"

definition well_formed :: "('h, 'r) vnode \<Rightarrow> bool" where
  "well_formed t \<longleftrightarrow> keys_ok t \<and> distinct (refs_in t)"

definition text_at :: "('h, 'r) vnode \<Rightarrow> path \<Rightarrow> string option" where
  "text_at t p = (case node_at t p of Some (Text s) \<Rightarrow> Some s | _ \<Rightarrow> None)"

definition class_at :: "('h, 'r) vnode \<Rightarrow> path \<Rightarrow> string option" where
  "class_at t p =
     (case node_at t p of
        None \<Rightarrow> None
      | Some u \<Rightarrow> (case attrs_of u of None \<Rightarrow> None | Some a \<Rightarrow> className a))"

section \<open>Lookup\<close>

text \<open>
  The recursive equation of \<open>node_at\<close> is taken out of the simplifier: a tree given
  by a constructor unfolds by \<open>node_at_Element_Cons\<close>, a tree given by a defined
  function only by the equations its theory proves for it.
\<close>

declare node_at.simps(2) [simp del]

lemma no_attrs_simps [simp, vdom_simps]:
  "className no_attrs = None" "title no_attrs = None" "style no_attrs = []"
  "onClick no_attrs = None" "ref no_attrs = None" "key no_attrs = None"
  by (simp_all add: no_attrs_def)

lemma handler_of_simps [simp, vdom_simps]:
  "handler_of (Element tag a cs) = onClick a"
  "handler_of (Text s) = None"
  "handler_of (Component n ps) = None"
  by (simp_all add: handler_of_def)

lemma ref_of_simps [simp, vdom_simps]:
  "ref_of (Element tag a cs) = ref a"
  "ref_of (Text s) = None"
  "ref_of (Component n ps) = None"
  by (simp_all add: ref_of_def)

lemma node_at_leaf [simp, vdom_simps]:
  "node_at (Text s) (i # p) = None"
  "node_at (Component n ps) (i # p) = None"
  by (simp_all add: node_at.simps(2))

lemma node_at_Element_Cons [simp, vdom_simps]:
  "node_at (Element tag a cs) (i # p) =
     (if i < length cs then node_at (cs ! i) p else None)"
  by (simp add: at_index_def node_at.simps(2))

lemma node_at_child:
  "node_at t (i # p) =
     (case at_index (children t) i of None \<Rightarrow> None | Some c \<Rightarrow> node_at c p)"
  by (rule node_at.simps)

lemma node_at_append:
  "node_at t (p @ q) = (case node_at t p of None \<Rightarrow> None | Some u \<Rightarrow> node_at u q)"
  by (induction p arbitrary: t) (auto simp: node_at_child split: option.splits)

lemma node_at_prefix_closed:
  assumes "node_at t q \<noteq> None" and "prefix p q"
  shows "node_at t p \<noteq> None"
proof -
  from assms(2) obtain r where "q = p @ r" by (auto simp: prefix_def)
  with assms(1) show ?thesis by (auto simp: node_at_append split: option.splits)
qed

lemma nodes_on_path_nonempty [simp]: "nodes_on_path t p \<noteq> []"
  by (cases p) simp_all

lemma hd_nodes_on_path [simp]: "hd (nodes_on_path t p) = t"
  by (cases p) simp_all

lemma length_nodes_on_path:
  "node_at t p \<noteq> None \<Longrightarrow> length (nodes_on_path t p) = Suc (length p)"
  by (induction p arbitrary: t) (auto simp: node_at_child split: option.splits)

lemma last_nodes_on_path:
  "node_at t p = Some u \<Longrightarrow> last (nodes_on_path t p) = u"
  by (induction p arbitrary: t) (auto simp: node_at_child split: option.splits)

lemma contains_self [simp]: "contains p (Inside p)"
  by simp

lemma contains_trans: "prefix p q \<Longrightarrow> contains q tg \<Longrightarrow> contains p tg"
  by (cases tg) auto

lemma contains_Nil [simp]: "contains [] tg \<longleftrightarrow> tg \<noteq> Outside"
  by (cases tg) simp_all

section \<open>Refs\<close>

lemma find_ref_sound_aux:
  fixes t :: "('h, 'r) vnode" and cs :: "('h, 'r) vnode list"
  shows "find_ref r t = Some p \<Longrightarrow> \<exists>u. node_at t p = Some u \<and> ref_of u = Some r"
    and "find_ref_list r cs i = Some q \<Longrightarrow>
      \<exists>j p' u. q = (i + j) # p' \<and> j < length cs \<and> node_at (cs ! j) p' = Some u
         \<and> ref_of u = Some r"
proof (induction r t and r cs i arbitrary: p and q rule: find_ref_find_ref_list.induct)
  case (1 r tag a cs)
  show ?case
  proof (cases "ref a = Some r")
    case True
    with "1.prems" show ?thesis by auto
  next
    case False
    with "1.prems" have "find_ref_list r cs 0 = Some p" by simp
    from "1.IH" [OF False this] show ?thesis
      by (auto simp: at_index_def)
  qed
next
  case (5 r c cs i)
  show ?case
  proof (cases "find_ref r c")
    case None
    with "5.prems" have "find_ref_list r cs (Suc i) = Some q" by simp
    from "5.IH"(2) [OF None this] obtain j p' u
      where "q = (Suc i + j) # p'" "j < length cs" "node_at (cs ! j) p' = Some u"
        "ref_of u = Some r" by blast
    then have "q = (i + Suc j) # p' \<and> Suc j < length (c # cs)
        \<and> node_at ((c # cs) ! Suc j) p' = Some u \<and> ref_of u = Some r"
      by simp
    then show ?thesis by blast
  next
    case (Some p')
    with "5.prems" have q: "q = i # p'" by simp
    from "5.IH"(1) [OF Some] obtain u where "node_at c p' = Some u" "ref_of u = Some r"
      by blast
    with q have "q = (i + 0) # p' \<and> 0 < length (c # cs)
        \<and> node_at ((c # cs) ! 0) p' = Some u \<and> ref_of u = Some r"
      by simp
    then show ?thesis by blast
  qed
qed simp_all

lemma find_ref_sound:
  "find_ref r t = Some p \<Longrightarrow> \<exists>u. node_at t p = Some u \<and> ref_of u = Some r"
  by (rule find_ref_sound_aux(1))

lemma find_ref_valid: "find_ref r t = Some p \<Longrightarrow> valid_target t (Inside p)"
  by (auto dest: find_ref_sound)

section \<open>Bubbling\<close>

lemma click_handlers_invalid [simp, vdom_simps]:
  "node_at t p = None \<Longrightarrow> click_handlers t p = []"
  by (simp add: click_handlers_def)

lemma click_handlers_root [simp, vdom_simps]:
  "click_handlers t [] = (case handler_of t of None \<Rightarrow> [] | Some h \<Rightarrow> [h])"
  by (simp add: click_handlers_def List.map_filter_def split: option.splits)

lemma click_handlers_Cons [vdom_simps]:
  "click_handlers t (i # p) =
     (case at_index (children t) i of
        None \<Rightarrow> []
      | Some c \<Rightarrow>
          if node_at c p = None then []
          else click_handlers c p @ (case handler_of t of None \<Rightarrow> [] | Some h \<Rightarrow> [h]))"
  by (auto simp: click_handlers_def List.map_filter_def node_at_child split: option.splits)

lemma set_click_handlers_subset:
  "h \<in> set (click_handlers t p) \<Longrightarrow> \<exists>q u. prefix q p \<and> node_at t q = Some u \<and> handler_of u = Some h"
proof (induction p arbitrary: t)
  case Nil
  then show ?case by (auto split: option.splits)
next
  case (Cons i p)
  then show ?case
  proof (cases "at_index (children t) i")
    case None
    with Cons.prems show ?thesis by (simp add: click_handlers_Cons)
  next
    case (Some c)
    show ?thesis
    proof (cases "h \<in> set (click_handlers c p)")
      case True
      from Cons.IH [OF this] obtain q u
        where "prefix q p" "node_at c q = Some u" "handler_of u = Some h" by blast
      with Some have "prefix (i # q) (i # p) \<and> node_at t (i # q) = Some u \<and> handler_of u = Some h"
        by (simp add: node_at_child)
      then show ?thesis by blast
    next
      case False
      with Cons.prems Some have "handler_of t = Some h"
        by (auto simp: click_handlers_Cons split: if_splits option.splits)
      then have "prefix [] (i # p) \<and> node_at t [] = Some t \<and> handler_of t = Some h"
        by simp
      then show ?thesis by blast
    qed
  qed
qed

lemma no_handlers_child:
  "no_handlers t \<Longrightarrow> at_index (children t) i = Some c \<Longrightarrow> no_handlers c"
  by (cases t) (auto simp: at_index_eq_Some_iff list_all_length)

lemma no_handlers_handler_of: "no_handlers t \<Longrightarrow> handler_of t = None"
  by (cases t) simp_all

lemma click_handlers_no_handlers: "no_handlers t \<Longrightarrow> click_handlers t p = []"
proof (induction p arbitrary: t)
  case Nil
  then show ?case by (simp add: no_handlers_handler_of)
next
  case (Cons i p)
  then show ?case
    by (auto simp: click_handlers_Cons no_handlers_handler_of split: option.splits
        dest: no_handlers_child)
qed

text \<open>
  An element whose children hold no handler: a click anywhere inside it reaches the
  element's own handler and no other.
\<close>

lemma click_handlers_flat:
  assumes "list_all no_handlers (children t)" and "node_at t p \<noteq> None"
  shows "click_handlers t p = (case handler_of t of None \<Rightarrow> [] | Some h \<Rightarrow> [h])"
proof (cases p)
  case Nil
  then show ?thesis by simp
next
  case (Cons i q)
  with assms(2) obtain c u where c: "at_index (children t) i = Some c"
    and u: "node_at c q = Some u"
    by (auto simp: node_at_child split: option.splits)
  from assms(1) c have "no_handlers c"
    by (auto simp: at_index_eq_Some_iff list_all_length)
  with c u Cons show ?thesis
    by (simp add: click_handlers_Cons click_handlers_no_handlers)
qed

section \<open>Keys and refs\<close>

lemma key_of_simps [simp, vdom_simps]:
  "key_of (Element tag a cs) = key a" "key_of (Text s) = None" "key_of (Component n ps) = None"
  by (simp_all add: key_of_def)

lemma no_refs_concat:
  "(\<And>x. x \<in> set xs \<Longrightarrow> refs_in x = []) \<Longrightarrow> concat (map refs_in xs) = []"
  by (induction xs) simp_all

lemma well_formed_leaf [simp]: "well_formed (Text s)" "well_formed (Component n ps)"
  by (simp_all add: well_formed_def)

section \<open>A ref names one element\<close>

text \<open>
  \<open>find_ref\<close> returns the first element in document order that carries the ref. In a
  tree whose refs are distinct that element is the only one: the position \<open>find_ref\<close>
  returns is the position of whichever element carries the ref, so attaching the refs
  by \<open>find_ref\<close> is attaching each to its element.
\<close>

lemma ref_in_refs:
  "node_at t p = Some u \<Longrightarrow> ref_of u = Some r \<Longrightarrow> r \<in> set (refs_in t)"
proof (induction p arbitrary: t)
  case Nil
  then show ?case by (cases t) (auto simp: ref_of_def)
next
  case (Cons i p)
  from Cons.prems(1) obtain c where c: "at_index (children t) i = Some c" "node_at c p = Some u"
    by (auto simp: node_at.simps(2) split: option.splits)
  from Cons.IH [OF c(2) Cons.prems(2)] have "r \<in> set (refs_in c)" .
  moreover from c(1) have "c \<in> set (children t)"
    by (auto simp: at_index_eq_Some_iff)
  ultimately show ?case by (cases t) auto
qed

lemma find_ref_None_iff_aux:
  fixes t :: "('h, 'r) vnode" and cs :: "('h, 'r) vnode list"
  shows "find_ref r t = None \<longleftrightarrow> r \<notin> set (refs_in t)"
    and "find_ref_list r cs i = None \<longleftrightarrow> (\<forall>c \<in> set cs. r \<notin> set (refs_in c))"
  by (induction r t and r cs i rule: find_ref_find_ref_list.induct)
     (auto split: option.splits)

lemma find_ref_list_at:
  assumes "i < length cs" and "find_ref r (cs ! i) = Some q"
    and "\<And>j. j < i \<Longrightarrow> find_ref r (cs ! j) = None"
  shows "find_ref_list r cs k = Some ((k + i) # q)"
  using assms
proof (induction cs arbitrary: i k)
  case Nil
  then show ?case by simp
next
  case (Cons c cs)
  show ?case
  proof (cases i)
    case 0
    with Cons.prems show ?thesis by simp
  next
    case (Suc n)
    with Cons.prems(3) [of 0] have "find_ref r c = None" by simp
    moreover from Suc Cons.prems have "find_ref_list r cs (Suc k) = Some ((Suc k + n) # q)"
      by (intro Cons.IH) force+
    ultimately show ?thesis using Suc by simp
  qed
qed

lemma distinct_concat_disjoint:
  "distinct (concat xss) \<Longrightarrow> i < j \<Longrightarrow> j < length xss \<Longrightarrow>
     set (xss ! i) \<inter> set (xss ! j) = {}"
proof (induction xss arbitrary: i j)
  case Nil
  then show ?case by simp
next
  case (Cons xs xss)
  show ?case
  proof (cases i)
    case 0
    with Cons.prems obtain n where "j = Suc n" "n < length xss" by (cases j) auto
    then have "set (xss ! n) \<subseteq> \<Union> (set ` set xss)" by (auto intro: nth_mem)
    with 0 \<open>j = Suc n\<close> Cons.prems(1) show ?thesis by auto
  next
    case (Suc m)
    with Cons.prems obtain n where "j = Suc n" "n < length xss" "m < n" by (cases j) auto
    with Suc Cons.prems(1) Cons.IH [of m n] show ?thesis by simp
  qed
qed

lemma find_ref_unique:
  assumes "distinct (refs_in t)" and "node_at t p = Some u" and "ref_of u = Some r"
  shows "find_ref r t = Some p"
  using assms
proof (induction p arbitrary: t)
  case Nil
  then show ?case by (cases t) (auto simp: ref_of_def)
next
  case (Cons i p)
  from Cons.prems(2) obtain c where c: "at_index (children t) i = Some c" "node_at c p = Some u"
    by (auto simp: node_at.simps(2) split: option.splits)
  then obtain tag a cs where t: "t = Element tag a cs" and i: "i < length cs" "c = cs ! i"
    by (cases t) (auto simp: at_index_eq_Some_iff)
  from Cons.prems(1) t have d: "distinct (concat (map refs_in cs))"
    and a: "\<And>x. ref a = Some x \<Longrightarrow> x \<notin> \<Union> (set ` refs_in ` set cs)"
    by (auto split: option.splits)
  from d i have "distinct (refs_in c)" by (auto simp: distinct_concat_iff)
  from Cons.IH [OF this c(2) Cons.prems(3)] have f: "find_ref r c = Some p" .
  have m: "r \<in> set (refs_in c)"
    using f find_ref_None_iff_aux(1) [of r c] by auto
  with a i have "ref a \<noteq> Some r" by auto
  moreover have "find_ref r (cs ! j) = None" if "j < i" for j
  proof -
    from distinct_concat_disjoint [OF d, of j i] that i
    have "set (refs_in (cs ! j)) \<inter> set (refs_in c) = {}" by simp
    with m show ?thesis by (auto simp: find_ref_None_iff_aux(1))
  qed
  with i f have "find_ref_list r cs 0 = Some ((0 + i) # p)"
    by (intro find_ref_list_at) simp_all
  ultimately show ?case using t by simp
qed

end
