(* ===== verification/Host.thy ===== *)
theory Host
  imports Prelude
begin

text \<open>
  The part of the rendering surface the component talks to: the listeners registered
  on \<open>document\<close> for one event type, and the pending timers of the event loop.
  The record is generic in the listener closures \<open>'l\<close> and the timer callbacks \<open>'c\<close>.

  \<^item> \<open>addEventListener\<close> appends a listener unless the same closure is already
    registered (the DOM ignores the duplicate); \<open>removeEventListener\<close> removes it
    and is silent when it is absent.
  \<^item> \<open>setTimeout\<close> queues a callback under a fresh id and returns the id;
    \<open>clearTimeout\<close> drops the timer with that id, silently if it has fired or never
    existed; \<open>fire_timer\<close> is the event loop taking one pending timer off the queue
    and handing out its callback.
  \<^item> \<open>host_ok\<close>: timer ids are distinct and below the next id, and no listener is
    registered twice. Every operation keeps it.

  \<^item> \<open>map_host\<close>: the same document with its closures renamed; an injective
    renaming of the listeners keeps it well formed.

  The lemmas give each field of the host after each operation, so that client proofs
  rewrite with them and never unfold the operations.
\<close>

section \<open>State and operations\<close>

record ('l, 'c) host =
  listeners :: "'l list"
  timers :: "(nat \<times> 'c) list"
  next_timer :: nat

definition addEventListener :: "'l \<Rightarrow> ('l, 'c) host \<Rightarrow> ('l, 'c) host" where
  [host_defs]: "addEventListener l h =
     (if l \<in> set (listeners h) then h else h\<lparr>listeners := listeners h @ [l]\<rparr>)"

definition removeEventListener :: "'l \<Rightarrow> ('l, 'c) host \<Rightarrow> ('l, 'c) host" where
  [host_defs]: "removeEventListener l h = h\<lparr>listeners := removeAll l (listeners h)\<rparr>"

definition setTimeout :: "'c \<Rightarrow> ('l, 'c) host \<Rightarrow> nat \<times> ('l, 'c) host" where
  [host_defs]: "setTimeout c h =
     (next_timer h,
      h\<lparr>timers := timers h @ [(next_timer h, c)], next_timer := Suc (next_timer h)\<rparr>)"

definition clearTimeout :: "nat \<Rightarrow> ('l, 'c) host \<Rightarrow> ('l, 'c) host" where
  [host_defs]: "clearTimeout t h = h\<lparr>timers := filter (\<lambda>(i, c). i \<noteq> t) (timers h)\<rparr>"

definition pending :: "nat \<Rightarrow> ('l, 'c) host \<Rightarrow> bool" where
  [host_defs]: "pending t h \<longleftrightarrow> t \<in> set (map fst (timers h))"

definition fire_timer :: "nat \<Rightarrow> ('l, 'c) host \<Rightarrow> ('c \<times> ('l, 'c) host) option" where
  [host_defs]: "fire_timer t h =
     (case map_of (timers h) t of None \<Rightarrow> None | Some c \<Rightarrow> Some (c, clearTimeout t h))"

definition host_ok :: "('l, 'c) host \<Rightarrow> bool" where
  "host_ok h \<longleftrightarrow>
     distinct (map fst (timers h)) \<and> list_all (\<lambda>(i, c). i < next_timer h) (timers h)
     \<and> distinct (listeners h)"

definition empty_host :: "('l, 'c) host" where
  "empty_host = \<lparr>listeners = [], timers = [], next_timer = 0\<rparr>"

definition map_host :: "('l \<Rightarrow> 'm) \<Rightarrow> ('c \<Rightarrow> 'd) \<Rightarrow> ('l, 'c) host \<Rightarrow> ('m, 'd) host" where
  "map_host f g h =
     \<lparr>listeners = map f (listeners h), timers = map (\<lambda>x. (fst x, g (snd x))) (timers h),
      next_timer = next_timer h\<rparr>"

section \<open>The fields after each operation\<close>

lemma addEventListener_fields [simp]:
  "listeners (addEventListener l h) =
     (if l \<in> set (listeners h) then listeners h else listeners h @ [l])"
  "timers (addEventListener l h) = timers h"
  "next_timer (addEventListener l h) = next_timer h"
  by (simp_all add: addEventListener_def)

lemma removeEventListener_fields [simp]:
  "listeners (removeEventListener l h) = removeAll l (listeners h)"
  "timers (removeEventListener l h) = timers h"
  "next_timer (removeEventListener l h) = next_timer h"
  by (simp_all add: removeEventListener_def)

lemma setTimeout_fields [simp]:
  "fst (setTimeout c h) = next_timer h"
  "listeners (snd (setTimeout c h)) = listeners h"
  "timers (snd (setTimeout c h)) = timers h @ [(next_timer h, c)]"
  "next_timer (snd (setTimeout c h)) = Suc (next_timer h)"
  by (simp_all add: setTimeout_def)

lemma clearTimeout_fields [simp]:
  "listeners (clearTimeout t h) = listeners h"
  "timers (clearTimeout t h) = filter (\<lambda>(i, c). i \<noteq> t) (timers h)"
  "next_timer (clearTimeout t h) = next_timer h"
  by (simp_all add: clearTimeout_def)

lemma empty_host_fields [simp]:
  "listeners empty_host = []" "timers empty_host = []" "next_timer empty_host = 0"
  by (simp_all add: empty_host_def)

lemma host_eqI:
  "listeners h = listeners h' \<Longrightarrow> timers h = timers h' \<Longrightarrow> next_timer h = next_timer h'
     \<Longrightarrow> host.more h = host.more h' \<Longrightarrow> h = h'"
  by simp

section \<open>Listeners\<close>

lemma addEventListener_member [simp]: "l \<in> set (listeners (addEventListener l h))"
  by simp

lemma addEventListener_idem [simp]:
  "addEventListener l (addEventListener l h) = addEventListener l h"
  by (simp add: addEventListener_def)

lemma removeEventListener_not_member [simp]:
  "l \<notin> set (listeners (removeEventListener l h))"
  by simp

lemma removeEventListener_absent:
  "l \<notin> set (listeners h) \<Longrightarrow> removeEventListener l h = h"
  by (simp add: removeEventListener_def)

lemma removeEventListener_other:
  "l' \<noteq> l \<Longrightarrow> l' \<in> set (listeners (removeEventListener l h)) \<longleftrightarrow> l' \<in> set (listeners h)"
  by simp

lemma remove_add_fresh:
  "l \<notin> set (listeners h) \<Longrightarrow> removeEventListener l (addEventListener l h) = h"
  by (simp add: removeEventListener_def addEventListener_def)

section \<open>Timers\<close>

lemma pending_iff: "pending t h \<longleftrightarrow> (\<exists>c. (t, c) \<in> set (timers h))"
  by (force simp: pending_def)

lemma pending_map_of: "pending t h \<longleftrightarrow> map_of (timers h) t \<noteq> None"
  by (simp add: pending_def map_of_eq_None_iff)

lemma pending_empty [simp]: "\<not> pending t empty_host"
  by (simp add: pending_def)

lemma pending_listener_ops [simp]:
  "pending t (addEventListener l h) = pending t h"
  "pending t (removeEventListener l h) = pending t h"
  by (simp_all add: pending_def)

lemma pending_setTimeout [simp]:
  "pending t (snd (setTimeout c h)) \<longleftrightarrow> t = next_timer h \<or> pending t h"
  by (auto simp: pending_def)

lemma pending_clearTimeout [simp]:
  "pending t (clearTimeout t' h) \<longleftrightarrow> t \<noteq> t' \<and> pending t h"
  by (force simp: pending_def)

lemma clearTimeout_not_pending: "\<not> pending t h \<Longrightarrow> clearTimeout t h = h"
proof -
  assume "\<not> pending t h"
  then have "filter (\<lambda>(i, c). i \<noteq> t) (timers h) = timers h"
    by (auto simp: pending_iff filter_id_conv)
  then show ?thesis by (simp add: clearTimeout_def)
qed

lemma host_ok_fresh: "host_ok h \<Longrightarrow> \<not> pending (next_timer h) h"
  by (auto simp: host_ok_def pending_def list_all_iff)

lemma clear_set_fresh:
  assumes "host_ok h"
  shows "clearTimeout (fst (setTimeout c h)) (snd (setTimeout c h))
     = h\<lparr>next_timer := Suc (next_timer h)\<rparr>"
proof -
  from assms have "filter (\<lambda>(i, c). i \<noteq> next_timer h) (timers h) = timers h"
    by (auto simp: host_ok_def list_all_iff filter_id_conv)
  then show ?thesis by (simp add: clearTimeout_def setTimeout_def)
qed

lemma fire_timer_None_iff: "fire_timer t h = None \<longleftrightarrow> \<not> pending t h"
  by (auto simp: fire_timer_def pending_map_of split: option.splits)

lemma fire_timer_SomeD:
  "fire_timer t h = Some (c, h') \<Longrightarrow> (t, c) \<in> set (timers h) \<and> h' = clearTimeout t h"
  by (auto simp: fire_timer_def split: option.splits dest: map_of_SomeD)

lemma fire_timer_Some_ok:
  "host_ok h \<Longrightarrow> (t, c) \<in> set (timers h) \<Longrightarrow> fire_timer t h = Some (c, clearTimeout t h)"
  by (simp add: fire_timer_def host_ok_def)

section \<open>Well-formedness is kept\<close>

lemma host_ok_empty [simp]: "host_ok empty_host"
  by (simp add: host_ok_def)

lemma host_ok_addEventListener [simp]: "host_ok h \<Longrightarrow> host_ok (addEventListener l h)"
  by (simp add: host_ok_def)

lemma host_ok_removeEventListener [simp]: "host_ok h \<Longrightarrow> host_ok (removeEventListener l h)"
  by (simp add: host_ok_def distinct_removeAll)

lemma host_ok_setTimeout [simp]: "host_ok h \<Longrightarrow> host_ok (snd (setTimeout c h))"
  by (fastforce simp: host_ok_def list_all_iff)

lemma host_ok_clearTimeout [simp]: "host_ok h \<Longrightarrow> host_ok (clearTimeout t h)"
  by (auto simp: host_ok_def list_all_iff distinct_map_filter_fst)

lemma host_ok_fire_timer: "host_ok h \<Longrightarrow> fire_timer t h = Some (c, h') \<Longrightarrow> host_ok h'"
  by (auto dest: fire_timer_SomeD)

lemma timers_functional:
  "host_ok h \<Longrightarrow> (t, a) \<in> set (timers h) \<Longrightarrow> (t, b) \<in> set (timers h) \<Longrightarrow> a = b"
  by (auto simp: host_ok_def dest: eq_key_imp_eq_value)

lemma map_of_timers:
  "host_ok h \<Longrightarrow> map_of (timers h) t = Some c \<longleftrightarrow> (t, c) \<in> set (timers h)"
  by (simp add: host_ok_def)

lemma timer_id_bound: "host_ok h \<Longrightarrow> (i, c) \<in> set (timers h) \<Longrightarrow> i < next_timer h"
  by (auto simp: host_ok_def list_all_iff)

section \<open>Renaming the closures\<close>

lemma map_host_fields [simp]:
  "listeners (map_host f g h) = map f (listeners h)"
  "timers (map_host f g h) = map (\<lambda>x. (fst x, g (snd x))) (timers h)"
  "next_timer (map_host f g h) = next_timer h"
  by (simp_all add: map_host_def)

lemma map_host_comp: "map_host f g (map_host f' g' h) = map_host (f \<circ> f') (g \<circ> g') h"
  by (simp add: map_host_def)

lemma map_host_id: "(\<And>x. f x = x) \<Longrightarrow> (\<And>x. g x = x) \<Longrightarrow> map_host f g h = h"
  by (rule host_eqI) (simp_all add: map_idI)

lemma map_host_empty [simp]: "map_host f g empty_host = empty_host"
  by (simp add: map_host_def empty_host_def)

lemma host_ok_map_host: "inj f \<Longrightarrow> host_ok (map_host f g h) = host_ok h"
  by (simp add: host_ok_def distinct_map list_all_iff comp_def case_prod_unfold
      inj_on_subset [of f UNIV])

lemma pending_map_host [simp]: "pending t (map_host f g h) = pending t h"
  by (simp add: pending_def comp_def)

lemma map_host_removeEventListener:
  "inj f \<Longrightarrow> map_host f g (removeEventListener l h) = removeEventListener (f l) (map_host f g h)"
  by (rule host_eqI) (simp_all add: map_removeAll_inj)

lemma map_host_clearTimeout:
  "map_host f g (clearTimeout t h) = clearTimeout t (map_host f g h)"
  by (rule host_eqI) (simp_all add: clearTimeout_def filter_map o_def case_prod_unfold)

section \<open>Removals in either order\<close>

lemma removals_commute:
  "clearTimeout t (clearTimeout u h) = clearTimeout u (clearTimeout t h)"
  "removeEventListener l (removeEventListener m h) = removeEventListener m (removeEventListener l h)"
  "removeEventListener l (clearTimeout t h) = clearTimeout t (removeEventListener l h)"
  by (rule host_eqI; simp add: clearTimeout_def removeAll_filter_not_eq conj_commute)+

end
