(* ===== verification/Hooks.thy ===== *)
theory Hooks
  imports Prelude
begin

text \<open>
  The hook primitives of the rendering library, as far as the component uses them.
  A hook keeps a cell between renders; the cell is passed in and the new one returned.

  \<^item> \<open>useCallback fn deps cell\<close>: the memoised closure. The first render stores
    \<open>fn\<close> with its dependencies; a later render returns the stored closure as long as
    the dependencies are the same, and replaces it when they differ.
  \<^item> \<open>effect_due deps cell\<close>: whether an effect with a dependency list runs at
    this commit: at the first one, and whenever the dependencies changed since the
    effect ran last. The cell of an effect holds those dependencies and the cleanup
    closure the last run returned, if it returned one.
  \<^item> \<open>coherent g cell\<close>: the stored closure is the one \<open>g\<close> builds from the stored
    dependencies. A closure that reads nothing but its dependencies keeps its cell
    coherent, and a coherent cell never returns a stale closure.
\<close>

type_synonym ('d, 'c) memo = "('d \<times> 'c) option"

type_synonym ('d, 'k) effect_cell = "('d \<times> 'k option) option"

definition useCallback :: "'c \<Rightarrow> 'd \<Rightarrow> ('d, 'c) memo \<Rightarrow> 'd \<times> 'c" where
  [hook_defs]: "useCallback fn deps cell =
     (case cell of
        None \<Rightarrow> (deps, fn)
      | Some (d, c) \<Rightarrow> if d = deps then (d, c) else (deps, fn))"

definition effect_due :: "'d \<Rightarrow> ('d, 'k) effect_cell \<Rightarrow> bool" where
  [hook_defs]: "effect_due deps cell =
     (case cell of None \<Rightarrow> True | Some (d, k) \<Rightarrow> d \<noteq> deps)"

definition last_cleanup :: "('d, 'k) effect_cell \<Rightarrow> 'k option" where
  [hook_defs]: "last_cleanup cell = (case cell of None \<Rightarrow> None | Some (d, k) \<Rightarrow> k)"

definition coherent :: "('d \<Rightarrow> 'c) \<Rightarrow> ('d, 'c) memo \<Rightarrow> bool" where
  "coherent g cell = (case cell of None \<Rightarrow> True | Some (d, c) \<Rightarrow> c = g d)"

lemma useCallback_first [simp]: "useCallback fn deps None = (deps, fn)"
  by (simp add: useCallback_def)

lemma useCallback_same [simp]: "useCallback fn deps (Some (deps, c)) = (deps, c)"
  by (simp add: useCallback_def)

lemma useCallback_changed: "d \<noteq> deps \<Longrightarrow> useCallback fn deps (Some (d, c)) = (deps, fn)"
  by (simp add: useCallback_def)

lemma fst_useCallback [simp]: "fst (useCallback fn deps cell) = deps"
  by (auto simp: useCallback_def split: option.splits)

lemma useCallback_coherent:
  "coherent g cell \<Longrightarrow> useCallback (g deps) deps cell = (deps, g deps)"
  by (auto simp: coherent_def useCallback_def split: option.splits)

lemma coherent_simps [simp]:
  "coherent g None"
  "coherent g (Some (d, c)) \<longleftrightarrow> c = g d"
  by (simp_all add: coherent_def)

lemma coherent_useCallback:
  "coherent g cell \<Longrightarrow> coherent g (Some (useCallback (g deps) deps cell))"
  by (simp add: useCallback_coherent)

lemma useCallback_idem:
  "useCallback fn deps (Some (useCallback fn deps cell)) = useCallback fn deps cell"
  by (auto simp: useCallback_def split: option.splits)

lemma effect_due_simps [simp]:
  "effect_due deps None"
  "effect_due deps (Some (d, k)) \<longleftrightarrow> d \<noteq> deps"
  by (simp_all add: effect_due_def)

lemma last_cleanup_simps [simp]:
  "last_cleanup None = None"
  "last_cleanup (Some (d, k)) = k"
  by (simp_all add: last_cleanup_def)

end
