(* ===== verification/Types.thy ===== *)
theory Types
  imports Prelude
begin

text \<open>
  The option registry. The component imports \<open>AVAILABLE_MODELS\<close> from the module
  \<open>../types\<close>, which is not among the sources; what is known of it is what the
  component reads (an array of objects with a string \<open>id\<close> and a string \<open>label\<close>)
  and what the specification says (a fixed ordered list of \<open>{id, label}\<close> records with
  unique ids). The development therefore treats the registry as a parameter
  \<open>reg :: registry\<close> of every definition that reads it, and proves properties for all
  registries, with the hypotheses \<open>reg \<noteq> []\<close> or \<open>ids_unique reg\<close> stated where a
  property needs them.

  The field \<open>id\<close> of the source is \<open>model_id\<close> here, since \<open>id\<close> is the identity
  function of HOL. \<open>example_models\<close> is the registry of the specification's concrete
  scenario; witnesses are evaluated on it.
\<close>

record ModelInfo =
  model_id :: string
  label :: string

type_synonym registry = "ModelInfo list"

definition ids_unique :: "registry \<Rightarrow> bool" where
  "ids_unique reg \<longleftrightarrow> distinct (map model_id reg)"

definition has_id :: "string \<Rightarrow> ModelInfo \<Rightarrow> bool" where
  "has_id v m \<longleftrightarrow> model_id m = v"

definition example_models :: registry where
  "example_models =
     [\<lparr>model_id = ''a'', label = ''Alpha''\<rparr>, \<lparr>model_id = ''b'', label = ''Beta''\<rparr>]"

lemma has_id_simp [simp]: "has_id v m \<longleftrightarrow> model_id m = v"
  by (simp add: has_id_def)

lemma ids_unique_Nil [simp]: "ids_unique []"
  by (simp add: ids_unique_def)

lemma ids_unique_Cons [simp]:
  "ids_unique (m # reg) \<longleftrightarrow> model_id m \<notin> model_id ` set reg \<and> ids_unique reg"
  by (simp add: ids_unique_def)

lemma ids_unique_example [simp]: "ids_unique example_models"
  by (simp add: example_models_def)

lemma example_models_nonempty [simp]: "example_models \<noteq> []"
  by (simp add: example_models_def)

lemma find_by_id_unique:
  "ids_unique reg \<Longrightarrow> m \<in> set reg \<Longrightarrow> find (has_id (model_id m)) reg = Some m"
  by (induction reg) (auto simp: image_iff)

lemma find_by_id_index:
  "ids_unique reg \<Longrightarrow> i < length reg \<Longrightarrow> find (has_id (model_id (reg ! i))) reg = Some (reg ! i)"
  by (simp add: find_by_id_unique)

lemma filter_by_id_unique:
  "ids_unique reg \<Longrightarrow> m \<in> set reg \<Longrightarrow> filter (has_id (model_id m)) reg = [m]"
  by (induction reg) (auto simp: image_iff filter_eq_Nil_iff)

lemma filter_by_id_absent:
  "v \<notin> model_id ` set reg \<Longrightarrow> filter (has_id v) reg = []"
  by (auto simp: filter_eq_Nil_iff)

end
