(* ===== verification/ModelSelect.thy ===== *)
theory ModelSelect
  imports VDom Host Hooks Types
begin

text \<open>
  The component \<open>ModelSelect\<close> of \<open>selectors/ModelSelect.tsx\<close>, definition by
  definition in the order of the source.

  \<^item> Data: \<open>ModelSelectProps\<close> (the props interface), \<open>hooks\<close> (what the component
    keeps between renders: the \<open>useState\<close> flag, the two refs, the two
    \<open>useCallback\<close> cells and the cell of the effect), \<open>handler\<close> (the closures put
    on \<open>onClick\<close>, with the variables they captured), \<open>action\<close> (what a closure
    does when it runs: the calls it makes, in order), \<open>listener\<close> and \<open>timer_cb\<close>
    (the closures handed to \<open>document.addEventListener\<close> and \<open>setTimeout\<close>).
  \<^item> Code: \<open>currentModel\<close>, \<open>handleToggle\<close>, \<open>handleSelect\<close>,
    \<open>handleClickOutside\<close>, \<open>timer_callback\<close>, \<open>effect\<close>, \<open>cleanup\<close>, the JSX
    (\<open>trigger_button\<close>, \<open>option_row\<close>, \<open>dropdown\<close>, \<open>view\<close>) and the component
    function \<open>ModelSelect\<close> itself, which returns the updated hook cells and the
    element tree, or the \<open>TypeError\<close> of reading \<open>label\<close> from \<open>undefined\<close>.

  A closure is data: \<open>HandleToggle b\<close> is \<open>handleToggle\<close> created in a render
  where \<open>isOpen\<close> was \<open>b\<close>; \<open>HandleSelect cb i\<close> is \<open>() => handleSelect(i)\<close>
  where \<open>handleSelect\<close> captured the callback \<open>cb\<close>. The owner's \<open>onChange\<close> is
  known by its identity only (\<open>callback\<close>); calling it is the action \<open>OnChange\<close>.
  \<open>HandleClickOutside k\<close> is the \<open>k\<close>-th closure the effect created; all of them
  run the same code and read the refs when they run, so \<open>k\<close> matters only to
  \<open>addEventListener\<close> and \<open>removeEventListener\<close>. \<open>OtherListener\<close> and
  \<open>OtherTimer\<close> stand for what the rest of the page registered.

  \<^item> Observations: \<open>shown_label\<close>, \<open>overlay_rows\<close>, \<open>row_label\<close>, \<open>row_marked\<close>,
    \<open>row_key\<close> read a rendered tree; \<open>tree_of\<close> is the tree of a render with fresh
    closures; \<open>region_of\<close> names the part of the tree a target lies in.
  \<^item> Lemmas: the selected model is found or is the first entry; the shape of the
    tree and the handlers a click meets in it; what a render shows; the handlers of a
    render capture the current flag and callback; the cleanup undoes the effect.
\<close>

section \<open>Data\<close>

type_synonym callback = nat

record ModelSelectProps =
  value_p :: string
  onChange :: callback

datatype ref_name = ButtonRef | DropdownRef

datatype handler = HandleToggle bool | HandleSelect callback string

datatype action = StopPropagation | SetIsOpen bool | OnChange callback string

datatype listener = HandleClickOutside nat | OtherListener nat

datatype timer_cb = AddMousedownListener nat | OtherTimer nat

type_synonym tree = "(handler, ref_name) vnode"

type_synonym document = "(listener, timer_cb) host"

record hooks =
  isOpen :: bool
  buttonRef :: "path option"
  dropdownRef :: "path option"
  handleToggle_memo :: "(bool, bool) memo"
  handleSelect_memo :: "(callback, callback) memo"
  outside_effect :: "(bool, nat \<times> nat) effect_cell"
  closures :: nat

definition initial_hooks :: hooks where
  "initial_hooks = \<lparr>isOpen = False, buttonRef = None, dropdownRef = None,
     handleToggle_memo = None, handleSelect_memo = None, outside_effect = None,
     closures = 0\<rparr>"

section \<open>The selected model\<close>

definition currentModel :: "registry \<Rightarrow> string \<Rightarrow> ModelInfo option" where
  [comp_defs]: "currentModel reg v = or_else (find (has_id v) reg) (at_index reg 0)"

section \<open>Event handlers\<close>

definition handleToggle :: "bool \<Rightarrow> action list" where
  [comp_defs]: "handleToggle isOpen_c = [StopPropagation, SetIsOpen (\<not> isOpen_c)]"

definition handleSelect :: "callback \<Rightarrow> string \<Rightarrow> action list" where
  [comp_defs]: "handleSelect onChange_c modelId = [OnChange onChange_c modelId, SetIsOpen False]"

fun run_handler :: "handler \<Rightarrow> action list" where
  "run_handler (HandleToggle isOpen_c) = handleToggle isOpen_c"
| "run_handler (HandleSelect onChange_c modelId) = handleSelect onChange_c modelId"

section \<open>The outside-click effect\<close>

definition ref_contains :: "path option \<Rightarrow> target \<Rightarrow> bool" where
  [comp_defs]: "ref_contains r tg = (case r of None \<Rightarrow> False | Some p \<Rightarrow> contains p tg)"

definition handleClickOutside :: "hooks \<Rightarrow> target \<Rightarrow> action list" where
  [comp_defs]: "handleClickOutside hk tg =
     (if dropdownRef hk \<noteq> None \<and> \<not> ref_contains (dropdownRef hk) tg
         \<and> buttonRef hk \<noteq> None \<and> \<not> ref_contains (buttonRef hk) tg
      then [SetIsOpen False] else [])"

definition timer_callback :: "nat \<Rightarrow> document \<Rightarrow> document" where
  [comp_defs]: "timer_callback k h = addEventListener (HandleClickOutside k) h"

definition effect :: "bool \<Rightarrow> nat \<Rightarrow> document \<Rightarrow> (nat \<times> nat) option \<times> document" where
  [comp_defs]: "effect isOpen_c k h =
     (if \<not> isOpen_c then (None, h)
      else (Some (fst (setTimeout (AddMousedownListener k) h), k),
            snd (setTimeout (AddMousedownListener k) h)))"

definition cleanup :: "nat \<times> nat \<Rightarrow> document \<Rightarrow> document" where
  [comp_defs]: "cleanup c h =
     removeEventListener (HandleClickOutside (snd c)) (clearTimeout (fst c) h)"

section \<open>The element tree\<close>

definition title_prefix :: string where
  "title_prefix = [CHR 0xE5, CHR 0xBD, CHR 0x93, CHR 0xE5, CHR 0x89, CHR 0x8D,
     CHR 0xE6, CHR 0xA8, CHR 0xA1, CHR 0xE5, CHR 0x9E, CHR 0x8B] @ '': ''"

definition claude_icon :: "nat \<Rightarrow> tree" where
  "claude_icon n = Component ''Claude.Color'' [(''size'', n)]"

definition trigger_button :: "bool \<Rightarrow> bool \<Rightarrow> string \<Rightarrow> tree" where
  [comp_defs]: "trigger_button isOpen_v toggle_c lbl =
     Element ''button''
       (no_attrs\<lparr>ref := Some ButtonRef, className := Some ''selector-button'',
          onClick := Some (HandleToggle toggle_c), title := Some (title_prefix @ lbl)\<rparr>)
       [claude_icon 12,
        Element ''span'' no_attrs [Text lbl],
        Element ''span''
          (no_attrs\<lparr>className :=
               Some (''codicon codicon-chevron-'' @ (if isOpen_v then ''up'' else ''down'')),
             style := [(''fontSize'', Str ''10px''), (''marginLeft'', Str ''2px'')]\<rparr>)
          []]"

definition option_row :: "string \<Rightarrow> callback \<Rightarrow> ModelInfo \<Rightarrow> tree" where
  [comp_defs]: "option_row v select_c model =
     Element ''div''
       (no_attrs\<lparr>key := Some (model_id model),
          className :=
            Some (''selector-option '' @ (if model_id model = v then ''selected'' else '''')),
          onClick := Some (HandleSelect select_c (model_id model))\<rparr>)
       ([claude_icon 16, Element ''span'' no_attrs [Text (label model)]]
        @ (if model_id model = v
           then [Element ''span''
                   (no_attrs\<lparr>className := Some ''codicon codicon-check check-mark''\<rparr>) []]
           else []))"

definition dropdown :: "registry \<Rightarrow> string \<Rightarrow> callback \<Rightarrow> tree" where
  [comp_defs]: "dropdown reg v select_c =
     Element ''div''
       (no_attrs\<lparr>ref := Some DropdownRef, className := Some ''selector-dropdown'',
          style := [(''position'', Str ''absolute''), (''bottom'', Str ''100%''),
            (''left'', Num 0), (''marginBottom'', Str ''4px''), (''zIndex'', Num 10000)]\<rparr>)
       (map (option_row v select_c) reg)"

definition view :: "registry \<Rightarrow> string \<Rightarrow> bool \<Rightarrow> bool \<Rightarrow> callback \<Rightarrow> string \<Rightarrow> tree" where
  [comp_defs]: "view reg v isOpen_v toggle_c select_c lbl =
     Element ''div''
       (no_attrs\<lparr>style := [(''position'', Str ''relative''), (''display'', Str ''inline-block'')]\<rparr>)
       (trigger_button isOpen_v toggle_c lbl
        # (if isOpen_v then [dropdown reg v select_c] else []))"

section \<open>The component function\<close>

definition ModelSelect :: "registry \<Rightarrow> ModelSelectProps \<Rightarrow> hooks \<Rightarrow> (hooks \<times> tree) result" where
  "ModelSelect reg p hk =
     (let model = currentModel reg (value_p p);
          toggle = useCallback (isOpen hk) (isOpen hk) (handleToggle_memo hk);
          select = useCallback (onChange p) (onChange p) (handleSelect_memo hk);
          hk' = hk\<lparr>handleToggle_memo := Some toggle, handleSelect_memo := Some select\<rparr>
      in bind_result (member model ''label'' label)
           (\<lambda>lbl. Inr (hk', view reg (value_p p) (isOpen hk) (snd toggle) (snd select) lbl)))"

section \<open>What a render shows\<close>

text \<open>
  Observations of a render's outcome, by position in the tree \<open>view\<close> builds: the
  trigger is child 0 of the root and its label the text of its second child; the
  overlay, when present, is child 1 and its rows are its children.
\<close>

definition shown_label :: "(hooks \<times> tree) result \<Rightarrow> string option" where
  "shown_label r = (case r of Inl e \<Rightarrow> None | Inr (hk, t) \<Rightarrow> text_at t [0, 1, 0])"

definition overlay_rows :: "tree \<Rightarrow> tree list" where
  "overlay_rows t = (case node_at t [1] of None \<Rightarrow> [] | Some d \<Rightarrow> children d)"

definition row_label :: "tree \<Rightarrow> string option" where
  "row_label row = text_at row [1, 0]"

definition row_marked :: "tree \<Rightarrow> bool" where
  "row_marked row \<longleftrightarrow> node_at row [2] \<noteq> None"

definition row_key :: "tree \<Rightarrow> string option" where
  "row_key row = (case attrs_of row of None \<Rightarrow> None | Some a \<Rightarrow> key a)"

text \<open>
  The tree a render returns when the closures are fresh: \<open>tree_of reg p b\<close>, for the
  props \<open>p\<close> and the flag \<open>b\<close>. \<open>region_of\<close> names the part of that tree a target
  lies in: the trigger (the button and what is inside it), a row of the overlay, the
  overlay outside its rows, the wrapper element itself, or elsewhere in the document.
\<close>

definition shown :: "registry \<Rightarrow> string \<Rightarrow> string" where
  "shown reg v = (case currentModel reg v of None \<Rightarrow> [] | Some m \<Rightarrow> label m)"

definition tree_of :: "registry \<Rightarrow> ModelSelectProps \<Rightarrow> bool \<Rightarrow> tree" where
  "tree_of reg p b = view reg (value_p p) b b (onChange p) (shown reg (value_p p))"

datatype region = Wrapper | Trigger | Overlay | OptionRow nat | Elsewhere

fun region_of :: "target \<Rightarrow> region" where
  "region_of Outside = Elsewhere"
| "region_of (Inside []) = Wrapper"
| "region_of (Inside (0 # q)) = Trigger"
| "region_of (Inside [Suc 0]) = Overlay"
| "region_of (Inside (Suc 0 # i # q)) = OptionRow i"
| "region_of (Inside (Suc (Suc n) # q)) = Elsewhere"

definition in_overlay :: "target \<Rightarrow> bool" where
  "in_overlay tg = (case region_of tg of Overlay \<Rightarrow> True | OptionRow i \<Rightarrow> True | _ \<Rightarrow> False)"

definition outside_both :: "target \<Rightarrow> bool" where
  "outside_both tg \<longleftrightarrow> region_of tg \<noteq> Trigger \<and> \<not> in_overlay tg"

section \<open>The selected model: found, or the first entry\<close>

lemma currentModel_found:
  "find (has_id v) reg = Some m \<Longrightarrow> currentModel reg v = Some m"
  by (simp add: currentModel_def)

lemma currentModel_fallback:
  assumes "v \<notin> model_id ` set reg"
  shows "currentModel reg v = at_index reg 0"
proof -
  from assms have "\<forall>m \<in> set reg. \<not> has_id v m" by auto
  then show ?thesis unfolding currentModel_def by (rule find_or_first_no_match)
qed

lemma currentModel_None_iff: "currentModel reg v = None \<longleftrightarrow> reg = []"
  by (simp add: currentModel_def find_or_first_None_iff)

lemma currentModel_in_registry: "currentModel reg v = Some m \<Longrightarrow> m \<in> set reg"
  by (auto simp: currentModel_def dest: find_or_first_in_set)

lemma currentModel_has_id:
  "currentModel reg v = Some m \<Longrightarrow> v \<in> model_id ` set reg \<Longrightarrow> model_id m = v"
  by (auto simp: currentModel_def or_else_eq_Some_iff find_eq_None_iff dest: find_Some_holds)

lemma currentModel_unique:
  "ids_unique reg \<Longrightarrow> m \<in> set reg \<Longrightarrow> currentModel reg (model_id m) = Some m"
  by (simp add: currentModel_def find_by_id_unique)

section \<open>Handlers\<close>

lemma ref_contains_simps [simp]:
  "ref_contains None tg = False"
  "ref_contains (Some p) tg = contains p tg"
  by (simp_all add: ref_contains_def)

lemma handleClickOutside_closes_iff:
  "handleClickOutside hk tg = [SetIsOpen False] \<longleftrightarrow>
     (\<exists>d b. dropdownRef hk = Some d \<and> buttonRef hk = Some b
        \<and> \<not> contains d tg \<and> \<not> contains b tg)"
  by (cases "dropdownRef hk"; cases "buttonRef hk") (auto simp: handleClickOutside_def)

lemma handleClickOutside_cases:
  "handleClickOutside hk tg = [SetIsOpen False] \<or> handleClickOutside hk tg = []"
  by (simp add: handleClickOutside_def)

lemma handleClickOutside_no_dropdown [simp]:
  "dropdownRef hk = None \<Longrightarrow> handleClickOutside hk tg = []"
  by (simp add: handleClickOutside_def)

lemma handleClickOutside_Outside:
  "dropdownRef hk \<noteq> None \<Longrightarrow> buttonRef hk \<noteq> None \<Longrightarrow>
     handleClickOutside hk Outside = [SetIsOpen False]"
  by (auto simp: handleClickOutside_def)

section \<open>The effect acquires, the cleanup releases\<close>

lemma effect_closed [simp]: "effect False k h = (None, h)"
  by (simp add: effect_def)

lemma effect_open [simp]:
  "effect True k h =
     (Some (next_timer h, k), snd (setTimeout (AddMousedownListener k) h))"
  by (simp add: effect_def)

lemma cleanup_fields [simp]:
  "listeners (cleanup c h) = removeAll (HandleClickOutside (snd c)) (listeners h)"
  "timers (cleanup c h) = filter (\<lambda>(i, cb). i \<noteq> fst c) (timers h)"
  "next_timer (cleanup c h) = next_timer h"
  by (simp_all add: cleanup_def)

lemma timer_callback_fields [simp]:
  "listeners (timer_callback k h) =
     (if HandleClickOutside k \<in> set (listeners h) then listeners h
      else listeners h @ [HandleClickOutside k])"
  "timers (timer_callback k h) = timers h"
  "next_timer (timer_callback k h) = next_timer h"
  by (simp_all add: timer_callback_def)

lemma host_ok_cleanup [simp]: "host_ok h \<Longrightarrow> host_ok (cleanup c h)"
  by (simp add: cleanup_def)

lemma host_ok_timer_callback [simp]: "host_ok h \<Longrightarrow> host_ok (timer_callback k h)"
  by (simp add: timer_callback_def)

lemma host_ok_effect: "host_ok h \<Longrightarrow> host_ok (snd (effect b k h))"
  by (cases b) simp_all

section \<open>Rendering\<close>

lemma ModelSelect_Some:
  "currentModel reg (value_p p) = Some m \<Longrightarrow>
     ModelSelect reg p hk =
       Inr (hk\<lparr>handleToggle_memo :=
              Some (useCallback (isOpen hk) (isOpen hk) (handleToggle_memo hk)),
             handleSelect_memo :=
              Some (useCallback (onChange p) (onChange p) (handleSelect_memo hk))\<rparr>,
            view reg (value_p p) (isOpen hk)
              (snd (useCallback (isOpen hk) (isOpen hk) (handleToggle_memo hk)))
              (snd (useCallback (onChange p) (onChange p) (handleSelect_memo hk)))
              (label m))"
  by (simp add: ModelSelect_def Let_def)

lemma ModelSelect_None:
  "currentModel reg (value_p p) = None \<Longrightarrow> ModelSelect reg p hk = Inl (TypeError ''label'')"
  by (simp add: ModelSelect_def Let_def)

lemma ModelSelect_ok_iff: "is_ok (ModelSelect reg p hk) \<longleftrightarrow> reg \<noteq> []"
  using currentModel_None_iff [of reg "value_p p"]
  by (cases "currentModel reg (value_p p)") (auto simp: ModelSelect_Some ModelSelect_None)

lemma text_at_view_label [simp]:
  "text_at (view reg v b toggle_c select_c lbl) [0, Suc 0, 0] = Some lbl"
  by (simp add: text_at_def view_def trigger_button_def)

lemma shown_label_ModelSelect:
  "shown_label (ModelSelect reg p hk) = map_option label (currentModel reg (value_p p))"
  by (cases "currentModel reg (value_p p)")
     (simp_all add: ModelSelect_Some ModelSelect_None shown_label_def)

section \<open>The shape of the rendered tree\<close>

lemma claude_icon_no_handlers [simp]: "no_handlers (claude_icon n)"
  by (simp add: claude_icon_def)

lemma children_view [simp]:
  "children (view reg v b toggle_c select_c lbl) =
     trigger_button b toggle_c lbl # (if b then [dropdown reg v select_c] else [])"
  by (simp add: view_def)

lemma handler_of_view [simp]: "handler_of (view reg v b toggle_c select_c lbl) = None"
  by (simp add: view_def)

lemma handler_of_trigger_button [simp]:
  "handler_of (trigger_button b toggle_c lbl) = Some (HandleToggle toggle_c)"
  by (simp add: trigger_button_def)

lemma trigger_button_flat [simp]:
  "list_all no_handlers (children (trigger_button b toggle_c lbl))"
  by (simp add: trigger_button_def)

lemma children_dropdown [simp]:
  "children (dropdown reg v select_c) = map (option_row v select_c) reg"
  by (simp add: dropdown_def)

lemma handler_of_dropdown [simp]: "handler_of (dropdown reg v select_c) = None"
  by (simp add: dropdown_def)

lemma handler_of_option_row [simp]:
  "handler_of (option_row v select_c m) = Some (HandleSelect select_c (model_id m))"
  by (simp add: option_row_def)

lemma option_row_flat [simp]: "list_all no_handlers (children (option_row v select_c m))"
  by (simp add: option_row_def)

lemma find_ref_view_button [simp]:
  "find_ref ButtonRef (view reg v b toggle_c select_c lbl) = Some [0]"
  by (simp add: view_def trigger_button_def)

lemma find_ref_view_dropdown [simp]:
  "find_ref DropdownRef (view reg v b toggle_c select_c lbl) = (if b then Some [Suc 0] else None)"
  by (simp add: view_def trigger_button_def dropdown_def claude_icon_def)

lemma node_at_dropdown_row [simp]:
  "node_at (dropdown reg v select_c) (i # q) =
     (if i < length reg then node_at (option_row v select_c (reg ! i)) q else None)"
  by (simp add: node_at_child at_index_def)

lemma node_at_view_trigger [simp]:
  "node_at (view reg v b toggle_c select_c lbl) (0 # q) = node_at (trigger_button b toggle_c lbl) q"
  by (simp add: node_at_child)

lemma node_at_view_overlay [simp]:
  "node_at (view reg v b toggle_c select_c lbl) [Suc 0] =
     (if b then Some (dropdown reg v select_c) else None)"
  by (simp add: node_at_child)

lemma node_at_view_row [simp]:
  "node_at (view reg v b toggle_c select_c lbl) (Suc 0 # i # q) =
     (if b \<and> i < length reg then node_at (option_row v select_c (reg ! i)) q else None)"
  by (simp add: node_at_child at_index_def)

lemma node_at_view_beyond [simp]:
  "node_at (view reg v b toggle_c select_c lbl) (Suc (Suc n) # q) = None"
  by (simp add: node_at_child)

section \<open>Where a click lands\<close>

lemma click_handlers_view_trigger:
  assumes "node_at (view reg v b toggle_c select_c lbl) (0 # q) \<noteq> None"
  shows "click_handlers (view reg v b toggle_c select_c lbl) (0 # q) = [HandleToggle toggle_c]"
proof -
  from assms have "node_at (trigger_button b toggle_c lbl) q \<noteq> None"
    by simp
  then have "click_handlers (trigger_button b toggle_c lbl) q = [HandleToggle toggle_c]"
    by (simp add: click_handlers_flat)
  with assms show ?thesis
    by (auto simp: click_handlers_Cons)
qed

lemma click_handlers_view_row:
  assumes "node_at (view reg v b toggle_c select_c lbl) (Suc 0 # i # q) \<noteq> None"
  shows "click_handlers (view reg v b toggle_c select_c lbl) (Suc 0 # i # q)
     = [HandleSelect select_c (model_id (reg ! i))]"
proof -
  from assms have b: b and i: "i < length reg"
    and q: "node_at (option_row v select_c (reg ! i)) q \<noteq> None"
    by (auto split: if_splits)
  from q have "click_handlers (option_row v select_c (reg ! i)) q
      = [HandleSelect select_c (model_id (reg ! i))]"
    by (simp add: click_handlers_flat)
  with b i q show ?thesis
    by (auto simp: click_handlers_Cons at_index_def)
qed

lemma click_handlers_view_overlay [simp]:
  "click_handlers (view reg v b toggle_c select_c lbl) [Suc 0] = []"
  by (simp add: click_handlers_Cons)

lemma click_handlers_view:
  assumes "node_at (view reg v b toggle_c select_c lbl) p \<noteq> None"
  shows "click_handlers (view reg v b toggle_c select_c lbl) p =
     (case region_of (Inside p) of
        Trigger \<Rightarrow> [HandleToggle toggle_c]
      | OptionRow i \<Rightarrow> [HandleSelect select_c (model_id (reg ! i))]
      | _ \<Rightarrow> [])"
  using assms
  by (cases "Inside p" rule: region_of.cases)
     (simp_all add: click_handlers_view_trigger click_handlers_view_row)

lemma row_target_valid:
  "node_at (view reg v b toggle_c select_c lbl) p \<noteq> None \<Longrightarrow> region_of (Inside p) = OptionRow i
     \<Longrightarrow> b \<and> i < length reg"
  by (cases "Inside p" rule: region_of.cases) (auto split: if_splits)

lemma overlay_target_valid:
  "node_at (view reg v b toggle_c select_c lbl) p \<noteq> None \<Longrightarrow> in_overlay (Inside p) \<Longrightarrow> b"
  by (cases "Inside p" rule: region_of.cases)
     (auto simp: in_overlay_def split: if_splits)

lemma contains_button_iff: "contains [0] tg \<longleftrightarrow> region_of tg = Trigger"
  by (cases tg rule: region_of.cases) simp_all

lemma contains_overlay_iff: "contains [Suc 0] tg \<longleftrightarrow> in_overlay tg"
  by (cases tg rule: region_of.cases) (simp_all add: in_overlay_def)

text \<open>
  With both refs attached, the outside-click handler asks for the flag to be cleared
  exactly when the target is neither in the trigger nor in the overlay.
\<close>

lemma handleClickOutside_attached:
  "buttonRef hk = Some [0] \<Longrightarrow> dropdownRef hk = Some [Suc 0] \<Longrightarrow>
     handleClickOutside hk tg = (if outside_both tg then [SetIsOpen False] else [])"
  by (simp add: handleClickOutside_def contains_button_iff contains_overlay_iff outside_both_def)

section \<open>Rendering with fresh closures\<close>

lemma ModelSelect_fresh:
  assumes "reg \<noteq> []"
    and "coherent (\<lambda>d. d) (handleToggle_memo hk)"
    and "coherent (\<lambda>d. d) (handleSelect_memo hk)"
  shows "ModelSelect reg p hk =
     Inr (hk\<lparr>handleToggle_memo := Some (isOpen hk, isOpen hk),
             handleSelect_memo := Some (onChange p, onChange p)\<rparr>,
          tree_of reg p (isOpen hk))"
proof -
  from assms(1) obtain m where m: "currentModel reg (value_p p) = Some m"
    using currentModel_None_iff [of reg "value_p p"] by (cases "currentModel reg (value_p p)") auto
  from assms(2) have "useCallback (isOpen hk) (isOpen hk) (handleToggle_memo hk) = (isOpen hk, isOpen hk)"
    by (rule useCallback_coherent)
  moreover from assms(3)
  have "useCallback (onChange p) (onChange p) (handleSelect_memo hk) = (onChange p, onChange p)"
    by (rule useCallback_coherent)
  ultimately show ?thesis
    using m by (simp add: ModelSelect_Some tree_of_def shown_def)
qed

lemma find_ref_tree_of [simp]:
  "find_ref ButtonRef (tree_of reg p b) = Some [0]"
  "find_ref DropdownRef (tree_of reg p b) = (if b then Some [Suc 0] else None)"
  by (simp_all add: tree_of_def)

text \<open>
  Property C10 (specification 8.1 and 8.7, the invariant of section 3). The trigger
  shows the label of the current model, whatever the hook cells hold: when no entry of
  a non-empty registry has the selected id, the label of the first entry; when an
  entry has the selected id and ids are unique, the label of that entry.
\<close>

theorem trigger_shows_current_label:
  assumes "reg \<noteq> []"
  shows "(value_p p \<notin> model_id ` set reg \<longrightarrow>
            shown_label (ModelSelect reg p hk) = Some (label (hd reg)))
     \<and> (ids_unique reg \<longrightarrow> (\<forall>m \<in> set reg. value_p p = model_id m \<longrightarrow>
            shown_label (ModelSelect reg p hk) = Some (label m)))"
  using assms
  by (simp add: shown_label_ModelSelect currentModel_fallback at_index_0_hd currentModel_unique)

theorem trigger_shows_current_label_witness:
  "shown_label (ModelSelect example_models \<lparr>value_p = ''zzz'', onChange = 0\<rparr> initial_hooks)
     = Some ''Alpha''
   \<and> shown_label (ModelSelect example_models \<lparr>value_p = ''b'', onChange = 0\<rparr> initial_hooks)
     = Some ''Beta''"
  using trigger_shows_current_label [of example_models "\<lparr>value_p = ''zzz'', onChange = 0\<rparr>"
      initial_hooks]
    trigger_shows_current_label [of example_models "\<lparr>value_p = ''b'', onChange = 0\<rparr>"
      initial_hooks]
  by (simp add: example_models_def)


section \<open>The rows of the overlay\<close>

lemma overlay_rows_view [simp]:
  "overlay_rows (view reg v b toggle_c select_c lbl) =
     (if b then map (option_row v select_c) reg else [])"
  by (simp add: overlay_rows_def)

lemma row_label_option_row [simp]: "row_label (option_row v select_c m) = Some (label m)"
  by (simp add: row_label_def text_at_def option_row_def node_at_child)

lemma row_marked_option_row [simp]: "row_marked (option_row v select_c m) \<longleftrightarrow> model_id m = v"
  by (simp add: row_marked_def option_row_def node_at_child at_index_def)

lemma row_key_option_row [simp]: "row_key (option_row v select_c m) = Some (model_id m)"
  by (simp add: row_key_def option_row_def)

lemma ModelSelect_tree:
  assumes "ModelSelect reg p hk = Inr (hk', t)"
  obtains toggle_c select_c lbl where
    "t = view reg (value_p p) (isOpen hk) toggle_c select_c lbl"
proof (cases "currentModel reg (value_p p)")
  case None
  with assms show ?thesis by (simp add: ModelSelect_None)
next
  case (Some m)
  with assms that show ?thesis by (auto simp: ModelSelect_Some)
qed

text \<open>
  Property C35 (specification 4.1). While the flag holds, the overlay of the rendered
  tree has one row per entry of the registry, in registry order, each showing the
  label of its entry and keyed by its id; while the flag does not hold, the tree has
  no overlay.
\<close>

theorem overlay_lists_registry:
  assumes "ModelSelect reg p hk = Inr (hk', t)"
  shows "map row_label (overlay_rows t) = (if isOpen hk then map (Some \<circ> label) reg else [])
     \<and> map row_key (overlay_rows t) = (if isOpen hk then map (Some \<circ> model_id) reg else [])
     \<and> (node_at t [1] \<noteq> None \<longleftrightarrow> isOpen hk)"
  using assms by (rule ModelSelect_tree) simp

theorem overlay_lists_registry_witness:
  "\<exists>hk' t. ModelSelect example_models \<lparr>value_p = ''b'', onChange = 0\<rparr>
        (initial_hooks\<lparr>isOpen := True\<rparr>) = Inr (hk', t)
     \<and> map row_label (overlay_rows t) = [Some ''Alpha'', Some ''Beta'']
     \<and> map row_key (overlay_rows t) = [Some ''a'', Some ''b'']"
proof -
  obtain hk' t where r: "ModelSelect example_models \<lparr>value_p = ''b'', onChange = 0\<rparr>
      (initial_hooks\<lparr>isOpen := True\<rparr>) = Inr (hk', t)"
    using ModelSelect_ok_iff [of example_models "\<lparr>value_p = ''b'', onChange = 0\<rparr>"
        "initial_hooks\<lparr>isOpen := True\<rparr>"]
    by (auto simp: is_ok_iff)
  from overlay_lists_registry [OF r] r show ?thesis
    by (simp add: example_models_def)
qed

text \<open>
  Property C36 (specification 4.1). A row of the overlay carries the check mark
  exactly when the id of its entry is the \<open>value\<close> prop. When no entry has that id
  no row is marked, although the trigger shows the label of the first entry.
\<close>

theorem marked_rows_are_selected:
  assumes "ModelSelect reg p hk = Inr (hk', t)" and "isOpen hk" and "i < length reg"
  shows "row_marked (overlay_rows t ! i) \<longleftrightarrow> model_id (reg ! i) = value_p p"
  using assms(1) by (rule ModelSelect_tree) (use assms(2,3) in simp)

theorem marked_rows_are_selected_witness:
  "\<exists>hk' t. ModelSelect example_models \<lparr>value_p = ''b'', onChange = 0\<rparr>
        (initial_hooks\<lparr>isOpen := True\<rparr>) = Inr (hk', t)
     \<and> \<not> row_marked (overlay_rows t ! 0) \<and> row_marked (overlay_rows t ! 1)"
proof -
  obtain hk' t where r: "ModelSelect example_models \<lparr>value_p = ''b'', onChange = 0\<rparr>
      (initial_hooks\<lparr>isOpen := True\<rparr>) = Inr (hk', t)"
    using ModelSelect_ok_iff [of example_models "\<lparr>value_p = ''b'', onChange = 0\<rparr>"
        "initial_hooks\<lparr>isOpen := True\<rparr>"]
    by (auto simp: is_ok_iff)
  from marked_rows_are_selected [OF r, of 0] marked_rows_are_selected [OF r, of 1] r
  show ?thesis by (simp add: example_models_def)
qed

text \<open>
  Property C13 (specification 3). The handlers in the rendered tree are never stale.
  After a first render, whatever the flag and the props have become, the next render
  returns the tree whose trigger handler captures the current flag and whose option
  handlers capture the current callback: the dependency lists of the two
  \<open>useCallback\<close> calls name everything their closures read.
\<close>

theorem handlers_capture_current:
  assumes "ModelSelect reg p0 initial_hooks = Inr (hk1, t1)"
  shows "\<exists>hk2. ModelSelect reg p (hk1\<lparr>isOpen := b\<rparr>) = Inr (hk2, tree_of reg p b)
     \<and> click_handlers (tree_of reg p b) [0] = [HandleToggle b]
     \<and> (b \<longrightarrow> (\<forall>i < length reg. click_handlers (tree_of reg p b) [Suc 0, i]
            = [HandleSelect (onChange p) (model_id (reg ! i))]))"
proof -
  from assms have reg: "reg \<noteq> []"
    using ModelSelect_ok_iff [of reg p0 initial_hooks] by (simp add: is_ok_iff)
  with assms have hk1: "hk1 = initial_hooks\<lparr>handleToggle_memo := Some (False, False),
      handleSelect_memo := Some (onChange p0, onChange p0)\<rparr>"
    by (simp add: ModelSelect_fresh initial_hooks_def)
  have "ModelSelect reg p (hk1\<lparr>isOpen := b\<rparr>) =
      Inr (hk1\<lparr>isOpen := b, handleToggle_memo := Some (b, b),
             handleSelect_memo := Some (onChange p, onChange p)\<rparr>, tree_of reg p b)"
    using ModelSelect_fresh [OF reg, of "hk1\<lparr>isOpen := b\<rparr>" p]
    by (simp add: hk1)
  then show ?thesis
    by (simp add: tree_of_def click_handlers_view_trigger click_handlers_view_row
        trigger_button_def option_row_def)
qed

theorem handlers_capture_current_witness:
  "\<exists>hk1 t1 hk2. ModelSelect example_models \<lparr>value_p = ''b'', onChange = 7\<rparr> initial_hooks
        = Inr (hk1, t1)
     \<and> ModelSelect example_models \<lparr>value_p = ''b'', onChange = 9\<rparr> (hk1\<lparr>isOpen := True\<rparr>)
        = Inr (hk2, tree_of example_models \<lparr>value_p = ''b'', onChange = 9\<rparr> True)
     \<and> click_handlers (tree_of example_models \<lparr>value_p = ''b'', onChange = 9\<rparr> True) [Suc 0, 0]
        = [HandleSelect 9 ''a'']"
proof -
  obtain hk1 t1 where r: "ModelSelect example_models \<lparr>value_p = ''b'', onChange = 7\<rparr>
      initial_hooks = Inr (hk1, t1)"
    using ModelSelect_ok_iff [of example_models "\<lparr>value_p = ''b'', onChange = 7\<rparr>" initial_hooks]
    by (auto simp: is_ok_iff)
  from handlers_capture_current [OF r, of "\<lparr>value_p = ''b'', onChange = 9\<rparr>" True] r
  show ?thesis by (auto simp: example_models_def)
qed

text \<open>
  Property C37 (specification 4.1, transition 1). On every path from a node of the
  rendered tree to its root there is at most one click handler: the trigger and the
  rows are the only elements that carry one, and neither is inside the other. So when
  a handler runs there is no handler of the component left for the event to
  reach.
\<close>

theorem one_handler_per_click:
  assumes "node_at (tree_of reg p b) q \<noteq> None"
  shows "length (click_handlers (tree_of reg p b) q) \<le> 1"
  using assms unfolding tree_of_def
  by (simp add: click_handlers_view split: region.splits)

theorem one_handler_per_click_witness:
  "node_at (tree_of example_models \<lparr>value_p = ''b'', onChange = 7\<rparr> True) [Suc 0, 0, 1] \<noteq> None
   \<and> length (click_handlers (tree_of example_models \<lparr>value_p = ''b'', onChange = 7\<rparr> True)
        [Suc 0, 0, 1]) \<le> 1"
  using one_handler_per_click [of example_models "\<lparr>value_p = ''b'', onChange = 7\<rparr>" True
      "[Suc 0, 0, 1]"]
  by (simp add: tree_of_def example_models_def option_row_def node_at_child)

section \<open>Acquire and release\<close>

lemma clear_after_set:
  "host_ok h \<Longrightarrow> timers (clearTimeout (next_timer h) (snd (setTimeout c h))) = timers h"
  by (auto simp: setTimeout_def clearTimeout_def host_ok_def list_all_iff filter_id_conv)

text \<open>
  Property C12 (specification 5, 9). The cleanup undoes the effect, before and after
  the timer has fired: on a well-formed document that does not hold the listener,
  running the effect and then its cleanup, with or without the timer callback in
  between, gives back the listeners and the timers the document had.
\<close>

theorem cleanup_undoes_effect:
  assumes "host_ok h" and "HandleClickOutside k \<notin> set (listeners h)"
    and "effect True k h = (Some c, h1)"
  shows "listeners (cleanup c h1) = listeners h \<and> timers (cleanup c h1) = timers h
     \<and> listeners (cleanup c (timer_callback k (clearTimeout (fst c) h1))) = listeners h
     \<and> timers (cleanup c (timer_callback k (clearTimeout (fst c) h1))) = timers h"
proof -
  from assms(3) have c: "c = (next_timer h, k)"
    and h1: "h1 = snd (setTimeout (AddMousedownListener k) h)"
    by simp_all
  from clear_after_set [OF assms(1), of "AddMousedownListener k"]
  have "filter (\<lambda>(i, cb). i \<noteq> next_timer h) (timers h1) = timers h"
    by (simp add: h1 clearTimeout_def)
  with assms(2) show ?thesis
    by (simp add: c h1 clearTimeout_def setTimeout_def)
qed

theorem cleanup_undoes_effect_witness:
  "\<exists>c h1. effect True 0 (empty_host :: document) = (Some c, h1)
     \<and> listeners (cleanup c h1) = [] \<and> timers (cleanup c h1) = []
     \<and> listeners (cleanup c (timer_callback 0 (clearTimeout (fst c) h1))) = []
     \<and> timers (cleanup c (timer_callback 0 (clearTimeout (fst c) h1))) = []"
proof -
  have e: "effect True 0 (empty_host :: document) =
      (Some (0, 0), snd (setTimeout (AddMousedownListener 0) empty_host))"
    by (simp add: empty_host_def)
  from cleanup_undoes_effect [OF _ _ e] show ?thesis
    by (simp add: empty_host_def host_ok_def)
qed

section \<open>Rendered trees are well formed\<close>

lemma claude_icon_wf [simp]: "keys_ok (claude_icon n)" "refs_in (claude_icon n) = []"
  "key_of (claude_icon n) = None"
  by (simp_all add: claude_icon_def)

lemma trigger_button_wf [simp]:
  "keys_ok (trigger_button b toggle_c lbl)"
  "refs_in (trigger_button b toggle_c lbl) = [ButtonRef]"
  "key_of (trigger_button b toggle_c lbl) = None"
  by (simp_all add: trigger_button_def)

lemma option_row_wf [simp]:
  "keys_ok (option_row v select_c m)"
  "refs_in (option_row v select_c m) = []"
  "key_of (option_row v select_c m) = Some (model_id m)"
  by (simp_all add: option_row_def)

lemma dropdown_wf [simp]:
  "keys_ok (dropdown reg v select_c) \<longleftrightarrow> ids_unique reg"
  "refs_in (dropdown reg v select_c) = [DropdownRef]"
  "key_of (dropdown reg v select_c) = None"
proof -
  have "List.map_filter key_of (map (option_row v select_c) reg) = map model_id reg"
    by (induction reg) simp_all
  then show "keys_ok (dropdown reg v select_c) \<longleftrightarrow> ids_unique reg"
    by (simp add: dropdown_def ids_unique_def list_all_iff)
  show "refs_in (dropdown reg v select_c) = [DropdownRef]"
    by (simp add: dropdown_def no_refs_concat)
  show "key_of (dropdown reg v select_c) = None"
    by (simp add: dropdown_def)
qed

lemma well_formed_view:
  "well_formed (view reg v b toggle_c select_c lbl) \<longleftrightarrow> (b \<longrightarrow> ids_unique reg)"
  by (simp add: well_formed_def view_def)

text \<open>
  Property C25 (specification 3, uniqueness of ids). The tree a render returns is well
  formed, with no key repeated among siblings and each ref attached to one element,
  exactly when the overlay is not rendered or the ids of the registry are unique: the
  rows are keyed by the ids, and nothing in the component checks them.
\<close>

theorem render_well_formed:
  assumes "ModelSelect reg p hk = Inr (hk', t)"
  shows "well_formed t \<longleftrightarrow> (isOpen hk \<longrightarrow> ids_unique reg)"
  using assms by (rule ModelSelect_tree) (simp add: well_formed_view)

theorem render_well_formed_witness:
  "\<exists>hk' t. ModelSelect example_models \<lparr>value_p = ''b'', onChange = 7\<rparr>
        (initial_hooks\<lparr>isOpen := True\<rparr>) = Inr (hk', t)
     \<and> well_formed t"
proof -
  obtain hk' t where r: "ModelSelect example_models \<lparr>value_p = ''b'', onChange = 7\<rparr>
      (initial_hooks\<lparr>isOpen := True\<rparr>) = Inr (hk', t)"
    using ModelSelect_ok_iff [of example_models "\<lparr>value_p = ''b'', onChange = 7\<rparr>"
        "initial_hooks\<lparr>isOpen := True\<rparr>"]
    by (auto simp: is_ok_iff)
  from render_well_formed [OF r] r show ?thesis by simp
qed

end
