(* ===== verification/Selector_Spec.thy ===== *)
theory Selector_Spec
  imports Prelude
begin

text \<open>
  The contract of the selector as the specification states it (section 4.1): a state
  machine over the gestures of the user, with the ids announced to the owner as its
  output. It knows nothing of trees, hooks, listeners or timers.

  \<^item> \<open>phase\<close>: \<open>Closed\<close>; open with the outside-press detector not yet live
    (\<open>Arming\<close>, the rest of the event-loop turn that opened the overlay); open with
    the detector live (\<open>Live\<close>); destroyed (\<open>Gone\<close>). The two states of the
    specification are \<open>Closed\<close> and \<open>is_open\<close>.
  \<^item> \<open>gesture\<close>: the trigger activated, an option activated (with its id), a
    pointer press outside trigger and overlay, the start of the next turn of the event
    loop, the destruction of the widget, and anything else.
  \<^item> \<open>next_stage\<close> and \<open>announced\<close> are the transition and the output function;
    \<open>astep\<close> puts them together over \<open>selector\<close>, the phase and the ids announced
    so far; \<open>arun\<close> is a sequence of gestures.

  The lemmas are the facts of the contract that do not depend on the implementation:
  what closes, what opens, that only an activated option announces, and that
  destruction is final.
\<close>

section \<open>The state machine\<close>

datatype phase = Closed | Arming | Live | Gone

datatype gesture =
    TriggerActivated
  | OptionActivated string
  | PressOutside
  | NextTurn
  | Destroyed
  | Nothing

record selector =
  stage :: phase
  told :: "string list"

definition is_open :: "phase \<Rightarrow> bool" where
  "is_open ph \<longleftrightarrow> ph = Arming \<or> ph = Live"

definition initial_selector :: selector where
  "initial_selector = \<lparr>stage = Closed, told = []\<rparr>"

fun next_stage :: "phase \<Rightarrow> gesture \<Rightarrow> phase" where
  "next_stage Gone g = Gone"
| "next_stage ph Destroyed = Gone"
| "next_stage Closed TriggerActivated = Arming"
| "next_stage Arming TriggerActivated = Closed"
| "next_stage Live TriggerActivated = Closed"
| "next_stage Arming (OptionActivated i) = Closed"
| "next_stage Live (OptionActivated i) = Closed"
| "next_stage Live PressOutside = Closed"
| "next_stage Arming NextTurn = Live"
| "next_stage ph g = ph"

fun announced :: "phase \<Rightarrow> gesture \<Rightarrow> string list" where
  "announced ph (OptionActivated i) = (if is_open ph then [i] else [])"
| "announced ph g = []"

definition astep :: "selector \<Rightarrow> gesture \<Rightarrow> selector" where
  "astep a g = \<lparr>stage = next_stage (stage a) g, told = told a @ announced (stage a) g\<rparr>"

definition arun :: "selector \<Rightarrow> gesture list \<Rightarrow> selector" where
  "arun a gs = foldl astep a gs"

section \<open>Facts of the contract\<close>

lemma is_open_simps [simp]:
  "is_open Arming" "is_open Live" "\<not> is_open Closed" "\<not> is_open Gone"
  by (simp_all add: is_open_def)

lemma astep_fields [simp]:
  "stage (astep a g) = next_stage (stage a) g"
  "told (astep a g) = told a @ announced (stage a) g"
  by (simp_all add: astep_def)

lemma arun_simps [simp]:
  "arun a [] = a"
  "arun a (g # gs) = arun (astep a g) gs"
  by (simp_all add: arun_def)

lemma arun_append: "arun a (gs @ hs) = arun (arun a gs) hs"
  by (simp add: arun_def)

lemma next_stage_Nothing [simp]: "next_stage ph Nothing = ph"
  by (cases ph) simp_all

lemma next_stage_Destroyed [simp]: "next_stage ph Destroyed = Gone"
  by (cases ph) simp_all

lemma astep_Nothing [simp]: "astep a Nothing = a"
  by (simp add: astep_def)

lemma next_stage_open_iff:
  "is_open (next_stage ph g) \<longleftrightarrow>
     (ph = Closed \<and> g = TriggerActivated)
     \<or> (is_open ph \<and> g \<noteq> TriggerActivated \<and> g \<noteq> Destroyed \<and> (\<forall>i. g \<noteq> OptionActivated i)
          \<and> (g = PressOutside \<longrightarrow> ph = Arming))"
  by (cases ph; cases g) simp_all

lemma announced_length: "length (announced ph g) \<le> 1"
  by (cases g) simp_all

lemma announced_closes: "announced ph g \<noteq> [] \<Longrightarrow> next_stage ph g = Closed"
  by (cases ph; cases g) simp_all

lemma announced_not_open [simp]: "\<not> is_open ph \<Longrightarrow> announced ph g = []"
  by (cases g) simp_all

lemma astep_Gone: "stage a = Gone \<Longrightarrow> astep a g = a"
  by (simp add: astep_def)

lemma gone_arun: "stage a = Gone \<Longrightarrow> arun a gs = a"
  by (induction gs arbitrary: a) (simp_all add: astep_Gone)

lemma told_arun_prefix: "prefix (told a) (told (arun a gs))"
proof (induction gs arbitrary: a)
  case Nil
  show ?case by simp
next
  case (Cons g gs)
  have "prefix (told a) (told (astep a g))" by simp
  also have "prefix (told (astep a g)) (told (arun (astep a g) gs))" by (rule Cons.IH)
  finally show ?case by simp
qed

end
