(* ===== verification/Runtime.thy ===== *)
theory Runtime
  imports ModelSelect Selector_Spec
begin

text \<open>
  The component at run time: one mounted instance of \<open>ModelSelect\<close>, the document it
  listens on, and the events that reach it.

  \<^item> \<open>sys\<close>: the current props, the hook cells, the committed element tree (\<open>None\<close>
    before the mount and after the unmount), the document, and the log of the calls
    made to the owner's callback, oldest first.
  \<^item> \<open>render\<close> calls the component function and commits the result: the tree
    replaces the mounted one, the refs are attached (\<open>attach_refs\<close>), and the effect
    runs if its dependency changed, after the cleanup of its previous run
    (\<open>flush_effect\<close>). Effects are flushed with the commit, as the rendering library
    does for updates that come from discrete input events.
  \<^item> \<open>on_click\<close> gives a click to the \<open>onClick\<close> closures from its target up to
    the root until one stops the propagation (\<open>bubble\<close>); \<open>on_mousedown\<close> gives a
    mousedown to every listener on the document (\<open>run_listener\<close>); both return the
    actions of the closures that ran. \<open>update\<close> applies them: callback calls are
    logged, the last \<open>SetIsOpen\<close> wins, and the component renders again only if the
    flag changed.
  \<^item> \<open>step\<close> is one event: a click or a mousedown on a node of the mounted tree or
    elsewhere in the document, a pending timer firing, the owner rendering with new
    props, the owner unmounting the component. \<open>run\<close> is a sequence of events;
    \<open>reachable\<close> the states that a mount on a well-formed document followed by any
    events leads to.
  \<^item> \<open>own_listeners\<close>, \<open>own_timers\<close>: the closures of this component among the
    listeners and timers of the document; \<open>other_listeners\<close>, \<open>other_timers\<close>:
    the rest.
  \<^item> \<open>open_panel\<close>, \<open>close_panel\<close>, \<open>arm_detector\<close>: the state after the
    overlay opened, closed, and after its timer fired, written out field by field.
    The lemmas show that \<open>step\<close> computes them; the properties follow from the
    equations.
  \<^item> \<open>phase_of\<close>: the phase of the contract of \<open>Selector_Spec\<close> a state is in:
    unmounted, closed, open with the timer pending, open with the listener registered.
  \<^item> \<open>demo_closed\<close>, \<open>demo_arming\<close>, \<open>demo_live\<close>, \<open>demo_chosen\<close>, \<open>demo_gone\<close>:
    the states of the scenario of the specification (registry Alpha, Beta; \<open>b\<close>
    selected; empty document), used to instantiate the statements.
  \<^item> \<open>inv\<close>: the invariant of the reachable states. The mounted tree is the
    render of the current props and flag with fresh closures; the refs point at the
    button and at the overlay if there is one; and the document holds exactly one
    closure of the component while the overlay is open (its timer before it fires,
    its listener after) and none while it is closed; and no timer of the rest of
    the page carries the id of the component's timer (\<open>timer_owned\<close>), so that the
    cleanup cancels nothing but its own.
\<close>

section \<open>State and events\<close>

record sys =
  props :: ModelSelectProps
  cells :: hooks
  dom :: "tree option"
  doc :: document
  calls :: "(callback \<times> string) list"

datatype event =
    Click target
  | MouseDown target
  | TimerFire nat
  | SetProps ModelSelectProps
  | Unmount

section \<open>Render and commit\<close>

definition attach_refs :: "tree \<Rightarrow> hooks \<Rightarrow> hooks" where
  [rt_defs]: "attach_refs t hk =
     hk\<lparr>buttonRef := find_ref ButtonRef t, dropdownRef := find_ref DropdownRef t\<rparr>"

definition flush_effect :: "hooks \<Rightarrow> document \<Rightarrow> hooks \<times> document" where
  [rt_defs]: "flush_effect hk h =
     (if effect_due (isOpen hk) (outside_effect hk) then
        let h1 = (case last_cleanup (outside_effect hk) of
                    None \<Rightarrow> h | Some c \<Rightarrow> cleanup c h);
            r = effect (isOpen hk) (closures hk) h1
        in (hk\<lparr>outside_effect := Some (isOpen hk, fst r),
                closures := (case fst r of None \<Rightarrow> closures hk | Some c \<Rightarrow> Suc (closures hk))\<rparr>,
            snd r)
      else (hk, h))"

definition commit :: "sys \<Rightarrow> hooks \<times> tree \<Rightarrow> sys" where
  [rt_defs]: "commit s r =
     (let f = flush_effect (attach_refs (snd r) (fst r)) (doc s)
      in s\<lparr>cells := fst f, dom := Some (snd r), doc := snd f\<rparr>)"

definition render :: "registry \<Rightarrow> sys \<Rightarrow> sys result" where
  [rt_defs]: "render reg s =
     bind_result (ModelSelect reg (props s) (cells s)) (\<lambda>r. Inr (commit s r))"

definition mount :: "registry \<Rightarrow> ModelSelectProps \<Rightarrow> document \<Rightarrow> sys result" where
  [rt_defs]: "mount reg p h =
     render reg \<lparr>props = p, cells = initial_hooks, dom = None, doc = h, calls = []\<rparr>"

definition unmount :: "sys \<Rightarrow> sys" where
  [rt_defs]: "unmount s =
     (case dom s of
        None \<Rightarrow> s
      | Some t \<Rightarrow>
          s\<lparr>cells := (cells s)\<lparr>buttonRef := None, dropdownRef := None, outside_effect := None\<rparr>,
            dom := None,
            doc := (case last_cleanup (outside_effect (cells s)) of
                      None \<Rightarrow> doc s | Some c \<Rightarrow> cleanup c (doc s))\<rparr>)"

section \<open>Dispatch\<close>

definition target_ok :: "sys \<Rightarrow> target \<Rightarrow> bool" where
  [rt_defs]: "target_ok s tg =
     (case dom s of None \<Rightarrow> tg = Outside | Some t \<Rightarrow> valid_target t tg)"

fun bubble :: "handler list \<Rightarrow> action list" where
  "bubble [] = []"
| "bubble (h # hs) =
     (if StopPropagation \<in> set (run_handler h) then run_handler h
      else run_handler h @ bubble hs)"

fun click_actions :: "tree option \<Rightarrow> target \<Rightarrow> action list" where
  "click_actions (Some t) (Inside p) = bubble (click_handlers t p)"
| "click_actions (Some t) Outside = []"
| "click_actions None tg = []"

definition on_click :: "sys \<Rightarrow> target \<Rightarrow> action list" where
  [rt_defs]: "on_click s tg = click_actions (dom s) tg"

fun run_listener :: "hooks \<Rightarrow> target \<Rightarrow> listener \<Rightarrow> action list" where
  "run_listener hk tg (HandleClickOutside k) = handleClickOutside hk tg"
| "run_listener hk tg (OtherListener n) = []"

definition on_mousedown :: "sys \<Rightarrow> target \<Rightarrow> action list" where
  [rt_defs]: "on_mousedown s tg = concat (map (run_listener (cells s) tg) (listeners (doc s)))"

fun run_timer :: "timer_cb \<Rightarrow> document \<Rightarrow> document" where
  "run_timer (AddMousedownListener k) h = timer_callback k h"
| "run_timer (OtherTimer n) h = h"

fun apply_action :: "action \<Rightarrow> sys \<Rightarrow> sys" where
  "apply_action StopPropagation s = s"
| "apply_action (SetIsOpen b) s =
     (if dom s = None then s else s\<lparr>cells := (cells s)\<lparr>isOpen := b\<rparr>\<rparr>)"
| "apply_action (OnChange cb i) s = s\<lparr>calls := calls s @ [(cb, i)]\<rparr>"

definition apply_actions :: "action list \<Rightarrow> sys \<Rightarrow> sys" where
  [rt_defs]: "apply_actions as s = fold apply_action as s"

definition update :: "registry \<Rightarrow> action list \<Rightarrow> sys \<Rightarrow> sys result" where
  [rt_defs]: "update reg as s =
     (if isOpen (cells (apply_actions as s)) = isOpen (cells s) then Inr (apply_actions as s)
      else render reg (apply_actions as s))"

section \<open>Steps and runs\<close>

fun step :: "registry \<Rightarrow> sys \<Rightarrow> event \<Rightarrow> sys result" where
  "step reg s (Click tg) =
     (if target_ok s tg then update reg (on_click s tg) s else Inr s)"
| "step reg s (MouseDown tg) =
     (if target_ok s tg then update reg (on_mousedown s tg) s else Inr s)"
| "step reg s (TimerFire t) =
     (case fire_timer t (doc s) of
        None \<Rightarrow> Inr s
      | Some r \<Rightarrow> Inr (s\<lparr>doc := run_timer (fst r) (snd r)\<rparr>))"
| "step reg s (SetProps p) =
     (if dom s = None then Inr s else render reg (s\<lparr>props := p\<rparr>))"
| "step reg s Unmount = Inr (unmount s)"

fun run :: "registry \<Rightarrow> sys \<Rightarrow> event list \<Rightarrow> sys result" where
  "run reg s [] = Inr s"
| "run reg s (e # es) = bind_result (step reg s e) (\<lambda>s'. run reg s' es)"

section \<open>The component's share of the document\<close>

fun own_listener :: "listener \<Rightarrow> nat option" where
  "own_listener (HandleClickOutside k) = Some k"
| "own_listener (OtherListener n) = None"

fun own_timer :: "nat \<times> timer_cb \<Rightarrow> (nat \<times> nat) option" where
  "own_timer (t, AddMousedownListener k) = Some (t, k)"
| "own_timer (t, OtherTimer n) = None"

definition own_listeners :: "document \<Rightarrow> nat list" where
  "own_listeners h = List.map_filter own_listener (listeners h)"

definition own_timers :: "document \<Rightarrow> (nat \<times> nat) list" where
  "own_timers h = List.map_filter own_timer (timers h)"

definition other_listeners :: "document \<Rightarrow> listener list" where
  "other_listeners h = filter (\<lambda>l. own_listener l = None) (listeners h)"

definition other_timers :: "document \<Rightarrow> (nat \<times> timer_cb) list" where
  "other_timers h = filter (\<lambda>x. own_timer x = None) (timers h)"

definition foreign :: "document \<Rightarrow> bool" where
  "foreign h \<longleftrightarrow> own_listeners h = [] \<and> own_timers h = []"

section \<open>Transitions written out\<close>

definition set_open :: "bool \<Rightarrow> sys \<Rightarrow> sys" where
  "set_open b s = s\<lparr>cells := (cells s)\<lparr>isOpen := b\<rparr>\<rparr>"

definition log_calls :: "(callback \<times> string) list \<Rightarrow> sys \<Rightarrow> sys" where
  "log_calls cs s = s\<lparr>calls := calls s @ cs\<rparr>"

fun final_open :: "action list \<Rightarrow> bool \<Rightarrow> bool" where
  "final_open [] b = b"
| "final_open (SetIsOpen b' # as) b = final_open as b'"
| "final_open (StopPropagation # as) b = final_open as b"
| "final_open (OnChange cb i # as) b = final_open as b"

fun new_calls :: "action list \<Rightarrow> (callback \<times> string) list" where
  "new_calls [] = []"
| "new_calls (OnChange cb i # as) = (cb, i) # new_calls as"
| "new_calls (SetIsOpen b # as) = new_calls as"
| "new_calls (StopPropagation # as) = new_calls as"

definition last_detector :: "sys \<Rightarrow> (nat \<times> nat) option" where
  "last_detector s = last_cleanup (outside_effect (cells s))"

definition release :: "sys \<Rightarrow> document" where
  "release s = (case last_detector s of None \<Rightarrow> doc s | Some c \<Rightarrow> cleanup c (doc s))"

definition open_panel :: "registry \<Rightarrow> sys \<Rightarrow> sys" where
  "open_panel reg s =
     s\<lparr>cells := (cells s)\<lparr>isOpen := True, dropdownRef := Some [Suc 0],
            handleToggle_memo := Some (True, True),
            outside_effect := Some (True, Some (next_timer (doc s), closures (cells s))),
            closures := Suc (closures (cells s))\<rparr>,
       dom := Some (tree_of reg (props s) True),
       doc := snd (setTimeout (AddMousedownListener (closures (cells s))) (doc s))\<rparr>"

definition close_panel :: "registry \<Rightarrow> sys \<Rightarrow> sys" where
  "close_panel reg s =
     s\<lparr>cells := (cells s)\<lparr>isOpen := False, dropdownRef := None,
            handleToggle_memo := Some (False, False),
            outside_effect := Some (False, None)\<rparr>,
       dom := Some (tree_of reg (props s) False),
       doc := release s\<rparr>"

definition new_props :: "registry \<Rightarrow> ModelSelectProps \<Rightarrow> sys \<Rightarrow> sys" where
  "new_props reg p s =
     s\<lparr>props := p,
       cells := (cells s)\<lparr>handleSelect_memo := Some (onChange p, onChange p)\<rparr>,
       dom := Some (tree_of reg p (isOpen (cells s)))\<rparr>"

definition arm_detector :: "nat \<Rightarrow> nat \<Rightarrow> sys \<Rightarrow> sys" where
  "arm_detector t k s = s\<lparr>doc := timer_callback k (clearTimeout t (doc s))\<rparr>"

definition drop_timer :: "nat \<Rightarrow> sys \<Rightarrow> sys" where
  "drop_timer t s = s\<lparr>doc := clearTimeout t (doc s)\<rparr>"

definition mounted :: "registry \<Rightarrow> ModelSelectProps \<Rightarrow> document \<Rightarrow> sys" where
  "mounted reg p h =
     \<lparr>props = p,
      cells = \<lparr>isOpen = False, buttonRef = Some [0], dropdownRef = None,
        handleToggle_memo = Some (False, False),
        handleSelect_memo = Some (onChange p, onChange p),
        outside_effect = Some (False, None), closures = 0\<rparr>,
      dom = Some (tree_of reg p False), doc = h, calls = []\<rparr>"

section \<open>Phases and the invariant\<close>

text \<open>The phase of the contract (\<open>Selector_Spec\<close>) that a state is in.\<close>

definition phase_of :: "sys \<Rightarrow> phase" where
  "phase_of s =
     (case dom s of
        None \<Rightarrow> Gone
      | Some t \<Rightarrow>
          if \<not> isOpen (cells s) then Closed
          else if own_listeners (doc s) = [] then Arming else Live)"

definition subscription_ok :: "sys \<Rightarrow> bool" where
  [inv_defs]: "subscription_ok s \<longleftrightarrow>
     (case last_detector s of
        None \<Rightarrow> \<not> isOpen (cells s) \<and> own_timers (doc s) = [] \<and> own_listeners (doc s) = []
      | Some c \<Rightarrow> isOpen (cells s) \<and>
          ((own_timers (doc s) = [c] \<and> own_listeners (doc s) = []) \<or>
           (own_timers (doc s) = [] \<and> own_listeners (doc s) = [snd c])))"

definition timer_owned :: "sys \<Rightarrow> bool" where
  [inv_defs]: "timer_owned s \<longleftrightarrow>
     (case last_detector s of
        None \<Rightarrow> True
      | Some c \<Rightarrow>
          list_all (\<lambda>x. fst x \<noteq> fst c \<or> snd x = AddMousedownListener (snd c))
            (timers (doc s)))"

definition cells_ok :: "ModelSelectProps \<Rightarrow> hooks \<Rightarrow> bool" where
  [inv_defs]: "cells_ok p hk \<longleftrightarrow>
     buttonRef hk = Some [0]
     \<and> dropdownRef hk = (if isOpen hk then Some [Suc 0] else None)
     \<and> handleToggle_memo hk = Some (isOpen hk, isOpen hk)
     \<and> handleSelect_memo hk = Some (onChange p, onChange p)
     \<and> map_option fst (outside_effect hk) = Some (isOpen hk)"

definition inv :: "registry \<Rightarrow> sys \<Rightarrow> bool" where
  [inv_defs]: "inv reg s \<longleftrightarrow>
     host_ok (doc s) \<and> timer_owned s \<and>
     (case dom s of
        None \<Rightarrow> foreign (doc s)
      | Some t \<Rightarrow>
          reg \<noteq> [] \<and> t = tree_of reg (props s) (isOpen (cells s))
          \<and> cells_ok (props s) (cells s) \<and> subscription_ok s)"

inductive reachable :: "registry \<Rightarrow> sys \<Rightarrow> bool" for reg :: registry where
  reach_mount: "host_ok h \<Longrightarrow> foreign h \<Longrightarrow> mount reg p h = Inr s \<Longrightarrow> reachable reg s"
| reach_step: "reachable reg s \<Longrightarrow> step reg s e = Inr s' \<Longrightarrow> reachable reg s'"

section \<open>Observations and example states\<close>

definition subscriptions :: "sys \<Rightarrow> nat" where
  "subscriptions s = length (own_timers (doc s)) + length (own_listeners (doc s))"

definition overlay_open :: "sys \<Rightarrow> bool" where
  "overlay_open s \<longleftrightarrow> dom s \<noteq> None \<and> isOpen (cells s)"

definition demo_props :: ModelSelectProps where
  "demo_props = \<lparr>value_p = ''b'', onChange = 7\<rparr>"

definition demo_closed :: sys where
  "demo_closed = mounted example_models demo_props empty_host"

definition demo_arming :: sys where
  "demo_arming = open_panel example_models demo_closed"

definition demo_live :: sys where
  "demo_live = arm_detector 0 0 demo_arming"

definition demo_chosen :: sys where
  "demo_chosen = close_panel example_models (log_calls [(7, ''a'')] demo_live)"

definition demo_gone :: sys where
  "demo_gone = unmount demo_live"

section \<open>The component's share under the document operations\<close>

lemma own_listener_eq_Some_iff [simp]: "own_listener l = Some k \<longleftrightarrow> l = HandleClickOutside k"
  by (cases l) auto

lemma own_timer_eq_Some_iff [simp]:
  "own_timer x = Some y \<longleftrightarrow> x = (fst y, AddMousedownListener (snd y))"
  by (cases x rule: own_timer.cases) auto

lemma own_timers_member: "(t, k) \<in> set (own_timers h) \<longleftrightarrow> (t, AddMousedownListener k) \<in> set (timers h)"
  by (simp add: own_timers_def set_map_filter)

lemma own_listeners_member: "k \<in> set (own_listeners h) \<longleftrightarrow> HandleClickOutside k \<in> set (listeners h)"
  by (simp add: own_listeners_def set_map_filter)

lemma own_listeners_removeAll:
  "List.map_filter own_listener (removeAll (HandleClickOutside k) ls)
     = removeAll k (List.map_filter own_listener ls)"
  by (rule map_filter_removeAll) simp_all

lemma own_listeners_simps [simp]:
  "own_listeners (snd (setTimeout c h)) = own_listeners h"
  "own_listeners (clearTimeout t h) = own_listeners h"
  "own_listeners (addEventListener (HandleClickOutside k) h) =
     (if k \<in> set (own_listeners h) then own_listeners h else own_listeners h @ [k])"
  "own_listeners (removeEventListener (HandleClickOutside k) h) = removeAll k (own_listeners h)"
  "own_listeners empty_host = []"
  by (simp_all add: own_listeners_def map_filter_append own_listeners_removeAll set_map_filter)

lemma own_timers_simps [simp]:
  "own_timers (snd (setTimeout (AddMousedownListener k) h)) = own_timers h @ [(next_timer h, k)]"
  "own_timers (snd (setTimeout (OtherTimer n) h)) = own_timers h"
  "own_timers (clearTimeout t h) = filter (\<lambda>(i, k). i \<noteq> t) (own_timers h)"
  "own_timers (addEventListener l h) = own_timers h"
  "own_timers (removeEventListener l h) = own_timers h"
  "own_timers empty_host = []"
proof -
  have "List.map_filter own_timer (filter (\<lambda>(i, c). i \<noteq> t) xs)
      = filter (\<lambda>(i, k). i \<noteq> t) (List.map_filter own_timer xs)" for xs
    by (rule map_filter_filter) auto
  then show "own_timers (clearTimeout t h) = filter (\<lambda>(i, k). i \<noteq> t) (own_timers h)"
    by (simp add: own_timers_def)
qed (simp_all add: own_timers_def map_filter_append)

lemma other_listeners_simps [simp]:
  "other_listeners (snd (setTimeout c h)) = other_listeners h"
  "other_listeners (clearTimeout t h) = other_listeners h"
  "other_listeners (addEventListener (HandleClickOutside k) h) = other_listeners h"
  "other_listeners (removeEventListener (HandleClickOutside k) h) = other_listeners h"
  by (simp_all add: other_listeners_def filter_none_removeAll)

lemma other_timers_simps [simp]:
  "other_timers (snd (setTimeout (AddMousedownListener k) h)) = other_timers h"
  "other_timers (addEventListener l h) = other_timers h"
  "other_timers (removeEventListener l h) = other_timers h"
  by (simp_all add: other_timers_def)

lemma own_cleanup [simp]:
  "own_listeners (cleanup c h) = removeAll (snd c) (own_listeners h)"
  "own_timers (cleanup c h) = filter (\<lambda>(i, k). i \<noteq> fst c) (own_timers h)"
  "other_listeners (cleanup c h) = other_listeners h"
  by (simp_all add: cleanup_def)

lemma own_timer_callback [simp]:
  "own_listeners (timer_callback k h) =
     (if k \<in> set (own_listeners h) then own_listeners h else own_listeners h @ [k])"
  "own_timers (timer_callback k h) = own_timers h"
  "other_listeners (timer_callback k h) = other_listeners h"
  "other_timers (timer_callback k h) = other_timers h"
  by (simp_all add: timer_callback_def)

lemma foreign_empty [simp]: "foreign empty_host"
  by (simp add: foreign_def)

section \<open>The effect at a commit\<close>

lemma flush_effect_first:
  "outside_effect hk = None \<Longrightarrow> \<not> isOpen hk \<Longrightarrow>
     flush_effect hk h = (hk\<lparr>outside_effect := Some (False, None)\<rparr>, h)"
  by (simp add: flush_effect_def)

lemma flush_effect_same:
  "map_option fst (outside_effect hk) = Some (isOpen hk) \<Longrightarrow> flush_effect hk h = (hk, h)"
  by (auto simp: flush_effect_def)

lemma flush_effect_open:
  "outside_effect hk = Some (False, None) \<Longrightarrow> isOpen hk \<Longrightarrow>
     flush_effect hk h =
       (hk\<lparr>outside_effect := Some (True, Some (next_timer h, closures hk)),
            closures := Suc (closures hk)\<rparr>,
        snd (setTimeout (AddMousedownListener (closures hk)) h))"
  by (simp add: flush_effect_def)

lemma flush_effect_close:
  "outside_effect hk = Some (True, c) \<Longrightarrow> \<not> isOpen hk \<Longrightarrow>
     flush_effect hk h =
       (hk\<lparr>outside_effect := Some (False, None)\<rparr>,
        case c of None \<Rightarrow> h | Some c \<Rightarrow> cleanup c h)"
  by (simp add: flush_effect_def)

section \<open>Mount and render in a committed state\<close>

lemma mount_eq: "reg \<noteq> [] \<Longrightarrow> mount reg p h = Inr (mounted reg p h)"
  by (simp add: mount_def render_def ModelSelect_fresh initial_hooks_def commit_def
      attach_refs_def flush_effect_first mounted_def)

lemma mount_empty: "mount [] p h = Inl (TypeError ''label'')"
  by (simp add: mount_def render_def ModelSelect_None currentModel_None_iff)

lemma inv_closedD:
  assumes "inv reg s" and "dom s \<noteq> None" and "\<not> isOpen (cells s)"
  shows "outside_effect (cells s) = Some (False, None)"
    and "own_timers (doc s) = []" and "own_listeners (doc s) = []"
  using assms
  by (auto simp: inv_def cells_ok_def subscription_ok_def last_detector_def last_cleanup_def
      split: option.splits)

lemma inv_openD:
  assumes "inv reg s" and "dom s \<noteq> None" and "isOpen (cells s)"
  shows "\<exists>c. outside_effect (cells s) = Some (True, Some c) \<and>
     ((own_timers (doc s) = [c] \<and> own_listeners (doc s) = []) \<or>
      (own_timers (doc s) = [] \<and> own_listeners (doc s) = [snd c]))"
  using assms
  by (auto simp: inv_def cells_ok_def subscription_ok_def last_detector_def last_cleanup_def
      split: option.splits)

lemma inv_mountedD:
  assumes "inv reg s" and "dom s \<noteq> None"
  shows "reg \<noteq> []" and "dom s = Some (tree_of reg (props s) (isOpen (cells s)))"
    and "cells_ok (props s) (cells s)" and "host_ok (doc s)"
  using assms by (auto simp: inv_def)

lemma render_set_open_True:
  assumes "inv reg s" and "dom s \<noteq> None" and "\<not> isOpen (cells s)"
  shows "render reg (set_open True s) = Inr (open_panel reg s)"
proof -
  note c = inv_mountedD [OF assms(1,2)] inv_closedD [OF assms]
  from c(3) have "ModelSelect reg (props s) ((cells s)\<lparr>isOpen := True\<rparr>) =
      Inr ((cells s)\<lparr>isOpen := True, handleToggle_memo := Some (True, True)\<rparr>,
           tree_of reg (props s) True)"
    by (simp add: ModelSelect_fresh [OF c(1)] cells_ok_def)
  with c show ?thesis
    by (cases s, cases "cells s")
       (simp add: render_def set_open_def commit_def attach_refs_def flush_effect_open
          open_panel_def cells_ok_def)
qed

lemma render_set_open_False:
  assumes "inv reg s" and "dom s \<noteq> None" and "isOpen (cells s)"
  shows "render reg (set_open False s) = Inr (close_panel reg s)"
proof -
  note c = inv_mountedD [OF assms(1,2)]
  from inv_openD [OF assms] obtain d where d: "outside_effect (cells s) = Some (True, Some d)"
    by blast
  from c(3) have "ModelSelect reg (props s) ((cells s)\<lparr>isOpen := False\<rparr>) =
      Inr ((cells s)\<lparr>isOpen := False, handleToggle_memo := Some (False, False)\<rparr>,
           tree_of reg (props s) False)"
    by (simp add: ModelSelect_fresh [OF c(1)] cells_ok_def)
  with c d show ?thesis
    by (cases s, cases "cells s")
       (simp add: render_def set_open_def commit_def attach_refs_def flush_effect_close
          close_panel_def cells_ok_def release_def last_detector_def)
qed

lemma render_new_props:
  assumes "inv reg s" and "dom s \<noteq> None"
  shows "render reg (s\<lparr>props := p\<rparr>) = Inr (new_props reg p s)"
proof -
  note c = inv_mountedD [OF assms(1,2)]
  from c(3) have "ModelSelect reg p (cells s) =
      Inr ((cells s)\<lparr>handleSelect_memo := Some (onChange p, onChange p)\<rparr>,
           tree_of reg p (isOpen (cells s)))"
    by (cases "cells s") (simp add: ModelSelect_fresh [OF c(1)] cells_ok_def)
  with c show ?thesis
    by (cases s, cases "cells s")
       (auto simp: render_def commit_def attach_refs_def flush_effect_same
          new_props_def cells_ok_def)
qed

section \<open>Actions\<close>

lemma set_open_same [simp]: "set_open (isOpen (cells s)) s = s"
  by (simp add: set_open_def)

lemma log_calls_Nil [simp]: "log_calls [] s = s"
  by (simp add: log_calls_def)

lemma log_calls_fields [simp]:
  "props (log_calls cs s) = props s" "cells (log_calls cs s) = cells s"
  "dom (log_calls cs s) = dom s" "doc (log_calls cs s) = doc s"
  "calls (log_calls cs s) = calls s @ cs"
  by (simp_all add: log_calls_def)

lemma set_open_fields [simp]:
  "props (set_open b s) = props s" "isOpen (cells (set_open b s)) = b"
  "dom (set_open b s) = dom s" "doc (set_open b s) = doc s"
  "calls (set_open b s) = calls s"
  by (simp_all add: set_open_def)

lemma apply_actions_mounted:
  "dom s \<noteq> None \<Longrightarrow>
     apply_actions as s = set_open (final_open as (isOpen (cells s))) (log_calls (new_calls as) s)"
proof (induction as arbitrary: s)
  case Nil
  then show ?case by (simp add: apply_actions_def)
next
  case (Cons a as)
  then show ?case
    by (cases a) (auto simp: apply_actions_def set_open_def log_calls_def)
qed

lemma apply_actions_unmounted:
  "dom s = None \<Longrightarrow> apply_actions as s = log_calls (new_calls as) s"
proof (induction as arbitrary: s)
  case Nil
  then show ?case by (simp add: apply_actions_def)
next
  case (Cons a as)
  then show ?case
    by (cases a) (simp_all add: apply_actions_def log_calls_def)
qed

lemma handler_effects [simp]:
  "final_open (handleToggle b) b' = (\<not> b)" "new_calls (handleToggle b) = []"
  "final_open (handleSelect cb i) b' = False" "new_calls (handleSelect cb i) = [(cb, i)]"
  by (simp_all add: handleToggle_def handleSelect_def)

lemma bubble_single [simp]: "bubble [h] = run_handler h"
  by simp

lemma inv_log_calls [simp]: "inv reg (log_calls cs s) = inv reg s"
  by (simp add: inv_def subscription_ok_def timer_owned_def last_detector_def
      cong: option.case_cong)

lemma open_panel_log_calls: "open_panel reg (log_calls cs s) = log_calls cs (open_panel reg s)"
  by (simp add: open_panel_def log_calls_def)

lemma close_panel_log_calls: "close_panel reg (log_calls cs s) = log_calls cs (close_panel reg s)"
  by (simp add: close_panel_def log_calls_def release_def last_detector_def split: option.splits)

section \<open>Dispatch in a committed state\<close>

lemma on_click_inv:
  assumes "inv reg s" and "dom s \<noteq> None" and "target_ok s tg"
  shows "on_click s tg =
     (case region_of tg of
        Trigger \<Rightarrow> handleToggle (isOpen (cells s))
      | OptionRow i \<Rightarrow> handleSelect (onChange (props s)) (model_id (reg ! i))
      | _ \<Rightarrow> [])"
proof (cases tg)
  case (Inside p)
  with assms show ?thesis
    by (auto simp: on_click_def target_ok_def inv_def tree_of_def click_handlers_view
        split: region.splits)
next
  case Outside
  with assms show ?thesis by (auto simp: on_click_def)
qed

lemma on_mousedown_eq:
  "on_mousedown s tg =
     concat (replicate (length (own_listeners (doc s))) (handleClickOutside (cells s) tg))"
proof -
  have "concat (map (run_listener hk tg) ls)
      = concat (replicate (length (List.map_filter own_listener ls)) (handleClickOutside hk tg))"
    for hk ls
    by (induction ls) (auto elim: own_listener.elims split: option.splits)
  then show ?thesis by (simp add: on_mousedown_def own_listeners_def)
qed

lemma on_mousedown_inv:
  assumes "inv reg s" and "dom s \<noteq> None"
  shows "on_mousedown s tg =
     (if phase_of s = Live \<and> outside_both tg then [SetIsOpen False] else [])"
proof (cases "isOpen (cells s)")
  case False
  with inv_closedD [OF assms] show ?thesis
    by (simp add: on_mousedown_eq phase_of_def split: option.splits)
next
  case True
  from inv_openD [OF assms True] obtain c where
    "(own_timers (doc s) = [c] \<and> own_listeners (doc s) = []) \<or>
      (own_timers (doc s) = [] \<and> own_listeners (doc s) = [snd c])" by blast
  moreover from inv_mountedD(3) [OF assms] True
  have "handleClickOutside (cells s) tg = (if outside_both tg then [SetIsOpen False] else [])"
    by (simp add: handleClickOutside_attached cells_ok_def)
  ultimately show ?thesis using True assms(2)
    by (auto simp: on_mousedown_eq phase_of_def)
qed

lemma on_mousedown_gone:
  assumes "inv reg s" and "dom s = None"
  shows "on_mousedown s tg = []"
  using assms by (simp add: on_mousedown_eq inv_def foreign_def)

section \<open>What each event does\<close>

lemma set_open_log_same [simp]: "set_open (isOpen (cells s)) (log_calls cs s) = log_calls cs s"
  by (simp add: set_open_def log_calls_def)

lemma update_mounted:
  "dom s \<noteq> None \<Longrightarrow> update reg as s =
     (if final_open as (isOpen (cells s)) = isOpen (cells s) then Inr (log_calls (new_calls as) s)
      else render reg (set_open (final_open as (isOpen (cells s))) (log_calls (new_calls as) s)))"
  by (simp add: update_def apply_actions_mounted)

lemma update_gone:
  "dom s = None \<Longrightarrow> update reg as s = Inr (log_calls (new_calls as) s)"
  by (simp add: update_def apply_actions_unmounted)

lemma row_target_open:
  assumes "inv reg s" and "dom s \<noteq> None" and "target_ok s tg" and "region_of tg = OptionRow i"
  shows "isOpen (cells s) \<and> i < length reg"
proof (cases tg)
  case (Inside p)
  with assms show ?thesis
    using row_target_valid [of reg "value_p (props s)" "isOpen (cells s)" "isOpen (cells s)"
        "onChange (props s)" "shown reg (value_p (props s))" p i]
    by (auto simp: inv_def target_ok_def tree_of_def)
next
  case Outside
  with assms show ?thesis by simp
qed

lemma step_click_trigger:
  assumes "inv reg s" and "dom s \<noteq> None" and "target_ok s tg" and "region_of tg = Trigger"
  shows "step reg s (Click tg) =
     Inr (if isOpen (cells s) then close_panel reg s else open_panel reg s)"
  using assms
  by (auto simp: update_mounted on_click_inv render_set_open_True render_set_open_False)

lemma step_click_row:
  assumes "inv reg s" and "dom s \<noteq> None" and "target_ok s tg" and "region_of tg = OptionRow i"
  shows "step reg s (Click tg) =
     Inr (close_panel reg (log_calls [(onChange (props s), model_id (reg ! i))] s))"
proof -
  from row_target_open [OF assms] have "isOpen (cells s)" ..
  with assms show ?thesis
    by (auto simp: update_mounted on_click_inv render_set_open_False)
qed

lemma step_click_other:
  assumes "inv reg s" and "dom s \<noteq> None" and "target_ok s tg"
    and "region_of tg = Wrapper \<or> region_of tg = Overlay \<or> region_of tg = Elsewhere"
  shows "step reg s (Click tg) = Inr s"
  using assms by (auto simp: update_mounted on_click_inv)

lemma live_open: "phase_of s = Live \<Longrightarrow> isOpen (cells s) \<and> dom s \<noteq> None"
  by (auto simp: phase_of_def split: option.splits if_splits)

lemma step_mousedown:
  assumes "inv reg s" and "dom s \<noteq> None" and "target_ok s tg"
  shows "step reg s (MouseDown tg) =
     Inr (if phase_of s = Live \<and> outside_both tg then close_panel reg s else s)"
  using assms
  by (auto simp: update_mounted on_mousedown_inv render_set_open_False dest: live_open)

lemma step_timer:
  "step reg s (TimerFire t) =
     Inr (case map_of (timers (doc s)) t of
            None \<Rightarrow> s
          | Some cb \<Rightarrow> s\<lparr>doc := run_timer cb (clearTimeout t (doc s))\<rparr>)"
  by (simp add: fire_timer_def split: option.splits)

lemma step_props:
  assumes "inv reg s" and "dom s \<noteq> None"
  shows "step reg s (SetProps p) = Inr (new_props reg p s)"
  using assms by (auto simp: render_new_props)

lemma step_gone:
  assumes "inv reg s" and "dom s = None"
  shows "step reg s (Click tg) = Inr s" and "step reg s (MouseDown tg) = Inr s"
    and "step reg s (SetProps p) = Inr s" and "step reg s Unmount = Inr s"
  using assms
  by (auto simp: update_gone on_click_def on_mousedown_gone unmount_def)

section \<open>The invariant is kept\<close>

lemma inv_mounted:
  "reg \<noteq> [] \<Longrightarrow> host_ok h \<Longrightarrow> foreign h \<Longrightarrow> inv reg (mounted reg p h)"
  by (simp add: inv_defs mounted_def last_detector_def foreign_def)

lemma inv_open_panel:
  assumes "inv reg s" and "dom s \<noteq> None" and "\<not> isOpen (cells s)"
  shows "inv reg (open_panel reg s)"
proof -
  from assms(1) have "host_ok (doc s)" by (simp add: inv_def)
  then have "\<forall>x \<in> set (timers (doc s)). fst x \<noteq> next_timer (doc s)"
    by (auto dest: timer_id_bound)
  with inv_mountedD [OF assms(1,2)] inv_closedD [OF assms] show ?thesis
    by (auto simp: inv_defs open_panel_def last_detector_def list_all_iff)
qed

lemma inv_close_panel:
  assumes "inv reg s" and "dom s \<noteq> None" and "isOpen (cells s)"
  shows "inv reg (close_panel reg s)"
  using inv_mountedD [OF assms(1,2)] inv_openD [OF assms]
  by (auto simp: inv_defs close_panel_def last_detector_def release_def)

lemma inv_new_props:
  assumes "inv reg s" and "dom s \<noteq> None"
  shows "inv reg (new_props reg p s)"
  using assms
  by (auto simp: inv_defs new_props_def last_detector_def split: option.splits)

lemma inv_unmount: "inv reg s \<Longrightarrow> inv reg (unmount s)"
proof (cases "dom s")
  case None
  then show "inv reg s \<Longrightarrow> inv reg (unmount s)" by (simp add: unmount_def)
next
  case (Some t)
  assume i: "inv reg s"
  show "inv reg (unmount s)"
  proof (cases "isOpen (cells s)")
    case True
    with inv_openD [OF i, of] inv_mountedD(4) [OF i] Some show ?thesis
      by (auto simp: inv_def timer_owned_def last_detector_def unmount_def foreign_def)
  next
    case False
    with inv_closedD [OF i] inv_mountedD(4) [OF i] Some show ?thesis
      by (auto simp: inv_def timer_owned_def last_detector_def unmount_def foreign_def)
  qed
qed

lemma step_no_target:
  assumes "\<not> target_ok s tg"
  shows "step reg s (Click tg) = Inr s" and "step reg s (MouseDown tg) = Inr s"
  using assms by simp_all

declare step.simps [simp del]

lemma step_timer_own:
  assumes "host_ok (doc s)" and "(t, AddMousedownListener k) \<in> set (timers (doc s))"
  shows "step reg s (TimerFire t) = Inr (arm_detector t k s)"
  using assms by (simp add: step_timer map_of_timers [THEN iffD2] arm_detector_def)

lemma step_timer_other:
  assumes "host_ok (doc s)" and "(t, OtherTimer n) \<in> set (timers (doc s))"
  shows "step reg s (TimerFire t) = Inr (drop_timer t s)"
  using assms by (simp add: step_timer map_of_timers [THEN iffD2] drop_timer_def)

lemma step_timer_none:
  assumes "\<not> pending t (doc s)"
  shows "step reg s (TimerFire t) = Inr s"
  using assms by (simp add: step_timer pending_map_of)

lemma own_timer_pendingD:
  assumes "inv reg s" and "(t, AddMousedownListener k) \<in> set (timers (doc s))"
  shows "phase_of s = Arming \<and> last_detector s = Some (t, k) \<and> own_timers (doc s) = [(t, k)]"
proof -
  from assms(2) have m: "(t, k) \<in> set (own_timers (doc s))"
    by (simp add: own_timers_member)
  show ?thesis
  proof (cases "dom s")
    case None
    with assms(1) m show ?thesis by (simp add: inv_def foreign_def)
  next
    case (Some tr)
    then have d: "dom s \<noteq> None" by simp
    show ?thesis
    proof (cases "isOpen (cells s)")
      case False
      from inv_closedD(2) [OF assms(1) d False] m show ?thesis by simp
    next
      case True
      from inv_openD [OF assms(1) d True] m Some True show ?thesis
        by (auto simp: phase_of_def last_detector_def)
    qed
  qed
qed

lemma inv_arm_detector:
  assumes "inv reg s" and "(t, AddMousedownListener k) \<in> set (timers (doc s))"
  shows "inv reg (arm_detector t k s)"
  using assms(1) own_timer_pendingD [OF assms]
  by (auto simp: inv_defs arm_detector_def last_detector_def phase_of_def foreign_def
      list_all_iff split: option.splits if_splits)

lemma other_timer_not_own:
  assumes "host_ok h" and "(t, OtherTimer n) \<in> set (timers h)"
  shows "filter (\<lambda>(i, k). i \<noteq> t) (own_timers h) = own_timers h"
proof -
  have "i \<noteq> t" if "(i, k) \<in> set (own_timers h)" for i k
    using that assms timers_functional [OF assms(1), of t "OtherTimer n" "AddMousedownListener k"]
    by (auto simp: own_timers_member)
  then show ?thesis by (auto simp: filter_id_conv)
qed

lemma inv_drop_timer:
  assumes "inv reg s" and "(t, OtherTimer n) \<in> set (timers (doc s))"
  shows "inv reg (drop_timer t s)"
proof -
  from assms have "host_ok (doc s)" by (simp add: inv_def)
  from other_timer_not_own [OF this assms(2)] assms(1) show ?thesis
    by (auto simp: inv_defs drop_timer_def last_detector_def foreign_def list_all_iff
        split: option.splits)
qed

lemma inv_step_click:
  assumes "inv reg s"
  shows "\<exists>s'. step reg s (Click tg) = Inr s' \<and> inv reg s'"
proof (cases "dom s \<noteq> None \<and> target_ok s tg")
  case False
  with assms show ?thesis
    by (cases "dom s") (auto simp: step_gone step_no_target)
next
  case True
  then have d: "dom s \<noteq> None" and t: "target_ok s tg" by simp_all
  show ?thesis
  proof (cases "region_of tg")
    case Trigger
    with assms d t show ?thesis
      by (simp add: step_click_trigger inv_open_panel inv_close_panel)
  next
    case (OptionRow i)
    from row_target_open [OF assms d t OptionRow] have "isOpen (cells s)" ..
    with assms d t OptionRow show ?thesis
      by (simp add: step_click_row close_panel_log_calls inv_close_panel)
  qed (use assms d t in \<open>simp_all add: step_click_other\<close>)
qed

lemma inv_step_mousedown:
  assumes "inv reg s"
  shows "\<exists>s'. step reg s (MouseDown tg) = Inr s' \<and> inv reg s'"
proof (cases "dom s \<noteq> None \<and> target_ok s tg")
  case False
  with assms show ?thesis
    by (cases "dom s") (auto simp: step_gone step_no_target)
next
  case True
  with assms show ?thesis
    by (auto simp: step_mousedown inv_close_panel dest: live_open)
qed

lemma inv_step_timer:
  assumes "inv reg s"
  shows "\<exists>s'. step reg s (TimerFire t) = Inr s' \<and> inv reg s'"
proof (cases "map_of (timers (doc s)) t")
  case None
  with assms show ?thesis by (simp add: step_timer)
next
  case (Some cb)
  from assms have h: "host_ok (doc s)" by (simp add: inv_def)
  with Some have m: "(t, cb) \<in> set (timers (doc s))" by (simp add: map_of_timers)
  with h assms show ?thesis
    by (cases cb) (auto simp: step_timer_own step_timer_other inv_arm_detector inv_drop_timer)
qed

lemma inv_step_props:
  assumes "inv reg s"
  shows "\<exists>s'. step reg s (SetProps p) = Inr s' \<and> inv reg s'"
  using assms by (cases "dom s") (auto simp: step_gone step_props inv_new_props)

lemma inv_step:
  assumes "inv reg s"
  shows "\<exists>s'. step reg s e = Inr s' \<and> inv reg s'"
  using assms
  by (cases e)
     (auto simp: inv_step_click inv_step_mousedown inv_step_timer inv_step_props inv_unmount
        step.simps(5))

lemma invD_step: "inv reg s \<Longrightarrow> step reg s e = Inr s' \<Longrightarrow> inv reg s'"
  using inv_step [of reg s e] by auto

lemma inv_run:
  "inv reg s \<Longrightarrow> \<exists>s'. run reg s es = Inr s' \<and> inv reg s'"
proof (induction es arbitrary: s)
  case Nil
  then show ?case by simp
next
  case (Cons e es)
  from inv_step [OF Cons.prems, of e] obtain s1 where "step reg s e = Inr s1" "inv reg s1"
    by blast
  with Cons.IH [of s1] show ?case by simp
qed

lemma mount_InrD: "mount reg p h = Inr s \<Longrightarrow> reg \<noteq> [] \<and> s = mounted reg p h"
  by (cases "reg = []") (auto simp: mount_eq mount_empty)

lemma reachable_inv: "reachable reg s \<Longrightarrow> inv reg s"
proof (induction rule: reachable.induct)
  case (reach_mount h p s)
  then show ?case by (auto dest!: mount_InrD simp: inv_mounted)
next
  case (reach_step s e s')
  then show ?case by (auto dest: invD_step)
qed

lemma reachable_run:
  "reachable reg s \<Longrightarrow> run reg s es = Inr s' \<Longrightarrow> reachable reg s'"
proof (induction es arbitrary: s)
  case Nil
  then show ?case by simp
next
  case (Cons e es)
  from Cons.prems(2) obtain s1 where "step reg s e = Inr s1" "run reg s1 es = Inr s'"
    by (auto simp: bind_result_eq_Inr_iff)
  with Cons.prems(1) Cons.IH [of s1] show ?case
    by (auto intro: reachable.reach_step)
qed

section \<open>The fields after each transition\<close>

lemma open_panel_fields [simp]:
  "props (open_panel reg s) = props s" "calls (open_panel reg s) = calls s"
  "isOpen (cells (open_panel reg s)) = True"
  "dom (open_panel reg s) = Some (tree_of reg (props s) True)"
  "doc (open_panel reg s) = snd (setTimeout (AddMousedownListener (closures (cells s))) (doc s))"
  "last_detector (open_panel reg s) = Some (next_timer (doc s), closures (cells s))"
  by (simp_all add: open_panel_def last_detector_def)

lemma close_panel_fields [simp]:
  "props (close_panel reg s) = props s" "calls (close_panel reg s) = calls s"
  "isOpen (cells (close_panel reg s)) = False"
  "dom (close_panel reg s) = Some (tree_of reg (props s) False)"
  "doc (close_panel reg s) = release s"
  "last_detector (close_panel reg s) = None"
  by (simp_all add: close_panel_def last_detector_def)

lemma arm_detector_fields [simp]:
  "props (arm_detector t k s) = props s" "calls (arm_detector t k s) = calls s"
  "cells (arm_detector t k s) = cells s" "dom (arm_detector t k s) = dom s"
  "doc (arm_detector t k s) = timer_callback k (clearTimeout t (doc s))"
  "last_detector (arm_detector t k s) = last_detector s"
  by (simp_all add: arm_detector_def last_detector_def)

lemma drop_timer_fields [simp]:
  "props (drop_timer t s) = props s" "calls (drop_timer t s) = calls s"
  "cells (drop_timer t s) = cells s" "dom (drop_timer t s) = dom s"
  "doc (drop_timer t s) = clearTimeout t (doc s)"
  by (simp_all add: drop_timer_def)

lemma new_props_fields [simp]:
  "props (new_props reg p s) = p" "calls (new_props reg p s) = calls s"
  "isOpen (cells (new_props reg p s)) = isOpen (cells s)"
  "dom (new_props reg p s) = Some (tree_of reg p (isOpen (cells s)))"
  "doc (new_props reg p s) = doc s"
  "last_detector (new_props reg p s) = last_detector s"
  by (simp_all add: new_props_def last_detector_def)

lemma mounted_fields [simp]:
  "props (mounted reg p h) = p" "calls (mounted reg p h) = []"
  "isOpen (cells (mounted reg p h)) = False"
  "dom (mounted reg p h) = Some (tree_of reg p False)"
  "doc (mounted reg p h) = h" "closures (cells (mounted reg p h)) = 0"
  "last_detector (mounted reg p h) = None"
  by (simp_all add: mounted_def last_detector_def)

lemma phase_of_iff:
  "phase_of s = Gone \<longleftrightarrow> dom s = None"
  "phase_of s = Closed \<longleftrightarrow> dom s \<noteq> None \<and> \<not> isOpen (cells s)"
  "phase_of s = Arming \<longleftrightarrow> dom s \<noteq> None \<and> isOpen (cells s) \<and> own_listeners (doc s) = []"
  "phase_of s = Live \<longleftrightarrow> dom s \<noteq> None \<and> isOpen (cells s) \<and> own_listeners (doc s) \<noteq> []"
  by (auto simp: phase_of_def split: option.splits)

lemma is_open_phase_of: "is_open (phase_of s) \<longleftrightarrow> dom s \<noteq> None \<and> isOpen (cells s)"
  by (auto simp: phase_of_def split: option.splits)

lemma inv_phaseD:
  assumes "inv reg s"
  shows "phase_of s = Gone \<Longrightarrow> own_timers (doc s) = [] \<and> own_listeners (doc s) = []"
    and "phase_of s = Closed \<Longrightarrow>
      last_detector s = None \<and> own_timers (doc s) = [] \<and> own_listeners (doc s) = []"
    and "phase_of s = Arming \<Longrightarrow>
      \<exists>c. last_detector s = Some c \<and> own_timers (doc s) = [c] \<and> own_listeners (doc s) = []"
    and "phase_of s = Live \<Longrightarrow>
      \<exists>c. last_detector s = Some c \<and> own_timers (doc s) = [] \<and> own_listeners (doc s) = [snd c]"
  using assms
  by (auto simp: phase_of_iff inv_def foreign_def subscription_ok_def split: option.splits)

lemma release_closed:
  assumes "inv reg s" and "dom s \<noteq> None"
  shows "own_timers (release s) = []" and "own_listeners (release s) = []"
  using inv_close_panel [OF assms] inv_closedD [OF assms] inv_openD [OF assms]
  by (cases "isOpen (cells s)"; auto simp: release_def last_detector_def)+

lemma phase_close_panel [simp]: "phase_of (close_panel reg s) = Closed"
  by (simp add: phase_of_iff)

lemma phase_open_panel:
  "own_listeners (doc s) = [] \<Longrightarrow> phase_of (open_panel reg s) = Arming"
  by (simp add: phase_of_iff)

lemma phase_arm_detector:
  "dom s \<noteq> None \<Longrightarrow> isOpen (cells s) \<Longrightarrow> phase_of (arm_detector t k s) = Live"
  by (auto simp: phase_of_iff)

lemma reachable_mounted:
  "reg \<noteq> [] \<Longrightarrow> host_ok h \<Longrightarrow> foreign h \<Longrightarrow> reachable reg (mounted reg p h)"
  by (rule reachable.reach_mount [where h = h and p = p]) (simp_all add: mount_eq)

lemma reachable_demo_closed: "reachable example_models demo_closed"
  unfolding demo_closed_def by (rule reachable_mounted) simp_all

lemma demo_closed_phase [simp]: "phase_of demo_closed = Closed"
  by (simp add: demo_closed_def phase_of_iff)

lemma demo_trigger_ok [simp]: "target_ok demo_closed (Inside [0])"
  by (simp add: demo_closed_def target_ok_def tree_of_def)

lemma reachable_demo_arming: "reachable example_models demo_arming"
proof -
  have "step example_models demo_closed (Click (Inside [0])) =
      Inr (if isOpen (cells demo_closed) then close_panel example_models demo_closed
           else open_panel example_models demo_closed)"
    by (rule step_click_trigger)
       (simp_all add: reachable_inv [OF reachable_demo_closed], simp add: demo_closed_def)
  then have "step example_models demo_closed (Click (Inside [0])) = Inr demo_arming"
    by (simp add: demo_arming_def, simp add: demo_closed_def)
  with reachable_demo_closed show ?thesis by (rule reachable.reach_step)
qed

lemma demo_arming_phase [simp]: "phase_of demo_arming = Arming"
  by (simp add: demo_arming_def demo_closed_def phase_open_panel)

lemma demo_arming_detector [simp]: "last_detector demo_arming = Some (0, 0)"
  by (simp add: demo_arming_def demo_closed_def)

lemma reachable_demo_live: "reachable example_models demo_live"
proof -
  have "(0, AddMousedownListener 0) \<in> set (timers (doc demo_arming))"
    by (simp add: demo_arming_def demo_closed_def)
  with reachable_inv [OF reachable_demo_arming]
  have "step example_models demo_arming (TimerFire 0) = Inr demo_live"
    by (simp add: step_timer_own demo_live_def inv_def)
  with reachable_demo_arming show ?thesis by (rule reachable.reach_step)
qed

lemma demo_live_phase [simp]: "phase_of demo_live = Live"
  by (simp add: demo_live_def demo_arming_def demo_closed_def phase_of_iff)

section \<open>A step is one of the transitions\<close>

lemma step_click_cases:
  assumes "inv reg s" and "step reg s (Click tg) = Inr s'"
  shows "s' = s \<or> (phase_of s = Closed \<and> s' = open_panel reg s)
     \<or> (dom s \<noteq> None \<and> isOpen (cells s) \<and> s' = close_panel reg s)
     \<or> (\<exists>i < length reg. dom s \<noteq> None \<and> isOpen (cells s) \<and>
          s' = close_panel reg (log_calls [(onChange (props s), model_id (reg ! i))] s))"
proof (cases "dom s \<noteq> None \<and> target_ok s tg")
  case False
  with assms show ?thesis
    by (cases "dom s") (auto simp: step_gone step_no_target)
next
  case True
  then have d: "dom s \<noteq> None" and t: "target_ok s tg" by simp_all
  show ?thesis
  proof (cases "region_of tg")
    case Trigger
    with assms d t show ?thesis
      by (cases "isOpen (cells s)") (auto simp: step_click_trigger phase_of_iff)
  next
    case (OptionRow i)
    from row_target_open [OF assms(1) d t OptionRow] assms d t OptionRow show ?thesis
      by (auto simp: step_click_row)
  qed (use assms d t in \<open>auto simp: step_click_other\<close>)
qed

lemma step_mousedown_cases:
  assumes "inv reg s" and "step reg s (MouseDown tg) = Inr s'"
  shows "s' = s \<or> (dom s \<noteq> None \<and> isOpen (cells s) \<and> s' = close_panel reg s)"
proof (cases "dom s \<noteq> None \<and> target_ok s tg")
  case False
  with assms show ?thesis
    by (cases "dom s") (auto simp: step_gone step_no_target)
next
  case True
  with assms show ?thesis
    by (auto simp: step_mousedown split: if_splits dest: live_open)
qed

lemma step_timer_cases:
  assumes "inv reg s" and "step reg s (TimerFire t) = Inr s'"
  shows "s' = s \<or> (\<exists>k. (t, AddMousedownListener k) \<in> set (timers (doc s)) \<and> s' = arm_detector t k s)
     \<or> (\<exists>n. (t, OtherTimer n) \<in> set (timers (doc s)) \<and> s' = drop_timer t s)"
proof (cases "map_of (timers (doc s)) t")
  case None
  with assms show ?thesis by (simp add: step_timer)
next
  case (Some cb)
  from assms have h: "host_ok (doc s)" by (simp add: inv_def)
  with Some have "(t, cb) \<in> set (timers (doc s))" by (simp add: map_of_timers)
  with h assms show ?thesis
    by (cases cb) (auto simp: step_timer_own step_timer_other)
qed

lemma inv_step_cases [consumes 2, case_names stutter opened closed selected armed dropped
    props unmounted]:
  assumes "inv reg s" and "step reg s e = Inr s'"
  obtains "s' = s"
    | "phase_of s = Closed" and "s' = open_panel reg s"
    | "dom s \<noteq> None" and "isOpen (cells s)" and "s' = close_panel reg s"
    | i where "dom s \<noteq> None" and "isOpen (cells s)" and "i < length reg"
        and "s' = close_panel reg (log_calls [(onChange (props s), model_id (reg ! i))] s)"
    | t k where "(t, AddMousedownListener k) \<in> set (timers (doc s))"
        and "s' = arm_detector t k s"
    | t n where "(t, OtherTimer n) \<in> set (timers (doc s))" and "s' = drop_timer t s"
    | p where "dom s \<noteq> None" and "s' = new_props reg p s"
    | "dom s \<noteq> None" and "s' = unmount s"
proof (cases e)
  case (Click tg)
  with step_click_cases [OF assms(1), of tg s'] assms(2) that(1-4) show ?thesis by blast
next
  case (MouseDown tg)
  with step_mousedown_cases [OF assms(1), of tg s'] assms(2) that(1,3) show ?thesis by blast
next
  case (TimerFire t)
  with step_timer_cases [OF assms(1), of t s'] assms(2) that(1,5,6) show ?thesis by blast
next
  case (SetProps p)
  with assms show ?thesis
    by (cases "dom s") (auto simp: step_gone step_props intro: that(1,7))
next
  case Unmount
  with assms show ?thesis
    by (cases "dom s") (auto simp: step.simps unmount_def intro: that(1,8))
qed

section \<open>The rest of the page is left alone\<close>

lemma other_timers_clearTimeout:
  "other_timers (clearTimeout t h) = filter (\<lambda>x. fst x \<noteq> t) (other_timers h)"
  by (simp add: other_timers_def case_prod_unfold conj_commute cong: filter_cong)

lemma other_timers_member:
  "(t, c) \<in> set (other_timers h) \<longleftrightarrow> (t, c) \<in> set (timers h) \<and> (\<exists>n. c = OtherTimer n)"
  unfolding other_timers_def by (cases c) simp_all

lemma other_timers_cleanup_owned:
  assumes "list_all (\<lambda>x. fst x \<noteq> fst c \<or> snd x = AddMousedownListener (snd c)) (timers h)"
  shows "other_timers (cleanup c h) = other_timers h"
proof -
  have "fst x \<noteq> fst c" if "x \<in> set (other_timers h)" for x
  proof (cases x)
    case (Pair t cb)
    with that assms show ?thesis
      by (fastforce simp: other_timers_member list_all_iff)
  qed
  then have "filter (\<lambda>x. fst x \<noteq> fst c) (other_timers h) = other_timers h"
    by (simp add: filter_id_conv)
  then show ?thesis
    by (simp add: cleanup_def other_timers_clearTimeout)
qed

lemma other_release:
  assumes "inv reg s"
  shows "other_timers (release s) = other_timers (doc s)"
    and "other_listeners (release s) = other_listeners (doc s)"
  using assms
  by (auto simp: release_def inv_def timer_owned_def other_timers_cleanup_owned
      split: option.splits)

lemma other_not_pending:
  assumes "\<not> pending t h"
  shows "filter (\<lambda>x. fst x \<noteq> t) (other_timers h) = other_timers h"
proof -
  have "fst x \<noteq> t" if "x \<in> set (other_timers h)" for x
  proof (cases x)
    case (Pair t' cb)
    with that assms show ?thesis
      by (auto simp: other_timers_member pending_iff)
  qed
  then show ?thesis by (simp add: filter_id_conv)
qed

end
