(* ===== verification/Behaviour.thy ===== *)
theory Behaviour
  imports Runtime
begin

text \<open>
  What the selector does for its user and its owner, over the reachable states of
  \<open>Runtime\<close>: one lemma per gesture (a click on the trigger, a click on an option,
  a press elsewhere, the timer firing, new props, the unmount), the bookkeeping of
  the listener and the timer on the document, the calls made to the owner, and the
  rest of the page left as it was, and the well-formedness of every reachable state
  (document, tree and refs). The example states \<open>demo_closed\<close>,
  \<open>demo_arming\<close> and \<open>demo_live\<close> of \<open>Runtime\<close> instantiate each statement.
\<close>

section \<open>Targets of the example states\<close>

lemma target_ok_tree_of:
  "dom s = Some (tree_of reg p b) \<Longrightarrow>
     target_ok s (Inside [0]) \<and> target_ok s Outside \<and> target_ok s (Inside [])
     \<and> (target_ok s (Inside [Suc 0, i]) \<longleftrightarrow> b \<and> i < length reg)"
  by (simp add: target_ok_def tree_of_def)

lemma demo_docs [simp]:
  "doc demo_closed = empty_host"
  "doc demo_arming = snd (setTimeout (AddMousedownListener 0) empty_host)"
  "doc demo_live =
     timer_callback 0 (clearTimeout 0 (snd (setTimeout (AddMousedownListener 0) empty_host)))"
  by (simp_all add: demo_closed_def demo_arming_def demo_live_def)

lemma demo_doms [simp]:
  "dom demo_closed = Some (tree_of example_models demo_props False)"
  "dom demo_arming = Some (tree_of example_models demo_props True)"
  "dom demo_live = Some (tree_of example_models demo_props True)"
  by (simp_all add: demo_closed_def demo_arming_def demo_live_def)

lemma demo_flags [simp]:
  "\<not> isOpen (cells demo_closed)" "isOpen (cells demo_arming)" "isOpen (cells demo_live)"
  by (simp_all add: demo_closed_def demo_arming_def demo_live_def)

lemma demo_calls [simp]:
  "calls demo_closed = []" "calls demo_arming = []" "calls demo_live = []"
  by (simp_all add: demo_closed_def demo_arming_def demo_live_def)

lemma demo_props_of [simp]:
  "props demo_closed = demo_props" "props demo_arming = demo_props"
  "props demo_live = demo_props"
  by (simp_all add: demo_closed_def demo_arming_def demo_live_def)

lemma demo_targets [simp]:
  "target_ok demo_arming (Inside [0])" "target_ok demo_live (Inside [0])"
  "target_ok demo_live Outside" "target_ok demo_arming Outside"
  "target_ok demo_live (Inside [Suc 0, 0])" "target_ok demo_live (Inside [Suc 0, Suc 0])"
  using target_ok_tree_of [OF demo_doms(2)] target_ok_tree_of [OF demo_doms(3)]
  by (simp_all add: example_models_def)

lemma demo_steps:
  "step example_models demo_closed (Click (Inside [0])) = Inr demo_arming"
  "step example_models demo_arming (TimerFire 0) = Inr demo_live"
  "step example_models demo_live (Click (Inside [Suc 0, 0])) = Inr demo_chosen"
proof -
  show "step example_models demo_closed (Click (Inside [0])) = Inr demo_arming"
    using step_click_trigger [OF reachable_inv [OF reachable_demo_closed], of "Inside [0]"]
    by (simp add: demo_arming_def)
  have "(0, AddMousedownListener 0) \<in> set (timers (doc demo_arming))"
    by (simp add: setTimeout_def empty_host_def)
  with reachable_inv [OF reachable_demo_arming]
  show "step example_models demo_arming (TimerFire 0) = Inr demo_live"
    by (simp add: step_timer_own demo_live_def inv_def)
  show "step example_models demo_live (Click (Inside [Suc 0, 0])) = Inr demo_chosen"
    using step_click_row [OF reachable_inv [OF reachable_demo_live], of "Inside [Suc 0, 0]" 0]
    by (simp add: demo_chosen_def demo_props_def example_models_def)
qed

lemma reachable_demo_chosen: "reachable example_models demo_chosen"
  using reachable_demo_live demo_steps(3) by (rule reachable.reach_step)

section \<open>The subscription follows the flag\<close>

lemma inv_subscriptions:
  assumes "inv reg s"
  shows "subscriptions s = (if overlay_open s then 1 else 0)"
proof (cases "dom s")
  case None
  with assms show ?thesis by (simp add: inv_def foreign_def subscriptions_def overlay_open_def)
next
  case (Some t)
  then have d: "dom s \<noteq> None" by simp
  show ?thesis
  proof (cases "isOpen (cells s)")
    case True
    with inv_openD [OF assms d] d show ?thesis
      by (auto simp: subscriptions_def overlay_open_def)
  next
    case False
    with inv_closedD(2,3) [OF assms d] show ?thesis
      by (simp add: subscriptions_def overlay_open_def)
  qed
qed

text \<open>
  Property C2 (specification 5, 9 and 8.6). In every state that a mount followed by any
  events reaches, the document holds exactly one closure of the component (its
  pending timer or its mousedown listener) while the overlay is open, and none while
  it is closed or after the unmount.
\<close>

theorem one_subscription_while_open:
  assumes "reachable reg s"
  shows "subscriptions s = (if overlay_open s then 1 else 0)"
  using reachable_inv [OF assms] by (rule inv_subscriptions)

theorem one_subscription_while_open_witness:
  "reachable example_models demo_live \<and> overlay_open demo_live
     \<and> subscriptions demo_live = 1"
  using one_subscription_while_open [OF reachable_demo_live]
  by (simp add: reachable_demo_live overlay_open_def)

section \<open>Clicks\<close>

text \<open>
  Property C11 (specification 4.1, transitions 1 and 3; 8.2, 8.3). A click on the trigger, or on anything
  inside it, flips the flag, renders the tree for the new flag, and makes no call to
  the owner.
\<close>

theorem trigger_click_toggles:
  assumes "reachable reg s" and "dom s \<noteq> None" and "target_ok s tg"
    and "region_of tg = Trigger"
  shows "\<exists>s'. step reg s (Click tg) = Inr s'
     \<and> isOpen (cells s') = (\<not> isOpen (cells s))
     \<and> dom s' = Some (tree_of reg (props s) (\<not> isOpen (cells s)))
     \<and> calls s' = calls s \<and> props s' = props s"
  using assms by (simp add: step_click_trigger reachable_inv)

theorem trigger_click_toggles_witness:
  "\<exists>s'. step example_models demo_closed (Click (Inside [0])) = Inr s'
     \<and> isOpen (cells s') \<and> dom s' = Some (tree_of example_models demo_props True)
     \<and> calls s' = [] \<and> props s' = demo_props"
  using trigger_click_toggles [OF reachable_demo_closed, of "Inside [0]"]
  by simp

text \<open>
  Property C7 (specification 4.1, transition 2; 8.4). A click on the row of the \<open>i\<close>-th option
  can only happen while the overlay is open; it calls the owner's current callback
  once, with the id of that option, closes the overlay and releases the
  subscription.
\<close>

theorem option_click_notifies_once:
  assumes "reachable reg s" and "dom s \<noteq> None" and "target_ok s tg"
    and "region_of tg = OptionRow i"
  shows "\<exists>s'. step reg s (Click tg) = Inr s'
     \<and> calls s' = calls s @ [(onChange (props s), model_id (reg ! i))]
     \<and> phase_of s' = Closed \<and> subscriptions s' = 0 \<and> i < length reg"
proof -
  note i = reachable_inv [OF assms(1)]
  from row_target_open [OF i assms(2-4)] have o: "isOpen (cells s)" "i < length reg"
    by simp_all
  let ?s = "log_calls [(onChange (props s), model_id (reg ! i))] s"
  from i assms(2) have "subscriptions (close_panel reg ?s) = 0"
    using release_closed [of reg ?s] by (simp add: subscriptions_def)
  with i assms o show ?thesis
    by (simp add: step_click_row)
qed

theorem option_click_notifies_once_witness:
  "\<exists>s'. step example_models demo_live (Click (Inside [Suc 0, 0])) = Inr s'
     \<and> calls s' = [(7, ''a'')] \<and> phase_of s' = Closed \<and> subscriptions s' = 0"
  using option_click_notifies_once [OF reachable_demo_live, of "Inside [Suc 0, 0]" 0]
  by (simp add: demo_props_def example_models_def)

text \<open>
  A click that lands on the wrapper, on the overlay between its rows, or elsewhere in
  the document changes nothing: only the trigger and the rows carry click handlers.
\<close>

lemma other_click_ignored:
  assumes "inv reg s" and "target_ok s tg"
    and "region_of tg = Wrapper \<or> region_of tg = Overlay \<or> region_of tg = Elsewhere"
  shows "step reg s (Click tg) = Inr s"
  using assms
  by (cases "dom s") (simp_all add: step_gone step_click_other)

section \<open>Presses\<close>

text \<open>
  Property C8 (specification 4.1, transition 4; 8.5). Once the listener is registered, a press
  outside the trigger and outside the overlay closes the overlay, makes no call to
  the owner, and leaves no closure of the component on the document.
\<close>

theorem outside_press_closes:
  assumes "reachable reg s" and "phase_of s = Live" and "target_ok s tg"
    and "outside_both tg"
  shows "\<exists>s'. step reg s (MouseDown tg) = Inr s' \<and> phase_of s' = Closed
     \<and> calls s' = calls s \<and> foreign (doc s')"
proof -
  note i = reachable_inv [OF assms(1)]
  from live_open [OF assms(2)] have d: "dom s \<noteq> None" ..
  from i d assms show ?thesis
    by (simp add: step_mousedown foreign_def release_closed)
qed

theorem outside_press_closes_witness:
  "\<exists>s'. step example_models demo_live (MouseDown Outside) = Inr s' \<and> phase_of s' = Closed
     \<and> calls s' = [] \<and> foreign (doc s')"
  using outside_press_closes [OF reachable_demo_live, of Outside]
  by (simp add: outside_both_def in_overlay_def)

lemma press_ignored:
  assumes "inv reg s" and "phase_of s \<noteq> Live \<or> \<not> outside_both tg"
  shows "step reg s (MouseDown tg) = Inr s"
proof (cases "dom s \<noteq> None \<and> target_ok s tg")
  case True
  with assms show ?thesis
    by (auto simp: step_mousedown)
next
  case False
  with assms(1) show ?thesis
    by (cases "dom s") (auto simp: step_gone step_no_target)
qed

lemma step_press:
  assumes "inv reg s"
  shows "step reg s (MouseDown tg) =
     Inr (if target_ok s tg \<and> phase_of s = Live \<and> outside_both tg then close_panel reg s else s)"
proof (cases "target_ok s tg \<and> phase_of s = Live \<and> outside_both tg")
  case True
  with assms live_open [of s] show ?thesis by (simp add: step_mousedown)
next
  case False
  with assms show ?thesis
    by (cases "target_ok s tg") (auto simp: press_ignored step_no_target)
qed

text \<open>
  Property C31 (specification 4.1 and 8.6). The events that are no gesture change
  nothing. A click that lands on the wrapper, on the overlay between its rows, or
  elsewhere in the document leaves the state as it is: only the trigger and the rows
  carry click handlers. A press leaves the state as it is unless the listener is
  registered and the target is outside both the trigger and the overlay: presses while
  closed, presses before the timer has fired, and presses inside the trigger or the
  overlay.
\<close>

theorem ignored_events_change_nothing:
  assumes "reachable reg s"
  shows "(target_ok s tg \<and>
            (region_of tg = Wrapper \<or> region_of tg = Overlay \<or> region_of tg = Elsewhere)
          \<longrightarrow> step reg s (Click tg) = Inr s)
     \<and> (phase_of s \<noteq> Live \<or> \<not> outside_both tg \<longrightarrow> step reg s (MouseDown tg) = Inr s)"
  using other_click_ignored [OF reachable_inv [OF assms], of tg]
    press_ignored [OF reachable_inv [OF assms], of tg]
  by blast

theorem ignored_events_change_nothing_witness:
  "step example_models demo_live (Click Outside) = Inr demo_live
   \<and> step example_models demo_arming (MouseDown Outside) = Inr demo_arming
   \<and> step example_models demo_live (MouseDown (Inside [Suc 0, 0])) = Inr demo_live"
  using ignored_events_change_nothing [OF reachable_demo_live, of Outside]
    ignored_events_change_nothing [OF reachable_demo_arming, of Outside]
    ignored_events_change_nothing [OF reachable_demo_live, of "Inside [Suc 0, 0]"]
  by (simp add: outside_both_def in_overlay_def)

section \<open>Gestures that take more than one event\<close>

lemma run_two:
  "step reg s e1 = Inr s1 \<Longrightarrow> step reg s1 e2 = Inr s2 \<Longrightarrow> run reg s [e1, e2] = Inr s2"
  by simp

lemma phase_open_panel_inv:
  assumes "inv reg s" and "phase_of s = Closed"
  shows "phase_of (open_panel reg s) = Arming" and "inv reg (open_panel reg s)"
  using assms inv_phaseD(2) [OF assms]
  by (simp_all add: phase_open_panel inv_open_panel phase_of_iff)

text \<open>
  Property C6 (specification 4.1, edge-case policy; 8.5). The listener is registered by a timer, not
  by the effect itself: after the click that opens the overlay, a press that arrives
  before the timer has fired, wherever it lands, leaves the overlay open.
\<close>

theorem press_before_timer_keeps_open:
  assumes "reachable reg s" and "phase_of s = Closed" and "target_ok s tg"
    and "region_of tg = Trigger"
  shows "run reg s [Click tg, MouseDown tg'] = Inr (open_panel reg s)
     \<and> isOpen (cells (open_panel reg s))"
proof -
  note i = reachable_inv [OF assms(1)]
  from assms(2) have d: "dom s \<noteq> None" and c: "\<not> isOpen (cells s)"
    by (simp_all add: phase_of_iff)
  from i d c assms have 1: "step reg s (Click tg) = Inr (open_panel reg s)"
    by (simp add: step_click_trigger)
  with assms(1) have "reachable reg (open_panel reg s)"
    by (rule reachable.reach_step)
  then have "step reg (open_panel reg s) (MouseDown tg') = Inr (open_panel reg s)"
  proof (cases "dom (open_panel reg s) \<noteq> None \<and> target_ok (open_panel reg s) tg'")
    case True
    with phase_open_panel_inv [OF i assms(2)] show ?thesis
      by (simp add: step_mousedown)
  next
    case False
    then show ?thesis by (simp add: step_no_target)
  qed
  with 1 show ?thesis by (simp add: run_two)
qed

theorem press_before_timer_keeps_open_witness:
  "run example_models demo_closed [Click (Inside [0]), MouseDown Outside] = Inr demo_arming
     \<and> isOpen (cells demo_arming)"
  using press_before_timer_keeps_open [OF reachable_demo_closed, of "Inside [0]" Outside]
  by (simp add: demo_arming_def)

text \<open>
  Property C5 (specification 4.1, transition 3). Pressing and releasing the mouse on the
  trigger while the overlay is open closes it: the press is inside the trigger, so
  the listener leaves the flag alone, and the click that follows clears it. The
  overlay does not close and open again.
\<close>

theorem trigger_press_and_click_closes:
  assumes "reachable reg s" and "phase_of s = Live" and "target_ok s tg"
    and "region_of tg = Trigger"
  shows "run reg s [MouseDown tg, Click tg] = Inr (close_panel reg s)"
proof -
  note i = reachable_inv [OF assms(1)]
  from live_open [OF assms(2)] have o: "isOpen (cells s)" and d: "dom s \<noteq> None"
    by simp_all
  from i d assms have "step reg s (MouseDown tg) = Inr s"
    by (simp add: step_mousedown outside_both_def)
  moreover from i d o assms have "step reg s (Click tg) = Inr (close_panel reg s)"
    by (simp add: step_click_trigger)
  ultimately show ?thesis by (simp add: run_two)
qed

theorem trigger_press_and_click_closes_witness:
  "run example_models demo_live [MouseDown (Inside [0]), Click (Inside [0])]
     = Inr (close_panel example_models demo_live)
   \<and> phase_of (close_panel example_models demo_live) = Closed"
  using trigger_press_and_click_closes [OF reachable_demo_live, of "Inside [0]"]
  by simp

section \<open>The timer\<close>

text \<open>
  Property C30 (specification 4.1, edge-case policy). While the overlay is open and the listener is
  not yet registered, the timer that the effect queued is pending; when it fires, the
  listener is registered, the timer is gone, and the overlay is still open.
\<close>

theorem timer_arms_detector:
  assumes "reachable reg s" and "phase_of s = Arming"
  shows "\<exists>t k. last_detector s = Some (t, k) \<and> pending t (doc s)
     \<and> step reg s (TimerFire t) = Inr (arm_detector t k s)
     \<and> phase_of (arm_detector t k s) = Live
     \<and> own_listeners (doc (arm_detector t k s)) = [k]
     \<and> own_timers (doc (arm_detector t k s)) = []"
proof -
  note i = reachable_inv [OF assms(1)]
  from inv_phaseD(3) [OF i assms(2)] obtain t k where
    c: "last_detector s = Some (t, k)" "own_timers (doc s) = [(t, k)]"
      "own_listeners (doc s) = []"
    by auto
  from c(2) have m: "(t, AddMousedownListener k) \<in> set (timers (doc s))"
    by (simp add: own_timers_member [symmetric])
  from i have h: "host_ok (doc s)" by (simp add: inv_def)
  from m have "pending t (doc s)" by (auto simp: pending_iff)
  moreover from assms(2) have "phase_of (arm_detector t k s) = Live"
    by (simp add: phase_arm_detector phase_of_iff)
  ultimately show ?thesis
    using c h m by (simp add: step_timer_own)
qed

theorem timer_arms_detector_witness:
  "\<exists>t k. last_detector demo_arming = Some (t, k) \<and> pending t (doc demo_arming)
     \<and> step example_models demo_arming (TimerFire t) = Inr (arm_detector t k demo_arming)
     \<and> phase_of (arm_detector t k demo_arming) = Live
     \<and> own_listeners (doc (arm_detector t k demo_arming)) = [k]
     \<and> own_timers (doc (arm_detector t k demo_arming)) = []"
  using timer_arms_detector [OF reachable_demo_arming] by simp

section \<open>No event fails\<close>

text \<open>
  Property C26 (specification 7). From a reachable state every sequence of events
  runs to the end: no render after the mount throws, and no handler, listener or
  timer callback does.
\<close>

theorem events_never_throw:
  assumes "reachable reg s"
  shows "is_ok (run reg s es)"
  using inv_run [OF reachable_inv [OF assms], of es] by auto

theorem events_never_throw_witness:
  "is_ok (run example_models demo_closed
     [Click (Inside [0]), TimerFire 0, MouseDown Outside, Unmount, Click (Inside [0])])"
  by (rule events_never_throw [OF reachable_demo_closed])

section \<open>The rest of the page\<close>

lemma doc_unmount: "doc (unmount s) = (if dom s = None then doc s else release s)"
  by (auto simp: unmount_def release_def last_detector_def)

lemma other_open_panel [simp]:
  "other_listeners (doc (open_panel reg s)) = other_listeners (doc s)"
  "other_timers (doc (open_panel reg s)) = other_timers (doc s)"
  by simp_all

lemma other_release_log:
  assumes "inv reg s"
  shows "other_listeners (release (log_calls cs s)) = other_listeners (doc s)"
    and "other_timers (release (log_calls cs s)) = other_timers (doc s)"
  using other_release [of reg "log_calls cs s"] assms by simp_all

lemma other_step_timer:
  assumes "step reg s (TimerFire t) = Inr s'"
  shows "other_listeners (doc s') = other_listeners (doc s)"
    and "other_timers (doc s') = filter (\<lambda>x. fst x \<noteq> t) (other_timers (doc s))"
proof -
  show "other_listeners (doc s') = other_listeners (doc s)"
  proof (cases "map_of (timers (doc s)) t")
    case None
    with assms show ?thesis by (simp add: step_timer)
  next
    case (Some cb)
    with assms show ?thesis by (cases cb) (auto simp: step_timer)
  qed
  show "other_timers (doc s') = filter (\<lambda>x. fst x \<noteq> t) (other_timers (doc s))"
  proof (cases "map_of (timers (doc s)) t")
    case None
    then have "\<not> pending t (doc s)" by (simp add: pending_map_of)
    with assms None show ?thesis by (simp add: step_timer other_not_pending)
  next
    case (Some cb)
    with assms show ?thesis
      by (cases cb) (auto simp: step_timer other_timers_clearTimeout)
  qed
qed

lemma others_kept:
  assumes "inv reg s" and "step reg s e = Inr s'"
  shows "other_listeners (doc s') = other_listeners (doc s)"
    and "other_timers (doc s') =
         (case e of TimerFire t \<Rightarrow> filter (\<lambda>x. fst x \<noteq> t) (other_timers (doc s))
          | _ \<Rightarrow> other_timers (doc s))"
proof -
  note f = other_release [OF assms(1)] other_release_log [OF assms(1)]
  have "other_listeners (doc s') = other_listeners (doc s)
     \<and> other_timers (doc s') =
         (case e of TimerFire t \<Rightarrow> filter (\<lambda>x. fst x \<noteq> t) (other_timers (doc s))
          | _ \<Rightarrow> other_timers (doc s))"
  proof (cases e)
    case (Click tg)
    with step_click_cases [OF assms(1), of tg s'] assms(2) show ?thesis
      by (auto simp: f)
  next
    case (MouseDown tg)
    with step_mousedown_cases [OF assms(1), of tg s'] assms(2) show ?thesis
      by (auto simp: f)
  next
    case (TimerFire t)
    with other_step_timer [of reg s t s'] assms(2) show ?thesis by simp
  next
    case (SetProps p)
    with assms show ?thesis
      by (cases "dom s") (auto simp: step_gone step_props)
  next
    case Unmount
    with assms(2) show ?thesis
      by (auto simp: step.simps doc_unmount f)
  qed
  then show "other_listeners (doc s') = other_listeners (doc s)"
    and "other_timers (doc s') =
         (case e of TimerFire t \<Rightarrow> filter (\<lambda>x. fst x \<noteq> t) (other_timers (doc s))
          | _ \<Rightarrow> other_timers (doc s))" by simp_all
qed

text \<open>
  Property C29 (specification 5). No event makes the component add, remove or
  run a listener of the rest of the page, and none makes it queue or cancel a timer of
  the rest of the page: the listeners of others stay as they are, and the timers of
  others change only by the event loop firing one of them.
\<close>

theorem rest_of_page_untouched:
  assumes "reachable reg s" and "step reg s e = Inr s'"
  shows "other_listeners (doc s') = other_listeners (doc s)
     \<and> other_timers (doc s') =
         (case e of TimerFire t \<Rightarrow> filter (\<lambda>x. fst x \<noteq> t) (other_timers (doc s))
          | _ \<Rightarrow> other_timers (doc s))"
  using others_kept [OF reachable_inv [OF assms(1)] assms(2)] by blast

theorem rest_of_page_untouched_witness:
  "other_listeners (doc (arm_detector 0 0 demo_arming)) = other_listeners (doc demo_arming)
     \<and> other_timers (doc (arm_detector 0 0 demo_arming)) =
         filter (\<lambda>x. fst x \<noteq> 0) (other_timers (doc demo_arming))"
proof -
  have "step example_models demo_arming (TimerFire 0) = Inr (arm_detector 0 0 demo_arming)"
    using reachable_inv [OF reachable_demo_arming]
    by (simp add: step_timer_own inv_def)
  from rest_of_page_untouched [OF reachable_demo_arming this] show ?thesis by simp
qed

section \<open>Unmounting\<close>

lemma inv_goneD: "inv reg s \<Longrightarrow> dom s = None \<Longrightarrow> foreign (doc s)"
  by (simp add: inv_def)

lemma dom_unmount [simp]: "dom (unmount s) = None" "calls (unmount s) = calls s"
  by (simp_all add: unmount_def split: option.splits)

lemma unmount_releases:
  assumes "inv reg s"
  shows "\<exists>s'. step reg s Unmount = Inr s' \<and> inv reg s' \<and> phase_of s' = Gone
     \<and> foreign (doc s') \<and> calls s' = calls s"
  using inv_unmount [OF assms]
  by (simp add: step.simps phase_of_iff inv_goneD)

lemma gone_step:
  assumes "inv reg s" and "dom s = None"
  shows "\<exists>s'. step reg s e = Inr s' \<and> inv reg s' \<and> dom s' = None \<and> calls s' = calls s
     \<and> cells s' = cells s"
proof (cases e)
  case (TimerFire t)
  from inv_step_timer [OF assms(1), of t] obtain s' where
    s: "step reg s (TimerFire t) = Inr s'" "inv reg s'" by blast
  with assms(2) have "dom s' = None \<and> calls s' = calls s \<and> cells s' = cells s"
    by (auto simp: step_timer split: option.splits)
  with s TimerFire show ?thesis by simp
qed (use assms in \<open>simp_all add: step_gone\<close>)

lemma gone_run:
  assumes "inv reg s" and "dom s = None"
  shows "\<exists>s'. run reg s es = Inr s' \<and> inv reg s' \<and> dom s' = None \<and> calls s' = calls s
     \<and> cells s' = cells s"
  using assms
proof (induction es arbitrary: s)
  case Nil
  then show ?case by simp
next
  case (Cons e es)
  from gone_step [OF Cons.prems, of e] obtain s1 where
    "step reg s e = Inr s1" "inv reg s1" "dom s1 = None" "calls s1 = calls s"
    "cells s1 = cells s"
    by blast
  with Cons.IH [of s1] show ?case by auto
qed

lemma reachable_demo_gone: "reachable example_models demo_gone"
  using reachable_demo_live unfolding demo_gone_def
  by (rule reachable.reach_step [where e = Unmount]) (simp add: step.simps)

lemma demo_gone_phase [simp]: "phase_of demo_gone = Gone"
  by (simp add: demo_gone_def phase_of_iff)

text \<open>
  Property C28 (specification 4.1, transition 5; 8.6). The unmount is final. Unmounting
  the component in any state leaves none of its closures on the document, neither the
  timer nor the listener, and makes no call to the owner; and whatever events follow,
  the component stays unmounted, its flag is not written, the owner is not called, and
  the document holds none of its closures.
\<close>

theorem unmount_is_final:
  assumes "reachable reg s"
  shows "\<exists>s'. step reg s Unmount = Inr s' \<and> phase_of s' = Gone \<and> foreign (doc s')
     \<and> calls s' = calls s
     \<and> (\<forall>es. \<exists>s''. run reg s' es = Inr s'' \<and> phase_of s'' = Gone \<and> calls s'' = calls s
            \<and> cells s'' = cells s' \<and> foreign (doc s''))"
proof -
  from unmount_releases [OF reachable_inv [OF assms]] obtain s' where
    u: "step reg s Unmount = Inr s'" "inv reg s'" "phase_of s' = Gone" "foreign (doc s')"
    "calls s' = calls s" by blast
  have "\<exists>s''. run reg s' es = Inr s'' \<and> phase_of s'' = Gone \<and> calls s'' = calls s
      \<and> cells s'' = cells s' \<and> foreign (doc s'')" for es
    using gone_run [OF u(2), of es] u(3,5) by (auto simp: phase_of_iff inv_goneD)
  with u show ?thesis by blast
qed

theorem unmount_is_final_witness:
  "\<exists>s'. step example_models demo_live Unmount = Inr s' \<and> phase_of s' = Gone
     \<and> foreign (doc s') \<and> calls s' = []
     \<and> (\<forall>es. \<exists>s''. run example_models s' es = Inr s'' \<and> phase_of s'' = Gone \<and> calls s'' = []
            \<and> cells s'' = cells s' \<and> foreign (doc s''))"
  using unmount_is_final [OF reachable_demo_live] by simp

section \<open>The owner\<close>

lemma new_props_same:
  assumes "inv reg s" and "dom s \<noteq> None"
  shows "new_props reg (props s) s = s"
  using inv_mountedD [OF assms]
  by (cases s, cases "cells s") (simp add: new_props_def cells_ok_def)

text \<open>
  Property C9 (specification 3 and 6). The option handler is rebuilt when the owner
  passes a new callback: after a render with new props, a click on an option calls
  the new callback, with the id of the option clicked, and not the one the component
  was mounted with.
\<close>

theorem new_callback_is_used:
  assumes "reachable reg s" and "overlay_open s" and "i < length reg"
  shows "\<exists>s'. run reg s [SetProps p, Click (Inside [Suc 0, i])] = Inr s'
     \<and> calls s' = calls s @ [(onChange p, model_id (reg ! i))]"
proof -
  note inv = reachable_inv [OF assms(1)]
  from assms(2) have d: "dom s \<noteq> None" and o: "isOpen (cells s)"
    by (simp_all add: overlay_open_def)
  let ?s = "new_props reg p s"
  from inv d have 1: "step reg s (SetProps p) = Inr ?s" by (rule step_props)
  from inv d have inv': "inv reg ?s" by (rule inv_new_props)
  from o assms(3) have t: "target_ok ?s (Inside [Suc 0, i])"
    using target_ok_tree_of [of ?s reg p True i] by simp
  from inv' t have "step reg ?s (Click (Inside [Suc 0, i])) =
      Inr (close_panel reg (log_calls [(onChange (props ?s), model_id (reg ! i))] ?s))"
    by (intro step_click_row) simp_all
  with 1 show ?thesis by simp
qed

theorem new_callback_is_used_witness:
  "\<exists>s'. run example_models demo_live
       [SetProps \<lparr>value_p = ''b'', onChange = 9\<rparr>, Click (Inside [Suc 0, Suc 0])] = Inr s'
     \<and> calls s' = [(9, ''b'')]"
  using new_callback_is_used [OF reachable_demo_live, of "Suc 0" "\<lparr>value_p = ''b'', onChange = 9\<rparr>"]
  by (simp add: overlay_open_def example_models_def)

lemma calls_step:
  assumes "inv reg s" and "step reg s e = Inr s'"
  shows "calls s' = calls s \<or>
     (\<exists>i < length reg. calls s' = calls s @ [(onChange (props s), model_id (reg ! i))])"
  using assms by (cases rule: inv_step_cases) (auto simp: unmount_def split: option.splits)

text \<open>
  Property C32 (specification 6). Every id the component has handed to the owner is
  the id of an entry of the registry: the owner is never called with the raw
  \<open>value\<close> prop, with a label, or with an id that is not offered.
\<close>

theorem owner_gets_registry_ids:
  assumes "reachable reg s"
  shows "snd ` set (calls s) \<subseteq> model_id ` set reg"
  using assms
proof (induction rule: reachable.induct)
  case (reach_mount h p s)
  then show ?case by (auto dest!: mount_InrD)
next
  case (reach_step s e s')
  from calls_step [OF reachable_inv [OF reach_step.hyps(1)] reach_step.hyps(2)]
  have "set (calls s') \<subseteq> set (calls s) \<union> {onChange (props s)} \<times> model_id ` set reg"
    by auto
  then have "snd ` set (calls s') \<subseteq> snd ` set (calls s) \<union> model_id ` set reg"
    by fastforce
  with reach_step.IH show ?case by blast
qed

theorem owner_gets_registry_ids_witness:
  "calls demo_chosen = [(7, ''a'')]
     \<and> snd ` set (calls demo_chosen) \<subseteq> model_id ` set example_models"
  using owner_gets_registry_ids [OF reachable_demo_chosen]
  by (simp add: demo_chosen_def)

section \<open>Rendering again\<close>

text \<open>
  Property C33 (specification 5). Rendering a mounted component again with the
  props it has changes nothing: the tree is the same, the memoised handlers are kept,
  and the effect does not run, so no timer is queued and no listener is added or
  removed by a render that does not change the flag.
\<close>

theorem rerender_changes_nothing:
  assumes "reachable reg s" and "dom s \<noteq> None"
  shows "render reg s = Inr s"
proof -
  note i = reachable_inv [OF assms(1)]
  from render_new_props [OF i assms(2), of "props s"] show ?thesis
    by (simp add: new_props_same [OF i assms(2)])
qed

theorem rerender_changes_nothing_witness: "render example_models demo_live = Inr demo_live"
  using rerender_changes_nothing [OF reachable_demo_live] by simp

text \<open>
  The tree on the screen is always the render of the current props and of the current
  flag: the overlay is in the tree exactly when the flag holds, and it lists one row
  per entry of the registry.
\<close>

lemma screen_follows_flag:
  assumes "inv reg s" and "dom s = Some t"
  shows "t = tree_of reg (props s) (isOpen (cells s))
     \<and> length (overlay_rows t) = (if isOpen (cells s) then length reg else 0)"
  using inv_mountedD(2) [OF assms(1)] assms(2)
  by (simp add: overlay_rows_def tree_of_def)

section \<open>The listener's guard\<close>

text \<open>
  Property C34 (specification 4.1). Whenever the listener is registered both refs
  are attached, so its two null checks never decide: it asks for the overlay to be
  closed exactly when the target is neither inside the trigger nor inside the
  overlay.
\<close>

theorem listener_decides_by_region:
  assumes "reachable reg s" and "HandleClickOutside k \<in> set (listeners (doc s))"
  shows "handleClickOutside (cells s) tg = (if outside_both tg then [SetIsOpen False] else [])"
proof -
  note i = reachable_inv [OF assms(1)]
  from assms(2) have l: "own_listeners (doc s) \<noteq> []"
    by (auto simp: own_listeners_member [symmetric])
  have "phase_of s = Live"
  proof (cases "phase_of s")
    case Gone with inv_phaseD(1) [OF i] l show ?thesis by simp
  next
    case Closed with inv_phaseD(2) [OF i] l show ?thesis by simp
  next
    case Arming with inv_phaseD(3) [OF i] l show ?thesis by auto
  qed
  then have "dom s \<noteq> None" "isOpen (cells s)" by (simp_all add: phase_of_iff)
  with inv_mountedD(3) [OF i] show ?thesis
    by (simp add: handleClickOutside_attached cells_ok_def)
qed

theorem listener_decides_by_region_witness:
  "HandleClickOutside 0 \<in> set (listeners (doc demo_live))
     \<and> handleClickOutside (cells demo_live) Outside = [SetIsOpen False]
     \<and> handleClickOutside (cells demo_live) (Inside [0, Suc 0]) = []"
proof -
  have l: "HandleClickOutside 0 \<in> set (listeners (doc demo_live))"
    by (simp add: timer_callback_def addEventListener_def)
  from listener_decides_by_region [OF reachable_demo_live l, of Outside]
    listener_decides_by_region [OF reachable_demo_live l, of "Inside [0, Suc 0]"] l
  show ?thesis by (simp add: outside_both_def in_overlay_def)
qed

section \<open>Well-formed states\<close>

lemma refs_cleared:
  assumes "reachable reg s" and "dom s = None"
  shows "buttonRef (cells s) = None \<and> dropdownRef (cells s) = None"
  using assms
proof (induction rule: reachable.induct)
  case (reach_mount h p s)
  then show ?case by (auto dest!: mount_InrD)
next
  case (reach_step s e s')
  from reachable_inv [OF reach_step.hyps(1)] reach_step.hyps(2) show ?case
  proof (cases rule: inv_step_cases)
    case unmounted
    then show ?thesis by (auto simp: unmount_def)
  qed (use reach_step in \<open>auto\<close>)
qed

text \<open>
  Property C24 (specification 3 and 6). With unique ids every reachable state is well
  formed: the document has no timer id twice and no listener twice, the mounted tree is
  well formed, each ref of the component holds the position of the element that carries
  it (or nothing when no element does), and after the unmount both refs are cleared.
\<close>

theorem states_well_formed:
  assumes "ids_unique reg" and "reachable reg s"
  shows "host_ok (doc s) \<and>
     (case dom s of
        None \<Rightarrow> buttonRef (cells s) = None \<and> dropdownRef (cells s) = None
      | Some t \<Rightarrow> well_formed t \<and> buttonRef (cells s) = find_ref ButtonRef t
          \<and> dropdownRef (cells s) = find_ref DropdownRef t)"
proof (cases "dom s")
  case None
  with refs_cleared [OF assms(2)] reachable_inv [OF assms(2)] show ?thesis
    by (simp add: inv_def)
next
  case (Some t)
  with inv_mountedD [OF reachable_inv [OF assms(2)]] assms(1) show ?thesis
    by (simp add: cells_ok_def tree_of_def well_formed_view)
qed

theorem states_well_formed_witness:
  "host_ok (doc demo_live) \<and> well_formed (tree_of example_models demo_props True)
     \<and> buttonRef (cells demo_live) = Some [0] \<and> dropdownRef (cells demo_live) = Some [Suc 0]"
  using states_well_formed [OF ids_unique_example reachable_demo_live]
  by (simp add: tree_of_def)

end
