(* ===== verification/Refinement.thy ===== *)
theory Refinement
  imports Behaviour
begin

text \<open>
  The implementation refines the contract. \<open>abs_state\<close> maps a state of the run-time
  model to the state of the contract it stands for (its phase and the ids it has
  handed to the owner); \<open>gesture_of\<close> maps an event, in the state it arrives in, to
  the gesture it amounts to. Every step of \<open>Runtime.step\<close> from a reachable state is
  the step of \<open>Selector_Spec.astep\<close> on the abstractions, the mount gives the initial
  state of the contract, and so every run of events is a run of the contract on the
  gestures the events amount to.
\<close>

section \<open>The refinement mapping\<close>

definition abs_state :: "sys \<Rightarrow> selector" where
  "abs_state s = \<lparr>stage = phase_of s, told = map snd (calls s)\<rparr>"

definition click_gesture :: "registry \<Rightarrow> region \<Rightarrow> gesture" where
  "click_gesture reg r =
     (case r of
        Trigger \<Rightarrow> TriggerActivated
      | OptionRow i \<Rightarrow> OptionActivated (model_id (reg ! i))
      | _ \<Rightarrow> Nothing)"

fun gesture_of :: "registry \<Rightarrow> sys \<Rightarrow> event \<Rightarrow> gesture" where
  "gesture_of reg s (Click tg) =
     (if dom s \<noteq> None \<and> target_ok s tg then click_gesture reg (region_of tg) else Nothing)"
| "gesture_of reg s (MouseDown tg) =
     (if target_ok s tg \<and> outside_both tg then PressOutside else Nothing)"
| "gesture_of reg s (TimerFire t) =
     (if t \<in> set (map fst (own_timers (doc s))) then NextTurn else Nothing)"
| "gesture_of reg s (SetProps p) = Nothing"
| "gesture_of reg s Unmount = Destroyed"

fun gestures :: "registry \<Rightarrow> sys \<Rightarrow> event list \<Rightarrow> gesture list" where
  "gestures reg s [] = []"
| "gestures reg s (e # es) =
     gesture_of reg s e #
     (case step reg s e of Inl err \<Rightarrow> [] | Inr s' \<Rightarrow> gestures reg s' es)"

section \<open>One step\<close>

lemma abs_state_fields [simp]:
  "stage (abs_state s) = phase_of s" "told (abs_state s) = map snd (calls s)"
  by (simp_all add: abs_state_def)

lemma abs_state_eqI:
  "phase_of s' = next_stage (phase_of s) g \<Longrightarrow>
   map snd (calls s') = map snd (calls s) @ announced (phase_of s) g \<Longrightarrow>
   abs_state s' = astep (abs_state s) g"
  by (simp add: abs_state_def astep_def)

lemma phase_open_cases:
  "dom s \<noteq> None \<Longrightarrow> isOpen (cells s) \<Longrightarrow> phase_of s = Arming \<or> phase_of s = Live"
  by (auto simp: phase_of_def)

lemma phase_closed: "dom s \<noteq> None \<Longrightarrow> \<not> isOpen (cells s) \<Longrightarrow> phase_of s = Closed"
  by (auto simp: phase_of_def)

lemma refines_click:
  assumes "inv reg s" and "step reg s (Click tg) = Inr s'"
  shows "abs_state s' = astep (abs_state s) (gesture_of reg s (Click tg))"
proof (cases "dom s \<noteq> None \<and> target_ok s tg")
  case False
  with assms show ?thesis
    by (cases "dom s") (auto simp: step_gone step_no_target)
next
  case True
  then have d: "dom s \<noteq> None" and t: "target_ok s tg" by simp_all
  show ?thesis
  proof (cases "region_of tg")
    case Trigger
    show ?thesis
    proof (cases "isOpen (cells s)")
      case True
      with phase_open_cases [OF d] assms d t Trigger show ?thesis
        by (auto simp: step_click_trigger click_gesture_def intro!: abs_state_eqI)
    next
      case False
      with phase_closed [OF d] phase_open_panel_inv(1) [OF assms(1)] assms d t Trigger
      show ?thesis
        by (auto simp: step_click_trigger click_gesture_def intro!: abs_state_eqI)
    qed
  next
    case (OptionRow i)
    from row_target_open [OF assms(1) d t OptionRow] have "isOpen (cells s)" ..
    with phase_open_cases [OF d] assms d t OptionRow show ?thesis
      by (auto simp: step_click_row click_gesture_def intro!: abs_state_eqI)
  qed (use assms d t in \<open>auto simp: step_click_other click_gesture_def\<close>)
qed

lemma phase_kept [simp]:
  "phase_of (drop_timer t s) = phase_of s"
  "dom s \<noteq> None \<Longrightarrow> phase_of (new_props reg p s) = phase_of s"
  by (auto simp: phase_of_def drop_timer_def new_props_def)

lemma refines_mousedown:
  assumes "inv reg s" and "step reg s (MouseDown tg) = Inr s'"
  shows "abs_state s' = astep (abs_state s) (gesture_of reg s (MouseDown tg))"
proof (cases "dom s")
  case None
  with assms have "s' = s" and "stage (abs_state s) = Gone"
    by (simp_all add: step_gone phase_of_iff)
  then show ?thesis by (simp add: astep_Gone)
next
  case (Some tr)
  show ?thesis
  proof (cases "target_ok s tg")
    case False
    with assms show ?thesis by (simp add: step_no_target)
  next
    case True
    with assms Some show ?thesis
      by (cases "phase_of s") (auto simp: step_mousedown intro!: abs_state_eqI)
  qed
qed

lemma refines_timer:
  assumes "inv reg s" and "step reg s (TimerFire t) = Inr s'"
  shows "abs_state s' = astep (abs_state s) (gesture_of reg s (TimerFire t))"
proof (cases "t \<in> set (map fst (own_timers (doc s)))")
  case True
  then obtain k where m: "(t, AddMousedownListener k) \<in> set (timers (doc s))"
    by (auto simp: own_timers_member)
  from assms(1) have "host_ok (doc s)" by (simp add: inv_def)
  with m assms(2) have s': "s' = arm_detector t k s" by (simp add: step_timer_own)
  from own_timer_pendingD [OF assms(1) m] have p: "phase_of s = Arming" by simp
  then have "phase_of (arm_detector t k s) = Live"
    by (simp add: phase_arm_detector phase_of_iff)
  with True s' p show ?thesis
    by (intro abs_state_eqI) simp_all
next
  case False
  then have n: "(t, AddMousedownListener k) \<notin> set (timers (doc s))" for k
    by (force simp: own_timers_member [symmetric])
  from step_timer_cases [OF assms] n have "s' = s \<or> s' = drop_timer t s" by auto
  then have "abs_state s' = abs_state s"
    by (auto simp: abs_state_def)
  with False show ?thesis by simp
qed

lemma refines_step:
  assumes "inv reg s" and "step reg s e = Inr s'"
  shows "abs_state s' = astep (abs_state s) (gesture_of reg s e)"
proof (cases e)
  case (SetProps p)
  with assms have "s' = s \<or> (dom s \<noteq> None \<and> s' = new_props reg p s)"
    by (cases "dom s") (auto simp: step_gone step_props)
  then have "abs_state s' = abs_state s"
    by (auto simp: abs_state_def)
  with SetProps show ?thesis by simp
next
  case Unmount
  with assms show ?thesis
    by (auto simp: step.simps phase_of_iff intro!: abs_state_eqI)
qed (use assms in \<open>simp_all add: refines_click refines_mousedown refines_timer\<close>)

lemma refines_run:
  assumes "inv reg s" and "run reg s es = Inr s'"
  shows "abs_state s' = arun (abs_state s) (gestures reg s es)"
  using assms
proof (induction es arbitrary: s)
  case Nil
  then show ?case by simp
next
  case (Cons e es)
  from Cons.prems(2) obtain s1 where s1: "step reg s e = Inr s1" "run reg s1 es = Inr s'"
    by (auto simp: bind_result_eq_Inr_iff)
  from invD_step [OF Cons.prems(1) s1(1)] s1(2) have "abs_state s' = arun (abs_state s1) (gestures reg s1 es)"
    by (rule Cons.IH)
  with refines_step [OF Cons.prems(1) s1(1)] s1(1) show ?case by simp
qed

text \<open>
  Property C1 (specification 4.1, the state machine). Every event, in every reachable
  state, is handled without an error and moves the component as the contract moves on
  the gesture the event amounts to: the phase after the event is the phase the
  contract prescribes, and the owner has been told exactly what the contract
  announces.
\<close>

theorem step_refines_contract:
  assumes "reachable reg s"
  shows "\<exists>s'. step reg s e = Inr s' \<and> reachable reg s'
     \<and> abs_state s' = astep (abs_state s) (gesture_of reg s e)"
proof -
  note i = reachable_inv [OF assms]
  from inv_step [OF i, of e] obtain s' where s': "step reg s e = Inr s'" by blast
  from assms s' have "reachable reg s'" by (rule reachable.reach_step)
  moreover from i s' have "abs_state s' = astep (abs_state s) (gesture_of reg s e)"
    by (rule refines_step)
  ultimately show ?thesis using s' by simp
qed

theorem step_refines_contract_witness:
  "\<exists>s'. step example_models demo_live (Click (Inside [Suc 0, 0])) = Inr s'
     \<and> reachable example_models s'
     \<and> abs_state s' = astep (abs_state demo_live) (OptionActivated ''a'')
     \<and> astep (abs_state demo_live) (OptionActivated ''a'') = \<lparr>stage = Closed, told = [''a'']\<rparr>"
  using step_refines_contract [OF reachable_demo_live, of "Click (Inside [Suc 0, 0])"]
  by (simp add: click_gesture_def example_models_def astep_def)

text \<open>
  Property C14 (specification 4.1). A freshly mounted component is in the initial
  state of the contract, and every sequence of events from there runs to the end and
  ends in the state the contract reaches on the gestures of the run.
\<close>

theorem run_refines_contract:
  assumes "host_ok h" and "foreign h" and "reg \<noteq> []"
  shows "\<exists>s0 s'. mount reg p h = Inr s0 \<and> abs_state s0 = initial_selector
     \<and> run reg s0 es = Inr s'
     \<and> abs_state s' = arun initial_selector (gestures reg s0 es)"
proof -
  from assms have i: "inv reg (mounted reg p h)" by (simp add: inv_mounted)
  from inv_run [OF i, of es] obtain s' where r: "run reg (mounted reg p h) es = Inr s'"
    by blast
  have a: "abs_state (mounted reg p h) = initial_selector"
    by (simp add: abs_state_def initial_selector_def phase_of_iff)
  from refines_run [OF i r] r a assms(3) show ?thesis
    by (simp add: mount_eq)
qed

theorem run_refines_contract_witness:
  "\<exists>s0 s'. mount example_models demo_props empty_host = Inr s0
     \<and> abs_state s0 = initial_selector
     \<and> run example_models s0 [Click (Inside [0]), TimerFire 0, MouseDown Outside] = Inr s'
     \<and> abs_state s' = arun initial_selector
          (gestures example_models s0 [Click (Inside [0]), TimerFire 0, MouseDown Outside])"
  by (rule run_refines_contract) simp_all

end
