(* ===== verification/Deferred.thy ===== *)
theory Deferred
  imports Refinement
begin

text \<open>
  The component under a scheduler that runs effects later. \<open>Runtime.commit\<close> runs
  the effect of \<open>useEffect\<close> with the commit, which is what the rendering library
  does for an update that comes from a click. For other updates the library commits the
  tree and the refs first and runs the effect in a later task, at the latest before the
  next render; input events and timers can arrive in between. This theory models that
  schedule and shows that the component behaves the same under it.

  \<^item> \<open>commit_later\<close>, \<open>render_later\<close>, \<open>mount_later\<close>: the commit without the
    effect. A state whose effect cell does not hold the current flag is \<open>waiting\<close>
    for its effect.
  \<^item> \<open>settle\<close>: the waiting effect runs (cleanup of the last run, then the effect
    of the current flag); the identity on a state that is not waiting.
  \<^item> \<open>dstep\<close>: one task. \<open>Flush\<close> settles the state. An input event is dispatched
    on the state as it is (the listeners and timers that are on the document now, the
    refs of the last commit); if it makes the component render, the waiting effect runs
    first. \<open>drun\<close> is a sequence of tasks, \<open>dreachable\<close> the states a deferred mount
    and any tasks lead to.
  \<^item> \<open>dinv\<close>: the invariant. The settled state satisfies \<open>Runtime.inv\<close>; the
    document is well formed and the timer of the last cleanup is the component's; an open
    state that waits has no cleanup left to run; a closed state that waits holds at most
    one closure of the component.
  \<^item> \<open>defer_open\<close>, \<open>defer_close\<close>: the state after the commit that opened or
    closed the overlay, before its effect; \<open>demo_waiting\<close>, \<open>demo_stale\<close>: the
    scenario's state after the opening click with the timer not yet queued, and after a
    closing click with the listener still registered.

  The lemmas show, event by event, that a task either leaves the settled state alone (a
  flush, or a timer that fires while the effect waits) or is the step of \<open>Runtime.step\<close>
  on the settled states (\<open>dinv_dstep\<close>), so that a run of tasks is a run of the
  committed system on a subsequence of its inputs (\<open>dinv_drun\<close>) and moves the contract
  of \<open>Selector_Spec\<close> by a gesture or not at all (\<open>deferred_contract\<close>); that every
  state of the committed system is a state of this one (\<open>reachable_dreachable\<close>); and
  that a listener or timer that outlives the overlay until the cleanup runs does nothing:
  the listener finds \<open>dropdownRef\<close> empty, and the timer's listener is removed by the
  cleanup that was waiting.
\<close>

section \<open>Tasks and steps\<close>

datatype task = Input event | Flush

definition settle :: "sys \<Rightarrow> sys" where
  "settle s =
     (case dom s of
        None \<Rightarrow> s
      | Some t \<Rightarrow>
          (let f = flush_effect (cells s) (doc s) in s\<lparr>cells := fst f, doc := snd f\<rparr>))"

definition commit_later :: "sys \<Rightarrow> hooks \<times> tree \<Rightarrow> sys" where
  "commit_later s r = s\<lparr>cells := attach_refs (snd r) (fst r), dom := Some (snd r)\<rparr>"

definition render_later :: "registry \<Rightarrow> sys \<Rightarrow> sys result" where
  "render_later reg s =
     bind_result (ModelSelect reg (props s) (cells s)) (\<lambda>r. Inr (commit_later s r))"

definition mount_later :: "registry \<Rightarrow> ModelSelectProps \<Rightarrow> document \<Rightarrow> sys result" where
  "mount_later reg p h =
     render_later reg \<lparr>props = p, cells = initial_hooks, dom = None, doc = h, calls = []\<rparr>"

definition update_later :: "registry \<Rightarrow> action list \<Rightarrow> sys \<Rightarrow> sys result" where
  "update_later reg as s =
     (if isOpen (cells (apply_actions as s)) = isOpen (cells s) then Inr (apply_actions as s)
      else render_later reg (apply_actions as (settle s)))"

fun dstep :: "registry \<Rightarrow> sys \<Rightarrow> task \<Rightarrow> sys result" where
  "dstep reg s Flush = Inr (settle s)"
| "dstep reg s (Input (Click tg)) =
     (if target_ok s tg then update_later reg (on_click s tg) s else Inr s)"
| "dstep reg s (Input (MouseDown tg)) =
     (if target_ok s tg then update_later reg (on_mousedown s tg) s else Inr s)"
| "dstep reg s (Input (TimerFire t)) = step reg s (TimerFire t)"
| "dstep reg s (Input (SetProps p)) =
     (if dom s = None then Inr s else render_later reg ((settle s)\<lparr>props := p\<rparr>))"
| "dstep reg s (Input Unmount) = Inr (unmount (settle s))"

fun drun :: "registry \<Rightarrow> sys \<Rightarrow> task list \<Rightarrow> sys result" where
  "drun reg s [] = Inr s"
| "drun reg s (e # es) = bind_result (dstep reg s e) (\<lambda>s'. drun reg s' es)"

inductive dreachable :: "registry \<Rightarrow> sys \<Rightarrow> bool" for reg :: registry where
  dreach_mount: "host_ok h \<Longrightarrow> foreign h \<Longrightarrow> mount_later reg p h = Inr s \<Longrightarrow> dreachable reg s"
| dreach_step: "dreachable reg s \<Longrightarrow> dstep reg s e = Inr s' \<Longrightarrow> dreachable reg s'"

definition waiting :: "sys \<Rightarrow> bool" where
  "waiting s \<longleftrightarrow> dom s \<noteq> None \<and> effect_due (isOpen (cells s)) (outside_effect (cells s))"

definition dinv :: "registry \<Rightarrow> sys \<Rightarrow> bool" where
  "dinv reg s \<longleftrightarrow>
     inv reg (settle s) \<and> host_ok (doc s) \<and> timer_owned s
     \<and> (waiting s \<and> isOpen (cells s) \<longrightarrow> last_detector s = None)
     \<and> (waiting s \<and> \<not> isOpen (cells s) \<longrightarrow> subscriptions s \<le> 1)"

fun inputs :: "task list \<Rightarrow> event list" where
  "inputs [] = []"
| "inputs (Input ev # ts) = ev # inputs ts"
| "inputs (Flush # ts) = inputs ts"

section \<open>Commits written out, and example states\<close>

definition defer_open :: "registry \<Rightarrow> sys \<Rightarrow> sys" where
  "defer_open reg s =
     s\<lparr>cells := (cells s)\<lparr>isOpen := True, dropdownRef := Some [Suc 0],
            handleToggle_memo := Some (True, True)\<rparr>,
       dom := Some (tree_of reg (props s) True)\<rparr>"

definition defer_close :: "registry \<Rightarrow> sys \<Rightarrow> sys" where
  "defer_close reg s =
     s\<lparr>cells := (cells s)\<lparr>isOpen := False, dropdownRef := None,
            handleToggle_memo := Some (False, False)\<rparr>,
       dom := Some (tree_of reg (props s) False)\<rparr>"

definition demo_waiting :: sys where
  "demo_waiting = defer_open example_models demo_closed"

definition demo_stale :: sys where
  "demo_stale = defer_close example_models demo_live"

section \<open>Settling\<close>

lemma flush_effect_refs [simp]:
  "isOpen (fst (flush_effect hk h)) = isOpen hk"
  "buttonRef (fst (flush_effect hk h)) = buttonRef hk"
  "dropdownRef (fst (flush_effect hk h)) = dropdownRef hk"
  "handleToggle_memo (fst (flush_effect hk h)) = handleToggle_memo hk"
  "handleSelect_memo (fst (flush_effect hk h)) = handleSelect_memo hk"
  by (simp_all add: flush_effect_def Let_def)

lemma flush_effect_done:
  "map_option fst (outside_effect (fst (flush_effect hk h))) = Some (isOpen hk)"
  by (auto simp: flush_effect_def Let_def effect_due_def split: option.splits)

lemma settle_fields [simp]:
  "props (settle s) = props s" "dom (settle s) = dom s" "calls (settle s) = calls s"
  "isOpen (cells (settle s)) = isOpen (cells s)"
  "buttonRef (cells (settle s)) = buttonRef (cells s)"
  "dropdownRef (cells (settle s)) = dropdownRef (cells s)"
  by (simp_all add: settle_def Let_def split: option.splits)

lemma settle_gone [simp]: "dom s = None \<Longrightarrow> settle s = s"
  by (simp add: settle_def)

lemma settle_not_waiting: "\<not> waiting s \<Longrightarrow> settle s = s"
  by (auto simp: settle_def waiting_def flush_effect_def split: option.splits)

lemma not_waiting_settle [simp]: "\<not> waiting (settle s)"
  using flush_effect_done [of "cells s" "doc s"]
  by (auto simp: waiting_def settle_def Let_def effect_due_def split: option.splits)

lemma settle_idem [simp]: "settle (settle s) = settle s"
  by (simp add: settle_not_waiting)

lemma inv_not_waiting: "inv reg s \<Longrightarrow> \<not> waiting s"
  by (auto simp: waiting_def inv_def cells_ok_def effect_due_def split: option.splits)

lemma inv_settled: "inv reg s \<Longrightarrow> settle s = s"
  by (simp add: settle_not_waiting inv_not_waiting)

lemma settle_commit_later: "settle (commit_later s r) = commit s r"
  by (simp add: settle_def commit_later_def commit_def Let_def)

lemma ModelSelect_keeps:
  assumes "ModelSelect reg p hk = Inr r"
  shows "outside_effect (fst r) = outside_effect hk" and "isOpen (fst r) = isOpen hk"
    and "closures (fst r) = closures hk"
  using assms by (auto simp: ModelSelect_def Let_def bind_result_eq_Inr_iff)

lemma render_later_eq:
  "render_later reg s = Inr d \<longleftrightarrow>
     (\<exists>r. ModelSelect reg (props s) (cells s) = Inr r \<and> d = commit_later s r)"
  by (auto simp: render_later_def bind_result_eq_Inr_iff)

lemma commit_later_fields [simp]:
  "doc (commit_later s r) = doc s" "props (commit_later s r) = props s"
  "calls (commit_later s r) = calls s" "dom (commit_later s r) = Some (snd r)"
  "isOpen (cells (commit_later s r)) = isOpen (fst r)"
  "outside_effect (cells (commit_later s r)) = outside_effect (fst r)"
  by (simp_all add: commit_later_def attach_refs_def)

lemma render_later_InrD:
  assumes "render_later reg s = Inr d"
  shows "render reg s = Inr (settle d)" and "doc d = doc s"
    and "last_detector d = last_detector s" and "isOpen (cells d) = isOpen (cells s)"
    and "dom d \<noteq> None" and "props d = props s" and "calls d = calls s"
    and "waiting d \<longleftrightarrow> effect_due (isOpen (cells s)) (outside_effect (cells s))"
proof -
  from assms obtain r where r: "ModelSelect reg (props s) (cells s) = Inr r"
    and d: "d = commit_later s r"
    by (auto simp: render_later_eq)
  from r d show "render reg s = Inr (settle d)"
    by (simp add: render_def settle_commit_later)
  from d ModelSelect_keeps [OF r] show "doc d = doc s" "last_detector d = last_detector s"
    "isOpen (cells d) = isOpen (cells s)" "dom d \<noteq> None" "props d = props s"
    "calls d = calls s"
    "waiting d \<longleftrightarrow> effect_due (isOpen (cells s)) (outside_effect (cells s))"
    by (simp_all add: last_detector_def waiting_def)
qed

lemma render_later_total:
  "render reg s = Inr s' \<Longrightarrow> \<exists>d. render_later reg s = Inr d"
  by (auto simp: render_later_def render_def bind_result_eq_Inr_iff)

lemma settle_log_calls [simp]: "settle (log_calls cs s) = log_calls cs (settle s)"
  by (simp add: settle_def log_calls_def Let_def split: option.splits)

lemma target_ok_settle [simp]: "target_ok (settle s) tg = target_ok s tg"
  by (simp add: target_ok_def)

lemma on_click_settle [simp]: "on_click (settle s) tg = on_click s tg"
  by (simp add: on_click_def)

section \<open>A state whose effect has not run yet\<close>

lemma waiting_fields [simp]:
  "waiting (log_calls cs s) = waiting s" "waiting (drop_timer t s) = waiting s"
  "waiting (arm_detector t k s) = waiting s"
  by (simp_all add: waiting_def log_calls_def drop_timer_def arm_detector_def)

lemma subscriptions_log_calls [simp]: "subscriptions (log_calls cs s) = subscriptions s"
  by (simp add: subscriptions_def)

lemma last_detector_fields [simp]:
  "last_detector (log_calls cs s) = last_detector s"
  "last_detector (drop_timer t s) = last_detector s"
  "last_detector (arm_detector t k s) = last_detector s"
  by (simp_all add: last_detector_def log_calls_def drop_timer_def arm_detector_def)

lemma settle_waiting_closed:
  assumes "waiting s" and "\<not> isOpen (cells s)"
  shows "settle s = s\<lparr>cells := (cells s)\<lparr>outside_effect := Some (False, None)\<rparr>, doc := release s\<rparr>"
  using assms
  by (auto simp: waiting_def settle_def flush_effect_def release_def last_detector_def
      split: option.splits)

lemma settle_waiting_open:
  assumes "waiting s" and "isOpen (cells s)" and "last_detector s = None"
  shows "settle s =
     s\<lparr>cells := (cells s)\<lparr>outside_effect := Some (True, Some (next_timer (doc s), closures (cells s))),
            closures := Suc (closures (cells s))\<rparr>,
       doc := snd (setTimeout (AddMousedownListener (closures (cells s))) (doc s))\<rparr>"
  using assms
  by (auto simp: waiting_def settle_def flush_effect_def last_detector_def Let_def)

lemma inv_dinv: "inv reg s \<Longrightarrow> dinv reg s"
  by (simp add: dinv_def inv_settled inv_not_waiting) (simp add: inv_def)

lemma dinv_waiting_openD:
  assumes "dinv reg s" and "waiting s" and "isOpen (cells s)"
  shows "own_timers (doc s) = []" and "own_listeners (doc s) = []"
    and "last_detector s = None"
proof -
  from assms show n: "last_detector s = None" by (simp add: dinv_def)
  from assms have i: "inv reg (settle s)" and d: "dom s \<noteq> None"
    by (simp_all add: dinv_def waiting_def)
  from inv_openD [OF i] d assms(3)
  show "own_timers (doc s) = []" "own_listeners (doc s) = []"
    by (auto simp: settle_waiting_open [OF assms(2,3) n])
qed

lemma dinv_waiting_closedD:
  assumes "dinv reg s" and "waiting s" and "\<not> isOpen (cells s)"
  shows "own_timers (release s) = []" and "own_listeners (release s) = []"
proof -
  from assms have i: "inv reg (settle s)" and d: "dom s \<noteq> None"
    by (simp_all add: dinv_def waiting_def)
  from inv_closedD(2,3) [OF i] d assms(3)
  show "own_timers (release s) = []" "own_listeners (release s) = []"
    by (simp_all add: settle_waiting_closed [OF assms(2,3)])
qed

section \<open>Timers that fire before the effect ran\<close>

lemma clearTimeout_setTimeout:
  "t \<noteq> next_timer h \<Longrightarrow>
     clearTimeout t (snd (setTimeout c h)) = snd (setTimeout c (clearTimeout t h))"
  by (simp add: clearTimeout_def setTimeout_def)

lemma clearTimeout_cleanup: "cleanup c (clearTimeout t h) = clearTimeout t (cleanup c h)"
  by (rule host_eqI) (auto simp: cleanup_def intro: filter_cong)

lemma cleanup_absorbs: "cleanup (t, k) (timer_callback k (clearTimeout t h)) = cleanup (t, k) h"
  by (rule host_eqI) (auto simp: cleanup_def timer_callback_def)

lemma release_drop_timer: "release (drop_timer t s) = clearTimeout t (release s)"
  by (simp add: release_def clearTimeout_cleanup split: option.splits)

lemma timer_owned_fewer:
  assumes "timer_owned s" and "last_detector s' = last_detector s"
    and "set (timers (doc s')) \<subseteq> set (timers (doc s))"
  shows "timer_owned s'"
  using assms by (fastforce simp: timer_owned_def list_all_iff split: option.splits)

lemma settle_drop_timer:
  assumes "dinv reg s" and "(t, OtherTimer n) \<in> set (timers (doc s))"
  shows "settle (drop_timer t s) = drop_timer t (settle s)"
    and "(t, OtherTimer n) \<in> set (timers (doc (settle s)))"
proof -
  from assms(1) have h: "host_ok (doc s)" and o: "timer_owned s"
    by (simp_all add: dinv_def)
  have "settle (drop_timer t s) = drop_timer t (settle s)
      \<and> (t, OtherTimer n) \<in> set (timers (doc (settle s)))"
  proof (cases "waiting s")
    case False
    with assms(2) show ?thesis by (simp add: settle_not_waiting)
  next
    case True
    show ?thesis
    proof (cases "isOpen (cells s)")
      case op: True
      note n = dinv_waiting_openD(3) [OF assms(1) True op]
      from timer_id_bound [OF h assms(2)] have "t \<noteq> next_timer (doc s)" by simp
      moreover from True op n have w: "waiting (drop_timer t s)"
        "isOpen (cells (drop_timer t s))" "last_detector (drop_timer t s) = None"
        by simp_all
      ultimately show ?thesis
        using assms(2)
        unfolding settle_waiting_open [OF w] settle_waiting_open [OF True op n]
        by (simp add: drop_timer_def clearTimeout_setTimeout)
    next
      case cl: False
      from o assms(2) have "(t, OtherTimer n) \<in> set (timers (release s))"
        by (auto simp: timer_owned_def release_def list_all_iff split: option.splits)
      moreover from True cl have w: "waiting (drop_timer t s)"
        "\<not> isOpen (cells (drop_timer t s))"
        by simp_all
      ultimately show ?thesis
        unfolding settle_waiting_closed [OF w] settle_waiting_closed [OF True cl]
        by (simp add: release_drop_timer)
    qed
  qed
  then show "settle (drop_timer t s) = drop_timer t (settle s)"
    and "(t, OtherTimer n) \<in> set (timers (doc (settle s)))" by simp_all
qed

lemma settle_arm_detector:
  assumes "dinv reg s" and "waiting s" and "(t, AddMousedownListener k) \<in> set (timers (doc s))"
  shows "settle (arm_detector t k s) = settle s"
proof (cases "isOpen (cells s)")
  case True
  from dinv_waiting_openD(1) [OF assms(1,2) True] assms(3) show ?thesis
    by (simp flip: own_timers_member)
next
  case False
  from assms(3) have m: "(t, k) \<in> set (own_timers (doc s))" by (simp add: own_timers_member)
  from assms(1) have o: "timer_owned s" by (simp add: dinv_def)
  from dinv_waiting_closedD(1) [OF assms(1,2) False] m obtain c
    where c: "last_detector s = Some c" and "t = fst c"
    by (auto simp: release_def filter_eq_Nil_iff split: option.splits)
  with o assms(3) have "c = (t, k)"
    by (cases c) (auto simp: timer_owned_def list_all_iff)
  with c have "release (arm_detector t k s) = release s"
    by (simp add: release_def cleanup_absorbs)
  moreover from assms(2) False have w: "waiting (arm_detector t k s)"
    "\<not> isOpen (cells (arm_detector t k s))"
    by simp_all
  ultimately show ?thesis
    unfolding settle_waiting_closed [OF w] settle_waiting_closed [OF assms(2) False]
    by (simp add: arm_detector_def)
qed

lemma timer_later:
  assumes "dinv reg s"
  shows "\<exists>s'. step reg s (TimerFire t) = Inr s' \<and> dinv reg s' \<and>
     (waiting s \<and> settle s' = settle s \<or> step reg (settle s) (TimerFire t) = Inr (settle s'))"
proof (cases "waiting s")
  case False
  with assms have i: "inv reg s" by (simp add: dinv_def settle_not_waiting)
  from inv_step [OF i, of "TimerFire t"] show ?thesis
    by (auto simp: inv_settled [OF i] inv_settled inv_dinv)
next
  case True
  from assms have h: "host_ok (doc s)" and o: "timer_owned s" and i: "inv reg (settle s)"
    by (simp_all add: dinv_def)
  then have hs: "host_ok (doc (settle s))" by (simp add: inv_def)
  show ?thesis
  proof (cases "map_of (timers (doc s)) t")
    case None
    with assms True show ?thesis by (simp add: step_timer)
  next
    case (Some cb)
    with h have m: "(t, cb) \<in> set (timers (doc s))" by (simp add: map_of_timers)
    show ?thesis
    proof (cases cb)
      case (OtherTimer n)
      note d = settle_drop_timer [OF assms m [unfolded OtherTimer]]
      from other_timer_not_own [OF h m [unfolded OtherTimer]]
      have "subscriptions (drop_timer t s) = subscriptions s"
        by (simp add: subscriptions_def)
      with inv_drop_timer [OF i d(2)] h o assms True
      have "dinv reg (drop_timer t s)"
        by (auto simp: dinv_def d(1) intro: timer_owned_fewer)
      with m h d hs OtherTimer show ?thesis
        by (simp add: step_timer_other)
    next
      case (AddMousedownListener k)
      note a = settle_arm_detector [OF assms True m [unfolded AddMousedownListener]]
      from dinv_waiting_openD(1) [OF assms True] m AddMousedownListener
      have c: "\<not> isOpen (cells s)" by (auto simp flip: own_timers_member)
      from assms True c have "subscriptions s \<le> 1" by (simp add: dinv_def)
      with m [unfolded AddMousedownListener]
      have "own_timers (doc s) = [(t, k)] \<and> own_listeners (doc s) = []"
        by (cases "own_timers (doc s)")
           (auto simp: subscriptions_def simp flip: own_timers_member)
      then have "subscriptions (arm_detector t k s) \<le> 1"
        by (simp add: subscriptions_def)
      with h o i have "dinv reg (arm_detector t k s)"
        by (auto simp: dinv_def a c intro: timer_owned_fewer)
      with m h a True AddMousedownListener show ?thesis
        by (simp add: step_timer_own)
    qed
  qed
qed

section \<open>Input before the effect ran\<close>

lemma open_after:
  "isOpen (cells (apply_actions as s)) =
     (if dom s = None then isOpen (cells s) else final_open as (isOpen (cells s)))"
  by (simp add: apply_actions_mounted apply_actions_unmounted)

lemma apply_actions_same:
  assumes "isOpen (cells (apply_actions as s)) = isOpen (cells s)"
  shows "apply_actions as s = log_calls (new_calls as) s"
proof (cases "dom s")
  case None
  then show ?thesis by (simp add: apply_actions_unmounted)
next
  case (Some t)
  with assms have "final_open as (isOpen (cells s)) = isOpen (cells s)"
    by (simp add: open_after)
  with Some show ?thesis by (simp add: apply_actions_mounted)
qed

lemma dinv_log_calls [simp]: "dinv reg (log_calls cs s) = dinv reg s"
  by (simp add: dinv_def timer_owned_def cong: option.case_cong)

lemma render_flipped:
  assumes "inv reg s" and "dom s \<noteq> None" and "b \<noteq> isOpen (cells s)"
  shows "\<exists>s'. render reg (set_open b s) = Inr s' \<and> inv reg s'"
proof (cases b)
  case True
  with assms show ?thesis by (simp add: render_set_open_True inv_open_panel)
next
  case False
  with assms show ?thesis by (simp add: render_set_open_False inv_close_panel)
qed

lemma dinv_after_render:
  assumes "render_later reg x = Inr d" and "inv reg (settle d)"
    and "host_ok (doc x)" and "timer_owned x"
    and "isOpen (cells x) \<Longrightarrow> effect_due True (outside_effect (cells x))
           \<Longrightarrow> last_detector x = None"
    and "\<not> isOpen (cells x) \<Longrightarrow> effect_due False (outside_effect (cells x))
           \<Longrightarrow> subscriptions x \<le> 1"
  shows "dinv reg d"
  using assms(2-) render_later_InrD(2-) [OF assms(1)]
  by (auto simp: dinv_def subscriptions_def intro: timer_owned_fewer)

lemma update_later_sim:
  assumes "dinv reg s"
  shows "\<exists>s'. update_later reg as s = Inr s' \<and> dinv reg s' \<and>
     update reg as (settle s) = Inr (settle s')"
proof (cases "isOpen (cells (apply_actions as s)) = isOpen (cells s)")
  case True
  then have "isOpen (cells (apply_actions as (settle s))) = isOpen (cells (settle s))"
    by (auto simp: open_after split: if_splits)
  with True assms show ?thesis
    by (simp add: update_later_def update_def apply_actions_same)
next
  case False
  then have d: "dom s \<noteq> None" and b: "final_open as (isOpen (cells s)) \<noteq> isOpen (cells s)"
    by (auto simp: open_after split: if_splits)
  let ?y = "log_calls (new_calls as) (settle s)"
  let ?x = "set_open (final_open as (isOpen (cells s))) ?y"
  from assms have i: "inv reg ?y" by (simp add: dinv_def)
  from d have x: "apply_actions as (settle s) = ?x" by (simp add: apply_actions_mounted)
  from render_flipped [OF i, of "final_open as (isOpen (cells s))"] d b
  obtain s' where s': "render reg ?x = Inr s'" "inv reg s'" by auto
  from render_later_total [OF s'(1)] obtain r where r: "render_later reg ?x = Inr r" ..
  from render_later_InrD(1) [OF r] s' have e: "settle r = s'" by simp
  from i have "host_ok (doc ?x)" by (simp add: inv_def)
  moreover from i have "timer_owned ?y" by (simp add: inv_def)
  then have "timer_owned ?x"
    by (rule timer_owned_fewer) (simp_all add: last_detector_def set_open_def)
  moreover have "last_detector ?x = None" if "isOpen (cells ?x)"
    using that b inv_closedD(1) [OF i] d
    by (simp add: last_detector_def set_open_def log_calls_def)
  moreover from inv_subscriptions [OF i] have "subscriptions ?x \<le> 1"
    by (simp add: subscriptions_def set_open_def)
  ultimately have "dinv reg r"
    using r e s'(2) by (auto intro: dinv_after_render)
  with False r s' e b d x show ?thesis
    by (simp add: update_later_def update_mounted)
qed

lemma on_mousedown_later:
  assumes "dinv reg s"
  shows "on_mousedown s tg =
     (if isOpen (cells s) \<and> own_listeners (doc s) \<noteq> [] \<and> outside_both tg
      then [SetIsOpen False] else [])"
    and "on_mousedown (settle s) tg = on_mousedown s tg"
proof -
  from assms have i: "inv reg (settle s)" by (simp add: dinv_def)
  have "on_mousedown s tg =
     (if isOpen (cells s) \<and> own_listeners (doc s) \<noteq> [] \<and> outside_both tg
      then [SetIsOpen False] else []) \<and> on_mousedown (settle s) tg = on_mousedown s tg"
  proof (cases "waiting s")
    case False
    then have e: "settle s = s" by (rule settle_not_waiting)
    show ?thesis
    proof (cases "dom s")
      case None
      with i e show ?thesis
        by (simp add: on_mousedown_gone) (simp add: inv_def foreign_def)
    next
      case (Some t)
      with i e show ?thesis
        by (auto simp: on_mousedown_inv phase_of_def)
    qed
  next
    case True
    then have d: "dom s \<noteq> None" by (simp add: waiting_def)
    show ?thesis
    proof (cases "isOpen (cells s)")
      case op: True
      from dinv_waiting_openD [OF assms True op] i d op show ?thesis
        by (simp add: on_mousedown_inv on_mousedown_eq phase_of_def
            settle_waiting_open [OF True op] split: option.splits)
    next
      case cl: False
      from inv_mountedD(3) [OF i] d cl have "dropdownRef (cells s) = None"
        by (simp add: cells_ok_def)
      with i d cl show ?thesis
        by (simp add: on_mousedown_inv on_mousedown_eq phase_of_def split: option.splits)
    qed
  qed
  then show "on_mousedown s tg =
     (if isOpen (cells s) \<and> own_listeners (doc s) \<noteq> [] \<and> outside_both tg
      then [SetIsOpen False] else [])"
    and "on_mousedown (settle s) tg = on_mousedown s tg" by simp_all
qed

section \<open>Every step is a step of the committed system, or none\<close>

lemma props_later:
  assumes "dinv reg s" and "dom s \<noteq> None"
  shows "\<exists>s'. render_later reg ((settle s)\<lparr>props := p\<rparr>) = Inr s' \<and> dinv reg s' \<and>
     step reg (settle s) (SetProps p) = Inr (settle s')"
proof -
  let ?x = "(settle s)\<lparr>props := p\<rparr>"
  from assms have i: "inv reg (settle s)" and d: "dom (settle s) \<noteq> None"
    by (simp_all add: dinv_def)
  note n = render_new_props [OF i d, of p]
  from render_later_total [OF n] obtain r where r: "render_later reg ?x = Inr r" ..
  from render_later_InrD(1) [OF r] n have e: "settle r = new_props reg p (settle s)" by simp
  from i have "host_ok (doc ?x)" by (simp add: inv_def)
  moreover from i have "timer_owned (settle s)" by (simp add: inv_def)
  then have "timer_owned ?x"
    by (rule timer_owned_fewer) (simp_all add: last_detector_def)
  moreover from inv_not_waiting [OF i] d
  have "\<not> effect_due (isOpen (cells ?x)) (outside_effect (cells ?x))"
    by (auto simp: waiting_def)
  ultimately have "dinv reg r"
    using r e inv_new_props [OF i d, of p] by (auto intro!: dinv_after_render)
  with r e i d show ?thesis by (simp add: step_props)
qed

lemma dinv_dstep:
  assumes "dinv reg s"
  shows "\<exists>s'. dstep reg s e = Inr s' \<and> dinv reg s' \<and>
     ((e = Flush \<or> (\<exists>t. e = Input (TimerFire t) \<and> waiting s)) \<and> settle s' = settle s
      \<or> (\<exists>ev. e = Input ev \<and> step reg (settle s) ev = Inr (settle s')))"
proof (cases e)
  case Flush
  from assms have "inv reg (settle s)" by (simp add: dinv_def)
  then have "dinv reg (settle s)" by (rule inv_dinv)
  with Flush show ?thesis by simp
next
  case (Input ev)
  from assms have i: "inv reg (settle s)" by (simp add: dinv_def)
  show ?thesis
  proof (cases ev)
    case (Click tg)
    with Input assms update_later_sim [OF assms, of "on_click s tg"] show ?thesis
      by (auto simp: step.simps(1))
  next
    case (MouseDown tg)
    with Input assms update_later_sim [OF assms, of "on_mousedown s tg"] show ?thesis
      by (auto simp: step.simps(2) on_mousedown_later(2) [OF assms])
  next
    case (TimerFire t)
    with Input timer_later [OF assms, of t] show ?thesis by auto
  next
    case (SetProps p)
    with Input assms props_later [OF assms, of p] show ?thesis
      by (cases "dom s") (auto simp: step.simps(4))
  next
    case Unmount
    from inv_unmount [OF i] have "dinv reg (unmount (settle s))" by (rule inv_dinv)
    moreover from inv_unmount [OF i] have "settle (unmount (settle s)) = unmount (settle s)"
      by (rule inv_settled)
    ultimately show ?thesis using Input Unmount by (simp add: step.simps(5))
  qed
qed

lemma dinv_mount:
  assumes "host_ok h" and "foreign h" and "mount_later reg p h = Inr s"
  shows "dinv reg s" and "mount reg p h = Inr (settle s)"
proof -
  let ?x = "\<lparr>props = p, cells = initial_hooks, dom = None, doc = h, calls = []\<rparr>"
  from assms(3) have r: "render_later reg ?x = Inr s" by (simp add: mount_later_def)
  from render_later_InrD(1) [OF r] show m: "mount reg p h = Inr (settle s)"
    by (simp add: mount_def)
  with assms(1,2) have "inv reg (settle s)" by (auto dest!: mount_InrD simp: inv_mounted)
  with r assms(1,2) show "dinv reg s"
    by (auto intro!: dinv_after_render [OF r]
        simp: timer_owned_def last_detector_def initial_hooks_def subscriptions_def foreign_def)
qed

lemma dreachable_dinv: "dreachable reg s \<Longrightarrow> dinv reg s \<and> reachable reg (settle s)"
proof (induction rule: dreachable.induct)
  case (dreach_mount h p s)
  from dinv_mount [OF this] dreach_mount(1,2) show ?case
    by (auto intro: reachable.reach_mount)
next
  case (dreach_step s e s')
  with dinv_dstep [of reg s e] show ?case
    by (auto intro: reachable.reach_step)
qed

lemma dinv_drun:
  assumes "dinv reg s"
  shows "\<exists>s' evs. drun reg s ts = Inr s' \<and> dinv reg s' \<and> subseq evs (inputs ts)
     \<and> run reg (settle s) evs = Inr (settle s')"
  using assms
proof (induction ts arbitrary: s)
  case Nil
  then show ?case by (auto intro: exI [of _ "[]"])
next
  case (Cons e ts)
  from dinv_dstep [OF Cons.prems, of e] obtain s1 where s1: "dstep reg s e = Inr s1"
    "dinv reg s1"
    and c: "settle s1 = settle s \<or> (\<exists>ev. e = Input ev \<and> step reg (settle s) ev = Inr (settle s1))"
    by blast
  from Cons.IH [OF s1(2)] obtain s' evs where r: "drun reg s1 ts = Inr s'" "dinv reg s'"
    "subseq evs (inputs ts)" "run reg (settle s1) evs = Inr (settle s')"
    by blast
  from c show ?case
  proof
    assume "settle s1 = settle s"
    moreover from r(3) have "subseq evs (inputs (e # ts))"
      by (cases e) (auto intro: list_emb_Cons)
    ultimately show ?thesis using s1 r by auto
  next
    assume "\<exists>ev. e = Input ev \<and> step reg (settle s) ev = Inr (settle s1)"
    then obtain ev where "e = Input ev" "step reg (settle s) ev = Inr (settle s1)" by blast
    with s1 r show ?thesis
      by (auto intro!: exI [of _ "ev # evs"])
  qed
qed

section \<open>The committed system is a special case\<close>

lemma reachable_dreachable: "reachable reg s \<Longrightarrow> dreachable reg s"
proof (induction rule: reachable.induct)
  case (reach_mount h p s)
  from render_later_total [OF reach_mount(3) [unfolded mount_def]]
  obtain d where d: "mount_later reg p h = Inr d" by (auto simp: mount_later_def)
  from dinv_mount(2) [OF reach_mount(1,2) d] reach_mount(3) have "settle d = s" by simp
  moreover from reach_mount(1,2) d have "dreachable reg d" by (rule dreachable.dreach_mount)
  then have "dreachable reg (settle d)"
    by (rule dreachable.dreach_step [where e = Flush]) simp
  ultimately show ?case by simp
next
  case (reach_step s e s')
  note i = reachable_inv [OF reach_step(1)]
  from dinv_dstep [OF inv_dinv [OF i], of "Input e"] inv_not_waiting [OF i] reach_step(2)
  obtain d where d: "dstep reg s (Input e) = Inr d" "settle d = s'"
    by (auto simp: inv_settled [OF i])
  from reach_step(3) d(1) have "dreachable reg d" by (rule dreachable.dreach_step)
  then have "dreachable reg (settle d)"
    by (rule dreachable.dreach_step [where e = Flush]) simp
  with d(2) show ?case by simp
qed

section \<open>The toggle before the effect ran\<close>

declare dstep.simps [simp del]

lemma render_later_open:
  assumes "inv reg s" and "dom s \<noteq> None" and "\<not> isOpen (cells s)"
  shows "render_later reg (set_open True s) = Inr (defer_open reg s)"
proof -
  note c = inv_mountedD [OF assms(1,2)]
  from c(3) have "ModelSelect reg (props s) ((cells s)\<lparr>isOpen := True\<rparr>) =
      Inr ((cells s)\<lparr>isOpen := True, handleToggle_memo := Some (True, True)\<rparr>,
           tree_of reg (props s) True)"
    by (simp add: ModelSelect_fresh [OF c(1)] cells_ok_def)
  with c show ?thesis
    by (cases s, cases "cells s")
       (simp add: render_later_def set_open_def commit_later_def attach_refs_def
          defer_open_def cells_ok_def)
qed

lemma render_later_close:
  assumes "inv reg s" and "dom s \<noteq> None" and "isOpen (cells s)"
  shows "render_later reg (set_open False s) = Inr (defer_close reg s)"
proof -
  note c = inv_mountedD [OF assms(1,2)]
  from c(3) have "ModelSelect reg (props s) ((cells s)\<lparr>isOpen := False\<rparr>) =
      Inr ((cells s)\<lparr>isOpen := False, handleToggle_memo := Some (False, False)\<rparr>,
           tree_of reg (props s) False)"
    by (simp add: ModelSelect_fresh [OF c(1)] cells_ok_def)
  with c show ?thesis
    by (cases s, cases "cells s")
       (simp add: render_later_def set_open_def commit_later_def attach_refs_def
          defer_close_def cells_ok_def)
qed

lemma settle_defer:
  assumes "inv reg s" and "dom s \<noteq> None"
  shows "\<not> isOpen (cells s) \<Longrightarrow> settle (defer_open reg s) = open_panel reg s"
    and "isOpen (cells s) \<Longrightarrow> settle (defer_close reg s) = close_panel reg s"
  using render_later_InrD(1) [OF render_later_open [OF assms]]
    render_later_InrD(1) [OF render_later_close [OF assms]] assms
  by (simp_all add: render_set_open_True render_set_open_False)

lemma dstep_click_trigger:
  assumes "dinv reg s" and "dom s \<noteq> None" and "target_ok s tg" and "region_of tg = Trigger"
  shows "dstep reg s (Input (Click tg)) =
     Inr (if isOpen (cells s) then defer_close reg (settle s) else defer_open reg (settle s))"
proof -
  from assms(1) have i: "inv reg (settle s)" by (simp add: dinv_def)
  from on_click_inv [OF i, of tg] assms(2-)
  have "on_click s tg = handleToggle (isOpen (cells s))" by simp
  with assms(2,3) i show ?thesis
    by (simp add: dstep.simps update_later_def open_after apply_actions_mounted
        render_later_open render_later_close)
qed

lemma defer_fields [simp]:
  "doc (defer_open reg s) = doc s" "doc (defer_close reg s) = doc s"
  "isOpen (cells (defer_open reg s))" "\<not> isOpen (cells (defer_close reg s))"
  "dom (defer_open reg s) = Some (tree_of reg (props s) True)"
  "dom (defer_close reg s) = Some (tree_of reg (props s) False)"
  "calls (defer_open reg s) = calls s" "calls (defer_close reg s) = calls s"
  by (simp_all add: defer_open_def defer_close_def)

lemma dreachable_demo_waiting: "dreachable example_models demo_waiting"
proof -
  note i = reachable_inv [OF reachable_demo_closed]
  from dstep_click_trigger [OF inv_dinv [OF i], of "Inside [0]"]
  have "dstep example_models demo_closed (Input (Click (Inside [0]))) = Inr demo_waiting"
    by (simp add: inv_settled [OF i] demo_waiting_def)
  with reachable_dreachable [OF reachable_demo_closed] show ?thesis
    by (rule dreachable.dreach_step)
qed

lemma dreachable_demo_stale: "dreachable example_models demo_stale"
proof -
  note i = reachable_inv [OF reachable_demo_live]
  from dstep_click_trigger [OF inv_dinv [OF i], of "Inside [0]"]
  have "dstep example_models demo_live (Input (Click (Inside [0]))) = Inr demo_stale"
    by (simp add: inv_settled [OF i] demo_stale_def)
  with reachable_dreachable [OF reachable_demo_live] show ?thesis
    by (rule dreachable.dreach_step)
qed

lemma demo_deferred [simp]:
  "waiting demo_waiting" "overlay_open demo_waiting"
  "waiting demo_stale" "\<not> overlay_open demo_stale"
  by (simp_all add: waiting_def overlay_open_def demo_waiting_def demo_stale_def
      defer_open_def defer_close_def demo_closed_def demo_live_def demo_arming_def
      mounted_def open_panel_def arm_detector_def)

lemma demo_stale_listener: "listeners (doc demo_stale) = [HandleClickOutside 0]"
  by (simp add: demo_stale_def)

section \<open>The contract, and the document after the unmount\<close>

lemma deferred_contract:
  assumes "dinv reg s" and "dstep reg s e = Inr s'"
  shows "abs_state (settle s') = abs_state (settle s)
     \<or> (\<exists>ev. e = Input ev
           \<and> abs_state (settle s') = astep (abs_state (settle s)) (gesture_of reg (settle s) ev))"
proof -
  from assms(1) have i: "inv reg (settle s)" by (simp add: dinv_def)
  from dinv_dstep [OF assms(1), of e] assms(2) refines_step [OF i] show ?thesis
    by auto
qed

lemma overlay_open_settle [simp]: "overlay_open (settle s) = overlay_open s"
  by (simp add: overlay_open_def)

lemma deferred_gone:
  assumes "dinv reg s" and "dom s = None"
  shows "foreign (doc s)"
  using assms by (simp add: dinv_def inv_def)

text \<open>
  Property C3 (specification 5 and the open question of 9, event ordering). Under a
  scheduler that runs the effect in a later task, every task in every reachable state is
  handled without an error, and on the settled states it is the step of the committed
  system for the same input event; a flush, and a timer firing while the effect is still
  waiting, leave the settled state as it is. So the state the component is in once its
  effects have run is always a reachable state of the committed system.
\<close>

theorem deferred_refines_committed:
  assumes "dreachable reg s"
  shows "\<exists>s'. dstep reg s e = Inr s' \<and> dreachable reg s' \<and> reachable reg (settle s')
     \<and> ((e = Flush \<or> (\<exists>t. e = Input (TimerFire t) \<and> waiting s)) \<and> settle s' = settle s
        \<or> (\<exists>ev. e = Input ev \<and> step reg (settle s) ev = Inr (settle s')))"
proof -
  from dreachable_dinv [OF assms] have "dinv reg s" ..
  from dinv_dstep [OF this, of e] obtain s' where s': "dstep reg s e = Inr s'"
    and c: "(e = Flush \<or> (\<exists>t. e = Input (TimerFire t) \<and> waiting s)) \<and> settle s' = settle s
        \<or> (\<exists>ev. e = Input ev \<and> step reg (settle s) ev = Inr (settle s'))"
    by blast
  from assms s' have d: "dreachable reg s'" by (rule dreachable.dreach_step)
  from dreachable_dinv [OF d] s' d c show ?thesis by blast
qed

theorem deferred_refines_committed_witness:
  "\<exists>s'. dstep example_models demo_stale (Input (MouseDown Outside)) = Inr s'
     \<and> dreachable example_models s' \<and> reachable example_models (settle s')
     \<and> step example_models (settle demo_stale) (MouseDown Outside) = Inr (settle s')"
  using deferred_refines_committed [OF dreachable_demo_stale, of "Input (MouseDown Outside)"]
  by simp

text \<open>
  Property C17 (specification 8.6 and 9, no stale subscription). Under the deferred
  schedule the mousedown listener can still be registered after the overlay closed,
  until the cleanup runs. In every reachable state a press asks for a change only when
  the overlay is open, the listener is registered and the target is outside both the
  trigger and the overlay: a listener that outlived the overlay finds the overlay ref
  empty and asks for nothing. And whenever the overlay is not shown, the document holds
  neither listener nor timer of the component once the waiting effect has run.
\<close>

theorem stale_listener_asks_nothing:
  assumes "dreachable reg s"
  shows "on_mousedown s tg =
       (if isOpen (cells s) \<and> own_listeners (doc s) \<noteq> [] \<and> outside_both tg
        then [SetIsOpen False] else [])
     \<and> (\<not> overlay_open s \<longrightarrow> foreign (doc (settle s)))"
proof -
  from dreachable_dinv [OF assms] have d: "dinv reg s" ..
  then have i: "inv reg (settle s)" by (simp add: dinv_def)
  have "foreign (doc (settle s))" if "\<not> overlay_open s"
  proof (cases "dom s")
    case None
    with i show ?thesis by (simp add: inv_def)
  next
    case (Some t)
    with that inv_closedD(2,3) [OF i] show ?thesis
      by (simp add: overlay_open_def foreign_def)
  qed
  with on_mousedown_later(1) [OF d, of tg] show ?thesis by simp
qed

theorem stale_listener_asks_nothing_witness:
  "listeners (doc demo_stale) = [HandleClickOutside 0] \<and> outside_both Outside
     \<and> on_mousedown demo_stale Outside = [] \<and> foreign (doc (settle demo_stale))"
  using stale_listener_asks_nothing [OF dreachable_demo_stale, of Outside]
  by (simp add: demo_stale_def outside_both_def in_overlay_def overlay_open_def)

text \<open>
  Property C18 (specification 9: one subscription per open overlay, never more). Under
  the deferred schedule the document never holds more than one closure of the
  component. Once the effect has run it holds exactly one while the overlay is open
  and none otherwise; while the effect of an opening commit waits it holds none, and
  while the cleanup of a closing commit waits it holds at most the one of the overlay
  that closed.
\<close>

theorem deferred_at_most_one:
  assumes "dreachable reg s"
  shows "subscriptions s \<le> 1
     \<and> (\<not> waiting s \<longrightarrow> subscriptions s = (if overlay_open s then 1 else 0))
     \<and> (waiting s \<and> overlay_open s \<longrightarrow> subscriptions s = 0)"
proof (cases "waiting s")
  case False
  from dreachable_dinv [OF assms] False have "inv reg s"
    by (auto simp: dinv_def settle_not_waiting)
  from inv_subscriptions [OF this] False show ?thesis by simp
next
  case True
  from dreachable_dinv [OF assms] have d: "dinv reg s" ..
  show ?thesis
  proof (cases "isOpen (cells s)")
    case op: True
    from dinv_waiting_openD(1,2) [OF d True op] True show ?thesis
      by (simp add: subscriptions_def)
  next
    case False
    with d True show ?thesis by (simp add: dinv_def overlay_open_def)
  qed
qed

theorem deferred_at_most_one_witness:
  "waiting demo_waiting \<and> overlay_open demo_waiting \<and> subscriptions demo_waiting = 0
     \<and> waiting demo_stale \<and> subscriptions demo_stale \<le> 1"
  using deferred_at_most_one [OF dreachable_demo_waiting]
    deferred_at_most_one [OF dreachable_demo_stale]
  by simp

end
