(* ===== verification/Page.thy ===== *)
theory Page
  imports Refinement
begin

text \<open>
  Two selectors on one document. The specification asks for one subscription per open
  overlay instance on a pointer-event stream that is shared; \<open>Runtime\<close> has one
  selector and keeps the rest of the page as \<open>OtherListener\<close> and \<open>OtherTimer\<close>
  entries that no step adds to. Here the rest of the page contains a second instance of
  the component, which registers and removes closures of its own while the first runs.

  \<^item> \<open>swap\<close>: the document seen from the other side. What is \<open>HandleClickOutside k\<close>
    to one selector is the entry \<open>OtherListener (2 k + 1)\<close> of the rest of the page to
    the other, and likewise for the timers; the even entries are the rest of the page to
    both. \<open>swap\<close> is its own inverse and keeps timer ids and the counter of ids,
    which the two selectors share.
  \<^item> \<open>pair\<close>: the two selectors, each a \<open>sys\<close> whose document is its own view;
    \<open>sync\<close> gives the view of the one that acted, swapped, to the other.
  \<^item> \<open>pstep\<close>: one event on the page. A click goes to the selector whose tree it lands
    in (\<open>Within w p\<close>) and meets no handler elsewhere; a press goes to the listeners of
    both, each seeing the target as inside its own tree or outside (\<open>seen_by\<close>); a
    timer goes to the selector that queued it (\<open>timer_owner\<close>); new props and the
    unmount go to the selector named. \<open>at\<close> runs \<open>Runtime.step\<close> for one selector.
  \<^item> \<open>sound\<close>: the invariant of \<open>Runtime\<close> together with \<open>issued\<close>, which says
    that the timer id the cleanup holds has been handed out. An id that has been handed
    out is never handed out again, so a timer the other selector queues later cannot be
    the one this cleanup clears.
  \<^item> \<open>rely\<close>: what a selector needs of a change made by others to the document: the
    document stays well formed, the selector's own closures are as before, and timers
    that are new carry new ids. \<open>keeps_off\<close>: the event does not fire the other's
    timer.

  The composition is by rely and guarantee. A step of one selector changes the document
  in a way the other can rely on (\<open>guarantee\<close>), and a selector that was sound stays
  sound across a change it can rely on (\<open>rely_sound\<close>); so both stay sound
  (\<open>at_pinv\<close>, \<open>preachable_pinv\<close>), each event is a step of its contract for each
  selector (\<open>pinv_pstep\<close>), and an event aimed at one selector changes nothing of the
  other but its view of the document (\<open>aimed_elsewhere\<close>). A press is the one event
  that reaches both; \<open>pstep\<close> runs the listener of the first selector before that of
  the second, and \<open>press_order\<close> shows that the other order gives the same page.
\<close>

section \<open>The document seen from the other selector\<close>

fun swap_l :: "listener \<Rightarrow> listener" where
  "swap_l (HandleClickOutside k) = OtherListener (Suc (2 * k))"
| "swap_l (OtherListener n) = (if odd n then HandleClickOutside (n div 2) else OtherListener n)"

fun swap_t :: "timer_cb \<Rightarrow> timer_cb" where
  "swap_t (AddMousedownListener k) = OtherTimer (Suc (2 * k))"
| "swap_t (OtherTimer n) = (if odd n then AddMousedownListener (n div 2) else OtherTimer n)"

definition swap :: "document \<Rightarrow> document" where
  "swap h = map_host swap_l swap_t h"

section \<open>What a selector relies on, and what it guarantees\<close>

definition issued :: "sys \<Rightarrow> bool" where
  "issued s \<longleftrightarrow> (case last_detector s of None \<Rightarrow> True | Some c \<Rightarrow> fst c < next_timer (doc s))"

definition sound :: "registry \<Rightarrow> sys \<Rightarrow> bool" where
  "sound reg s \<longleftrightarrow> inv reg s \<and> issued s"

definition rely :: "document \<Rightarrow> document \<Rightarrow> bool" where
  "rely h h' \<longleftrightarrow>
     host_ok h' \<and> own_listeners h' = own_listeners h \<and> own_timers h' = own_timers h
     \<and> next_timer h \<le> next_timer h'
     \<and> list_all (\<lambda>x. x \<in> set (timers h) \<or> next_timer h \<le> fst x) (timers h')"

definition grows :: "document \<Rightarrow> document \<Rightarrow> bool" where
  "grows h h' \<longleftrightarrow>
     next_timer h \<le> next_timer h'
     \<and> list_all (\<lambda>x. x \<in> set (timers h) \<or> next_timer h \<le> fst x) (timers h')"

definition keeps_off :: "document \<Rightarrow> event \<Rightarrow> bool" where
  "keeps_off h e \<longleftrightarrow> (case e of TimerFire t \<Rightarrow> t \<notin> fst ` set (own_timers (swap h)) | _ \<Rightarrow> True)"

section \<open>The page\<close>

datatype who = First | Second

fun other :: "who \<Rightarrow> who" where
  "other First = Second"
| "other Second = First"

record pair =
  first :: sys
  second :: sys

fun get :: "who \<Rightarrow> pair \<Rightarrow> sys" where
  "get First ps = first ps"
| "get Second ps = second ps"

fun sync :: "who \<Rightarrow> sys \<Rightarrow> pair \<Rightarrow> pair" where
  "sync First s ps = \<lparr>first = s, second = (second ps)\<lparr>doc := swap (doc s)\<rparr>\<rparr>"
| "sync Second s ps = \<lparr>first = (first ps)\<lparr>doc := swap (doc s)\<rparr>, second = s\<rparr>"

definition at :: "registry \<Rightarrow> who \<Rightarrow> event \<Rightarrow> pair \<Rightarrow> pair result" where
  "at reg w ev ps = bind_result (step reg (get w ps) ev) (\<lambda>s. Inr (sync w s ps))"

definition timer_owner :: "pair \<Rightarrow> nat \<Rightarrow> who" where
  "timer_owner ps t =
     (if t \<in> fst ` set (own_timers (doc (first ps))) then First else Second)"

datatype page_target = Within who path | Beyond

fun seen_by :: "who \<Rightarrow> page_target \<Rightarrow> target" where
  "seen_by w (Within w' p) = (if w' = w then Inside p else Outside)"
| "seen_by w Beyond = Outside"

datatype page_event =
    ClickAt page_target
  | PressAt page_target
  | Fire nat
  | Rerender who ModelSelectProps
  | Remove who

fun pstep :: "registry \<Rightarrow> pair \<Rightarrow> page_event \<Rightarrow> pair result" where
  "pstep reg ps (ClickAt (Within w p)) = at reg w (Click (Inside p)) ps"
| "pstep reg ps (ClickAt Beyond) = Inr ps"
| "pstep reg ps (PressAt tg) =
     bind_result (at reg First (MouseDown (seen_by First tg)) ps)
       (at reg Second (MouseDown (seen_by Second tg)))"
| "pstep reg ps (Fire t) = at reg (timer_owner ps t) (TimerFire t) ps"
| "pstep reg ps (Rerender w p) = at reg w (SetProps p) ps"
| "pstep reg ps (Remove w) = at reg w Unmount ps"

fun prun :: "registry \<Rightarrow> pair \<Rightarrow> page_event list \<Rightarrow> pair result" where
  "prun reg ps [] = Inr ps"
| "prun reg ps (e # es) = bind_result (pstep reg ps e) (\<lambda>ps'. prun reg ps' es)"

definition pmount ::
  "registry \<Rightarrow> ModelSelectProps \<Rightarrow> ModelSelectProps \<Rightarrow> document \<Rightarrow> pair result" where
  "pmount reg p q h =
     bind_result (mount reg p h) (\<lambda>a.
     bind_result (mount reg q (swap (doc a))) (\<lambda>b.
       Inr \<lparr>first = a\<lparr>doc := swap (doc b)\<rparr>, second = b\<rparr>))"

inductive preachable :: "registry \<Rightarrow> pair \<Rightarrow> bool" for reg :: registry where
  preach_mount: "host_ok h \<Longrightarrow> foreign h \<Longrightarrow> foreign (swap h) \<Longrightarrow> pmount reg p q h = Inr ps
     \<Longrightarrow> preachable reg ps"
| preach_step: "preachable reg ps \<Longrightarrow> pstep reg ps e = Inr ps' \<Longrightarrow> preachable reg ps'"

definition pinv :: "registry \<Rightarrow> pair \<Rightarrow> bool" where
  "pinv reg ps \<longleftrightarrow>
     sound reg (first ps) \<and> sound reg (second ps) \<and> doc (second ps) = swap (doc (first ps))"

fun pgesture :: "registry \<Rightarrow> pair \<Rightarrow> who \<Rightarrow> page_event \<Rightarrow> gesture" where
  "pgesture reg ps w (ClickAt tg) = gesture_of reg (get w ps) (Click (seen_by w tg))"
| "pgesture reg ps w (PressAt tg) = gesture_of reg (get w ps) (MouseDown (seen_by w tg))"
| "pgesture reg ps w (Fire t) = gesture_of reg (get w ps) (TimerFire t)"
| "pgesture reg ps w (Rerender w' p) = Nothing"
| "pgesture reg ps w (Remove w') = (if w' = w then Destroyed else Nothing)"

definition demo_page0 :: pair where
  "demo_page0 = \<lparr>first = demo_closed, second = demo_closed\<rparr>"

definition demo_page :: pair where
  "demo_page = \<lparr>first = demo_live, second = demo_closed\<lparr>doc := swap (doc demo_live)\<rparr>\<rparr>"

section \<open>Mapping a document\<close>

lemma swap_l_swap_l [simp]: "swap_l (swap_l l) = l"
  by (cases l) auto

lemma swap_t_swap_t [simp]: "swap_t (swap_t c) = c"
  by (cases c) auto

lemma swap_swap [simp]: "swap (swap h) = h"
  by (simp add: swap_def map_host_comp map_host_id)

lemma inj_swap_l: "inj swap_l"
  by (rule inj_on_inverseI [where g = swap_l]) simp

lemma host_ok_swap [simp]: "host_ok (swap h) = host_ok h"
  by (simp add: swap_def host_ok_map_host inj_swap_l)

lemma swap_fields [simp]:
  "next_timer (swap h) = next_timer h"
  "listeners (swap h) = map swap_l (listeners h)"
  "timers (swap h) = map (\<lambda>x. (fst x, swap_t (snd x))) (timers h)"
  by (simp_all add: swap_def)

lemma own_listeners_swap:
  "own_listeners (swap h) = List.map_filter (own_listener \<circ> swap_l) (other_listeners h)"
proof -
  have "List.map_filter own_listener (map swap_l ls)
      = List.map_filter (own_listener \<circ> swap_l) (filter (\<lambda>l. own_listener l = None) ls)" for ls
    by (induction ls) (auto elim: own_listener.elims split: option.splits)
  then show ?thesis by (simp add: own_listeners_def other_listeners_def)
qed

lemma own_timers_swap:
  "own_timers (swap h) =
     List.map_filter (\<lambda>x. own_timer (fst x, swap_t (snd x))) (other_timers h)"
proof -
  have "List.map_filter own_timer (map (\<lambda>x. (fst x, swap_t (snd x))) ts)
      = List.map_filter (\<lambda>x. own_timer (fst x, swap_t (snd x)))
          (filter (\<lambda>x. own_timer x = None) ts)" for ts
    by (induction ts) (auto elim: own_timer.elims split: option.splits)
  then show ?thesis by (simp add: own_timers_def other_timers_def)
qed

section \<open>Rely and guarantee\<close>

lemma grows_refl [simp]: "grows h h"
  by (simp add: grows_def list_all_iff)

lemma grows_simps [simp]:
  "grows h (snd (setTimeout cb h))" "grows h (clearTimeout t h)" "grows h (cleanup c h)"
  "grows h (timer_callback k (clearTimeout t h))"
  by (auto simp: grows_def list_all_iff)

lemma step_grows:
  assumes "inv reg s" and "step reg s e = Inr s'"
  shows "grows (doc s) (doc s')"
  using assms
  by (cases rule: inv_step_cases)
     (auto simp: release_def doc_unmount split: option.splits)

lemma sound_step:
  assumes "sound reg s" and "step reg s e = Inr s'"
  shows "sound reg s'"
proof -
  from assms have i: "inv reg s" and u: "issued s" by (simp_all add: sound_def)
  from i assms(2) have "issued s'"
    by (cases rule: inv_step_cases)
       (use u in \<open>auto simp: issued_def last_detector_def open_panel_def close_panel_def
          arm_detector_def drop_timer_def new_props_def unmount_def log_calls_def
          split: option.splits\<close>)
  with invD_step [OF i assms(2)] show ?thesis by (simp add: sound_def)
qed

lemma sound_total: "sound reg s \<Longrightarrow> \<exists>s'. step reg s e = Inr s' \<and> sound reg s'"
  using inv_step [of reg s e] sound_step [of reg s e] by (auto simp: sound_def)

lemma rely_sound:
  assumes "sound reg s" and "rely (doc s) h"
  shows "sound reg (s\<lparr>doc := h\<rparr>)"
proof -
  from assms(1) have i: "inv reg s" and u: "issued s" by (simp_all add: sound_def)
  from u assms(2) have "issued (s\<lparr>doc := h\<rparr>)"
    by (auto simp: issued_def rely_def last_detector_def split: option.splits)
  moreover from i u assms(2) have "timer_owned (s\<lparr>doc := h\<rparr>)"
    by (fastforce simp: inv_def timer_owned_def issued_def rely_def last_detector_def
        list_all_iff split: option.splits)
  moreover from i assms(2) have "inv reg (s\<lparr>doc := h\<rparr>) \<or> \<not> timer_owned (s\<lparr>doc := h\<rparr>)"
    by (auto simp: inv_def rely_def foreign_def subscription_ok_def last_detector_def
        split: option.splits)
  ultimately show ?thesis by (auto simp: sound_def)
qed

lemma guarantee:
  assumes "inv reg s" and "step reg s e = Inr s'" and "keeps_off (doc s) e"
  shows "rely (swap (doc s)) (swap (doc s'))"
proof -
  from invD_step [OF assms(1,2)] have "host_ok (swap (doc s'))" by (simp add: inv_def)
  moreover from others_kept(1) [OF assms(1,2)]
  have "own_listeners (swap (doc s')) = own_listeners (swap (doc s))"
    by (simp add: own_listeners_swap)
  moreover have "own_timers (swap (doc s')) = own_timers (swap (doc s))"
  proof (cases e)
    case (TimerFire t)
    let ?f = "\<lambda>x. own_timer (fst x, swap_t (snd x))"
    from TimerFire others_kept(2) [OF assms(1,2)]
    have "own_timers (swap (doc s')) =
        List.map_filter ?f (filter (\<lambda>x. fst x \<noteq> t) (other_timers (doc s)))"
      by (simp add: own_timers_swap)
    also have "\<dots> = filter (\<lambda>y. fst y \<noteq> t) (List.map_filter ?f (other_timers (doc s)))"
      by (rule map_filter_filter) auto
    also from TimerFire assms(3) have "\<dots> = own_timers (swap (doc s))"
      by (auto simp: keeps_off_def own_timers_swap filter_id_conv)
    finally show ?thesis .
  qed (use others_kept(2) [OF assms(1,2)] in \<open>simp_all add: own_timers_swap\<close>)
  moreover from step_grows [OF assms(1,2)]
  have "grows (swap (doc s)) (swap (doc s'))"
    by (fastforce simp: grows_def list_all_iff)
  ultimately show ?thesis by (simp add: rely_def grows_def)
qed

section \<open>One selector acts, the other looks on\<close>

lemma get_sync [simp]:
  "get w (sync w s ps) = s"
  "get (other w) (sync w s ps) = (get (other w) ps)\<lparr>doc := swap (doc s)\<rparr>"
  by (cases w; simp)+

lemma other_other [simp]: "other (other w) = w" "other w \<noteq> w" "w \<noteq> other w"
  by (cases w; simp)+

lemma who_cases: "w' = w \<or> w' = other w"
  by (cases w; cases w') simp_all

lemma pinv_iff:
  "pinv reg ps \<longleftrightarrow>
     sound reg (get w ps) \<and> sound reg (get (other w) ps)
     \<and> doc (get (other w) ps) = swap (doc (get w ps))"
proof (cases w)
  case First
  then show ?thesis by (simp add: pinv_def)
next
  case Second
  have "doc (first ps) = swap (doc (second ps)) \<longleftrightarrow> doc (second ps) = swap (doc (first ps))"
    by (metis swap_swap)
  with Second show ?thesis by (auto simp: pinv_def)
qed

lemma phase_of_doc:
  "own_listeners h = own_listeners (doc s) \<Longrightarrow> phase_of (s\<lparr>doc := h\<rparr>) = phase_of s"
  by (simp add: phase_of_def)

lemma at_pinv:
  assumes "pinv reg ps" and "keeps_off (doc (get w ps)) ev"
  shows "\<exists>ps'. at reg w ev ps = Inr ps' \<and> pinv reg ps'
     \<and> step reg (get w ps) ev = Inr (get w ps')
     \<and> get (other w) ps' = (get (other w) ps)\<lparr>doc := swap (doc (get w ps'))\<rparr>
     \<and> phase_of (get (other w) ps') = phase_of (get (other w) ps)"
proof -
  from assms(1) have a: "sound reg (get w ps)" and b: "sound reg (get (other w) ps)"
    and d: "doc (get (other w) ps) = swap (doc (get w ps))"
    by (simp_all add: pinv_iff [of reg ps w])
  from sound_total [OF a, of ev] obtain s where s: "step reg (get w ps) ev = Inr s"
    "sound reg s" by blast
  from a have "inv reg (get w ps)" by (simp add: sound_def)
  from guarantee [OF this s(1) assms(2)] d
  have r: "rely (doc (get (other w) ps)) (swap (doc s))" by simp
  from rely_sound [OF b r] s(2)
  have "pinv reg (sync w s ps)"
    by (simp add: pinv_iff [of reg "sync w s ps" w])
  moreover from r have "phase_of ((get (other w) ps)\<lparr>doc := swap (doc s)\<rparr>)
      = phase_of (get (other w) ps)"
    by (intro phase_of_doc) (simp add: rely_def)
  ultimately show ?thesis using s(1) by (simp add: at_def)
qed

lemma abs_state_doc:
  "phase_of (s\<lparr>doc := h\<rparr>) = phase_of s \<Longrightarrow> abs_state (s\<lparr>doc := h\<rparr>) = abs_state s"
  by (simp add: abs_state_def)

lemma at_refines:
  assumes "pinv reg ps" and "keeps_off (doc (get w ps)) ev"
  shows "\<exists>ps'. at reg w ev ps = Inr ps' \<and> pinv reg ps'
     \<and> abs_state (get w ps') = astep (abs_state (get w ps)) (gesture_of reg (get w ps) ev)
     \<and> abs_state (get (other w) ps') = abs_state (get (other w) ps)
     \<and> dom (get (other w) ps') = dom (get (other w) ps)
     \<and> cells (get (other w) ps') = cells (get (other w) ps)
     \<and> props (get (other w) ps') = props (get (other w) ps)
     \<and> calls (get (other w) ps') = calls (get (other w) ps)"
proof -
  from at_pinv [OF assms] obtain ps' where p: "at reg w ev ps = Inr ps'" "pinv reg ps'"
    "step reg (get w ps) ev = Inr (get w ps')"
    "get (other w) ps' = (get (other w) ps)\<lparr>doc := swap (doc (get w ps'))\<rparr>"
    "phase_of (get (other w) ps') = phase_of (get (other w) ps)"
    by blast
  from assms(1) have "inv reg (get w ps)" by (simp add: pinv_iff [of reg ps w] sound_def)
  from refines_step [OF this p(3)] p show ?thesis
    by (auto simp: abs_state_def)
qed

lemma own_timers_apart:
  assumes "host_ok h" and "t \<in> fst ` set (own_timers h)"
  shows "t \<notin> fst ` set (own_timers (swap h))"
proof
  assume "t \<in> fst ` set (own_timers (swap h))"
  then obtain k where "(t, AddMousedownListener k) \<in> set (timers (swap h))"
    by (auto simp: own_timers_member)
  then obtain c where c: "(t, c) \<in> set (timers h)" "swap_t c = AddMousedownListener k"
    by auto
  from assms(2) obtain k' where "(t, AddMousedownListener k') \<in> set (timers h)"
    by (auto simp: own_timers_member)
  from timers_functional [OF assms(1) this c(1)] c(2) show False by auto
qed

lemma gesture_of_doc [simp]:
  "gesture_of reg (s\<lparr>doc := h\<rparr>) (MouseDown tg) = gesture_of reg s (MouseDown tg)"
  "gesture_of reg (s\<lparr>doc := h\<rparr>) (Click tg) = gesture_of reg s (Click tg)"
  by (simp_all add: target_ok_def)

lemma gesture_click_outside [simp]: "gesture_of reg s (Click Outside) = Nothing"
  by (simp add: click_gesture_def)

lemma timer_not_own:
  "t \<notin> fst ` set (own_timers (doc s)) \<Longrightarrow> gesture_of reg s (TimerFire t) = Nothing"
  by simp

lemma pinv_pstep:
  assumes "pinv reg ps"
  shows "\<exists>ps'. pstep reg ps e = Inr ps' \<and> pinv reg ps'
     \<and> abs_state (first ps') = astep (abs_state (first ps)) (pgesture reg ps First e)
     \<and> abs_state (second ps') = astep (abs_state (second ps)) (pgesture reg ps Second e)"
proof (cases e)
  case (ClickAt tg)
  show ?thesis
  proof (cases tg)
    case (Within w p)
    from at_refines [OF assms, of w "Click (Inside p)"] ClickAt Within show ?thesis
      by (cases w) (auto simp: keeps_off_def click_gesture_def)
  next
    case Beyond
    with ClickAt assms show ?thesis by (simp add: click_gesture_def)
  qed
next
  case (PressAt tg)
  from at_refines [OF assms, of First "MouseDown (seen_by First tg)"]
  obtain ps1 where 1: "at reg First (MouseDown (seen_by First tg)) ps = Inr ps1" "pinv reg ps1"
    "abs_state (first ps1) =
       astep (abs_state (first ps)) (gesture_of reg (first ps) (MouseDown (seen_by First tg)))"
    "abs_state (second ps1) = abs_state (second ps)" "dom (second ps1) = dom (second ps)"
    by (auto simp: keeps_off_def)
  from at_refines [OF 1(2), of Second "MouseDown (seen_by Second tg)"]
  obtain ps' where 2: "at reg Second (MouseDown (seen_by Second tg)) ps1 = Inr ps'"
    "pinv reg ps'"
    "abs_state (second ps') =
       astep (abs_state (second ps1)) (gesture_of reg (second ps1) (MouseDown (seen_by Second tg)))"
    "abs_state (first ps') = abs_state (first ps1)"
    by (auto simp: keeps_off_def)
  from 1(5) have "gesture_of reg (second ps1) (MouseDown (seen_by Second tg))
      = gesture_of reg (second ps) (MouseDown (seen_by Second tg))"
    by (simp add: target_ok_def)
  with PressAt 1 2 show ?thesis by simp
next
  case (Fire t)
  note gesture_of.simps(3) [simp del]
  from assms have h: "host_ok (doc (first ps))" and d: "doc (second ps) = swap (doc (first ps))"
    by (simp_all add: pinv_def sound_def inv_def)
  show ?thesis
  proof (cases "t \<in> fst ` set (own_timers (doc (first ps)))")
    case True
    from own_timers_apart [OF h True] d
    have n: "t \<notin> fst ` set (own_timers (doc (second ps)))" by simp
    with d have "keeps_off (doc (get First ps)) (TimerFire t)" by (simp add: keeps_off_def)
    from at_refines [OF assms this] Fire True timer_not_own [OF n] show ?thesis
      by (auto simp: timer_owner_def)
  next
    case False
    with d have "keeps_off (doc (get Second ps)) (TimerFire t)" by (simp add: keeps_off_def)
    from at_refines [OF assms this] Fire False timer_not_own [OF False] show ?thesis
      by (auto simp: timer_owner_def)
  qed
next
  case (Rerender w p)
  from at_refines [OF assms, of w "SetProps p"] Rerender show ?thesis
    by (cases w) (auto simp: keeps_off_def)
next
  case (Remove w)
  from at_refines [OF assms, of w Unmount] Remove show ?thesis
    by (cases w) (auto simp: keeps_off_def)
qed

lemma pinv_pstep_get:
  assumes "pinv reg ps"
  shows "\<exists>ps'. pstep reg ps e = Inr ps' \<and> pinv reg ps'
     \<and> (\<forall>w. abs_state (get w ps') = astep (abs_state (get w ps)) (pgesture reg ps w e))"
proof -
  from pinv_pstep [OF assms, of e] obtain ps' where p: "pstep reg ps e = Inr ps'" "pinv reg ps'"
    "abs_state (first ps') = astep (abs_state (first ps)) (pgesture reg ps First e)"
    "abs_state (second ps') = astep (abs_state (second ps)) (pgesture reg ps Second e)"
    by blast
  then have "abs_state (get w ps') = astep (abs_state (get w ps)) (pgesture reg ps w e)" for w
    by (cases w) simp_all
  with p(1,2) show ?thesis by blast
qed

section \<open>Reachable pages\<close>

lemma swap_empty [simp]: "swap empty_host = empty_host"
  by (simp add: swap_def)

lemma sound_mounted:
  "reg \<noteq> [] \<Longrightarrow> host_ok h \<Longrightarrow> foreign h \<Longrightarrow> sound reg (mounted reg p h)"
  by (simp add: sound_def inv_mounted) (simp add: issued_def last_detector_def mounted_def)

lemma pmount_InrD:
  assumes "pmount reg p q h = Inr ps"
  shows "reg \<noteq> []" and "ps = \<lparr>first = mounted reg p h, second = mounted reg q (swap h)\<rparr>"
proof -
  from assms obtain a b where a: "mount reg p h = Inr a" and b: "mount reg q (swap (doc a)) = Inr b"
    and ps: "ps = \<lparr>first = a\<lparr>doc := swap (doc b)\<rparr>, second = b\<rparr>"
    by (auto simp: pmount_def bind_result_eq_Inr_iff)
  from mount_InrD [OF a] show "reg \<noteq> []" by simp
  from mount_InrD [OF a] mount_InrD [OF b] ps
  show "ps = \<lparr>first = mounted reg p h, second = mounted reg q (swap h)\<rparr>"
    by (simp add: mounted_def)
qed

lemma pinv_mount:
  assumes "host_ok h" and "foreign h" and "foreign (swap h)" and "pmount reg p q h = Inr ps"
  shows "pinv reg ps"
  using pmount_InrD [OF assms(4)] assms(1-3)
  by (simp add: pinv_def sound_mounted)

lemma preachable_pinv: "preachable reg ps \<Longrightarrow> pinv reg ps"
proof (induction rule: preachable.induct)
  case (preach_mount h p q ps)
  then show ?case by (rule pinv_mount)
next
  case (preach_step ps e ps')
  with pinv_pstep [of reg ps e] show ?case by auto
qed

lemma preachable_demo_page0: "preachable example_models demo_page0"
proof -
  have "pmount example_models demo_props demo_props empty_host = Inr demo_page0"
    by (simp add: pmount_def mount_eq example_models_def demo_page0_def demo_closed_def
        mounted_def)
  then show ?thesis by (rule preachable.preach_mount [rotated 3]) simp_all
qed

lemma preachable_demo_page: "preachable example_models demo_page"
proof -
  let ?p1 = "sync First demo_arming demo_page0"
  have "pstep example_models demo_page0 (ClickAt (Within First [0])) = Inr ?p1"
    by (simp add: at_def demo_page0_def demo_steps)
  with preachable_demo_page0 have 1: "preachable example_models ?p1"
    by (rule preachable.preach_step)
  have "pstep example_models ?p1 (Fire 0) = Inr demo_page"
    by (simp add: at_def timer_owner_def demo_page0_def demo_page_def demo_steps
        own_timers_def List.map_filter_simps)
  with 1 show ?thesis by (rule preachable.preach_step)
qed

lemma aimed_elsewhere:
  assumes "pinv reg ps" and "pstep reg ps e = Inr ps'"
    and "e = ClickAt (Within w p) \<or> e = Rerender w q \<or> e = Remove w"
  shows "dom (get (other w) ps') = dom (get (other w) ps)"
    and "cells (get (other w) ps') = cells (get (other w) ps)"
    and "props (get (other w) ps') = props (get (other w) ps)"
    and "calls (get (other w) ps') = calls (get (other w) ps)"
    and "phase_of (get (other w) ps') = phase_of (get (other w) ps)"
proof -
  from assms(3) obtain ev where ev: "pstep reg ps e = at reg w ev ps"
    "keeps_off (doc (get w ps)) ev"
    by (auto simp: keeps_off_def)
  from at_pinv [OF assms(1) ev(2)] ev(1) assms(2)
  have "get (other w) ps' = (get (other w) ps)\<lparr>doc := swap (doc (get w ps'))\<rparr>"
    and "phase_of (get (other w) ps') = phase_of (get (other w) ps)"
    by auto
  then show "dom (get (other w) ps') = dom (get (other w) ps)"
    and "cells (get (other w) ps') = cells (get (other w) ps)"
    and "props (get (other w) ps') = props (get (other w) ps)"
    and "calls (get (other w) ps') = calls (get (other w) ps)"
    and "phase_of (get (other w) ps') = phase_of (get (other w) ps)"
    by simp_all
qed

section \<open>Two listeners on one press\<close>

lemma last_detector_doc [simp]: "last_detector (s\<lparr>doc := h\<rparr>) = last_detector s"
  by (simp add: last_detector_def)

lemma target_ok_doc [simp]: "target_ok (s\<lparr>doc := h\<rparr>) tg = target_ok s tg"
  by (simp add: target_ok_def)

lemma release_doc:
  "release (s\<lparr>doc := h\<rparr>) = (case last_detector s of None \<Rightarrow> h | Some c \<Rightarrow> cleanup c h)"
  by (simp add: release_def last_detector_def split: option.splits)

lemma close_panel_doc:
  "close_panel reg (s\<lparr>doc := h\<rparr>) = (close_panel reg s)\<lparr>doc := release (s\<lparr>doc := h\<rparr>)\<rparr>"
  by (simp add: close_panel_def)

lemma swap_cleanup:
  "swap (cleanup c (swap h))
     = removeEventListener (OtherListener (Suc (2 * snd c))) (clearTimeout (fst c) h)"
  by (simp add: cleanup_def swap_def map_host_removeEventListener map_host_clearTimeout
      inj_swap_l map_host_comp map_host_id)

lemma cleanup_apart:
  "swap (cleanup c (swap (cleanup c' h))) = cleanup c' (swap (cleanup c (swap h)))"
  by (simp add: swap_cleanup) (simp add: cleanup_def removals_commute)

lemma release_apart:
  "swap (release (b\<lparr>doc := swap (release a)\<rparr>))
     = release (a\<lparr>doc := swap (release (b\<lparr>doc := swap (doc a)\<rparr>))\<rparr>)"
  by (simp add: release_doc split: option.splits) (simp add: release_def cleanup_apart)

lemma get_sync_other [simp]: "get w (sync (other w) s ps) = (get w ps)\<lparr>doc := swap (doc s)\<rparr>"
  by (cases w) simp_all

lemma pair_eqI: "get w a = get w b \<Longrightarrow> get (other w) a = get (other w) b \<Longrightarrow> a = b"
  by (cases w) simp_all

lemma at_press:
  assumes "pinv reg ps"
  shows "at reg w (MouseDown tg) ps =
     Inr (sync w (if target_ok (get w ps) tg \<and> phase_of (get w ps) = Live \<and> outside_both tg
                  then close_panel reg (get w ps) else get w ps) ps)"
  using step_press [of reg "get w ps" tg] assms
  by (simp add: at_def pinv_iff [of reg ps w] sound_def)

lemma press_then_press:
  assumes "pinv reg ps"
  shows "bind_result (at reg w (MouseDown t) ps) (at reg (other w) (MouseDown u)) =
     Inr (let a = get w ps; b = get (other w) ps;
              a' = (if target_ok a t \<and> phase_of a = Live \<and> outside_both t
                    then close_panel reg a else a);
              b' = (if target_ok b u \<and> phase_of b = Live \<and> outside_both u
                    then close_panel reg (b\<lparr>doc := swap (doc a')\<rparr>)
                    else b\<lparr>doc := swap (doc a')\<rparr>)
          in sync (other w) b' (sync w a' ps))"
proof -
  from at_pinv [OF assms, of w "MouseDown t"] obtain p1 where
    1: "at reg w (MouseDown t) ps = Inr p1" "pinv reg p1"
    "phase_of (get (other w) p1) = phase_of (get (other w) ps)"
    by (auto simp: keeps_off_def)
  from 1(1) at_press [OF assms, of w t] at_press [OF 1(2), of "other w" u] 1(3)
  show ?thesis by (auto simp: Let_def)
qed

lemma press_order:
  assumes "pinv reg ps"
  shows "bind_result (at reg (other w) (MouseDown u) ps) (at reg w (MouseDown t))
       = bind_result (at reg w (MouseDown t) ps) (at reg (other w) (MouseDown u))"
proof -
  from assms have d: "doc (get (other w) ps) = swap (doc (get w ps))"
    by (simp add: pinv_iff [of reg ps w])
  then have e: "(get (other w) ps)\<lparr>doc := swap (doc (get w ps))\<rparr> = get (other w) ps"
    "(get w ps)\<lparr>doc := swap (doc (get (other w) ps))\<rparr> = get w ps"
    by simp_all
  note p = press_then_press [OF assms, of w t u]
    press_then_press [OF assms, of "other w" u t, unfolded other_other]
  show ?thesis
    unfolding p
    using release_apart [of "get (other w) ps" "get w ps"]
      release_apart [of "get w ps" "get (other w) ps"] e
    by (intro arg_cong [where f = Inr] pair_eqI [of w])
       (auto simp: Let_def close_panel_doc)
qed

lemma demo_page_phases [simp]:
  "phase_of (first demo_page) = Live" "phase_of (second demo_page) = Closed"
  "calls (first demo_page) = []" "calls (second demo_page) = []"
  "target_ok (first demo_page) Outside" "target_ok (second demo_page) (Inside [0])"
  "overlay_open (first demo_page)" "\<not> overlay_open (second demo_page)"
  by (simp_all add: demo_page_def phase_of_iff target_ok_def tree_of_def overlay_open_def)

text \<open>
  Property C4 (specification 5 and 9, the shared pointer-event stream). A page with
  two selectors on one document handles every event without an error, and each selector
  moves as its own contract moves on the gesture the event is for that selector: a press
  reaches both, a click only the selector it lands in, a timer only the selector that
  queued it, and what is none of a selector's business is no gesture to it.
\<close>

theorem page_refines_contracts:
  assumes "preachable reg ps"
  shows "\<exists>ps'. pstep reg ps e = Inr ps' \<and> preachable reg ps'
     \<and> abs_state (first ps') = astep (abs_state (first ps)) (pgesture reg ps First e)
     \<and> abs_state (second ps') = astep (abs_state (second ps)) (pgesture reg ps Second e)"
proof -
  from pinv_pstep [OF preachable_pinv [OF assms], of e] obtain ps' where
    p: "pstep reg ps e = Inr ps'"
    "abs_state (first ps') = astep (abs_state (first ps)) (pgesture reg ps First e)"
    "abs_state (second ps') = astep (abs_state (second ps)) (pgesture reg ps Second e)"
    by blast
  from assms p(1) have "preachable reg ps'" by (rule preachable.preach_step)
  with p show ?thesis by blast
qed

theorem page_refines_contracts_witness:
  "\<exists>ps'. pstep example_models demo_page (PressAt (Within Second [0])) = Inr ps'
     \<and> preachable example_models ps'
     \<and> abs_state (first ps') = \<lparr>stage = Closed, told = []\<rparr>
     \<and> abs_state (second ps') = \<lparr>stage = Closed, told = []\<rparr>"
  using page_refines_contracts [OF preachable_demo_page, of "PressAt (Within Second [0])"]
  by (simp add: abs_state_def astep_def outside_both_def in_overlay_def)

text \<open>
  Property C19 (specification 9: one subscription per open overlay instance). On a
  page with two selectors the two see the same document, each from its side; the
  document is well formed; and it holds exactly one closure of a selector while the
  overlay of that selector is open and none of that selector otherwise.
\<close>

theorem one_subscription_per_overlay:
  assumes "preachable reg ps"
  shows "doc (second ps) = swap (doc (first ps)) \<and> host_ok (doc (first ps))
     \<and> subscriptions (first ps) = (if overlay_open (first ps) then 1 else 0)
     \<and> subscriptions (second ps) = (if overlay_open (second ps) then 1 else 0)"
proof -
  from preachable_pinv [OF assms] have i: "inv reg (first ps)" "inv reg (second ps)"
    and d: "doc (second ps) = swap (doc (first ps))"
    by (simp_all add: pinv_def sound_def)
  from i(1) have "host_ok (doc (first ps))" by (simp add: inv_def)
  with d inv_subscriptions [OF i(1)] inv_subscriptions [OF i(2)] show ?thesis by blast
qed

theorem one_subscription_per_overlay_witness:
  "doc (second demo_page) = swap (doc (first demo_page))
     \<and> subscriptions (first demo_page) = 1 \<and> subscriptions (second demo_page) = 0"
  using one_subscription_per_overlay [OF preachable_demo_page]
  by simp

text \<open>
  Property C20 (specification 4.1, transitions 1 and 4, for two selectors). While the
  overlay of one selector is open with its listener registered and the other selector
  is closed, a press and a click on the trigger of the other closes the first and opens
  the second, and no owner is told anything: the press is outside the first selector,
  and the click is the second's alone.
\<close>

theorem opening_one_closes_other:
  assumes "preachable reg ps" and "phase_of (get w ps) = Live"
    and "phase_of (get (other w) ps) = Closed"
  shows "\<exists>ps'. prun reg ps [PressAt (Within (other w) [0]), ClickAt (Within (other w) [0])]
         = Inr ps'
     \<and> phase_of (get w ps') = Closed \<and> phase_of (get (other w) ps') = Arming
     \<and> told (abs_state (get w ps')) = told (abs_state (get w ps))
     \<and> told (abs_state (get (other w) ps')) = told (abs_state (get (other w) ps))"
proof -
  let ?o = "other w"
  note i = preachable_pinv [OF assms(1)]
  from pinv_pstep_get [OF i, of "PressAt (Within ?o [0])"] obtain ps1 where
    1: "pstep reg ps (PressAt (Within ?o [0])) = Inr ps1" "pinv reg ps1"
    and a1: "\<And>v. abs_state (get v ps1)
        = astep (abs_state (get v ps)) (pgesture reg ps v (PressAt (Within ?o [0])))"
    by blast
  from a1 [of w] assms(2) have w1: "abs_state (get w ps1) = (abs_state (get w ps))\<lparr>stage := Closed\<rparr>"
    by (simp add: astep_def target_ok_def outside_both_def in_overlay_def abs_state_def
        split: option.splits)
  from a1 [of ?o] have o1: "abs_state (get ?o ps1) = abs_state (get ?o ps)"
    by (simp add: outside_both_def)
  from pinv_pstep_get [OF 1(2), of "ClickAt (Within ?o [0])"] obtain ps' where
    2: "pstep reg ps1 (ClickAt (Within ?o [0])) = Inr ps'"
    and a2: "\<And>v. abs_state (get v ps')
        = astep (abs_state (get v ps1)) (pgesture reg ps1 v (ClickAt (Within ?o [0])))"
    by blast
  from 1(2) have "inv reg (get ?o ps1)" by (simp add: pinv_iff [of reg ps1 w] sound_def)
  moreover from o1 assms(3) have c: "phase_of (get ?o ps1) = Closed"
    by (simp add: abs_state_def)
  ultimately have "dom (get ?o ps1) \<noteq> None \<and> target_ok (get ?o ps1) (Inside [0])"
    using inv_mountedD(2) [of reg "get ?o ps1"] target_ok_tree_of [of "get ?o ps1"]
    by (auto simp: phase_of_iff)
  with a2 [of ?o] c have o2: "abs_state (get ?o ps') = (abs_state (get ?o ps1))\<lparr>stage := Arming\<rparr>"
    by (simp add: astep_def click_gesture_def abs_state_def)
  from a2 [of w] have w2: "abs_state (get w ps') = abs_state (get w ps1)"
    by (simp add: click_gesture_def)
  from w1 w2 o1 o2 have "phase_of (get w ps') = Closed \<and> phase_of (get ?o ps') = Arming
     \<and> told (abs_state (get w ps')) = told (abs_state (get w ps))
     \<and> told (abs_state (get ?o ps')) = told (abs_state (get ?o ps))"
    by (simp add: abs_state_def)
  with 1(1) 2 show ?thesis by simp
qed

theorem opening_one_closes_other_witness:
  "\<exists>ps'. prun example_models demo_page [PressAt (Within Second [0]), ClickAt (Within Second [0])]
         = Inr ps'
     \<and> phase_of (first ps') = Closed \<and> phase_of (second ps') = Arming
     \<and> told (abs_state (first ps')) = [] \<and> told (abs_state (second ps')) = []"
  using opening_one_closes_other [OF preachable_demo_page, of First]
  by (simp add: abs_state_def)

text \<open>
  Property C21 (specification 5 and 9, the shared pointer-event stream). A press runs
  the listeners of both selectors, and the page after it does not depend on which of
  the two runs first: each listener decides by its own refs, and the cleanups of the
  two remove different entries of the document. So the order in which the selectors
  registered their listeners is immaterial.
\<close>

theorem press_order_immaterial:
  assumes "preachable reg ps"
  shows "bind_result (at reg Second (MouseDown (seen_by Second tg)) ps)
           (at reg First (MouseDown (seen_by First tg)))
       = pstep reg ps (PressAt tg)"
  using press_order [OF preachable_pinv [OF assms], of First "seen_by Second tg" "seen_by First tg"]
  by simp

theorem press_order_immaterial_witness:
  "\<exists>ps'. bind_result (at example_models Second (MouseDown Outside) demo_page)
           (at example_models First (MouseDown Outside)) = Inr ps'
     \<and> pstep example_models demo_page (PressAt Beyond) = Inr ps'
     \<and> phase_of (first ps') = Closed \<and> phase_of (second ps') = Closed"
  using press_order_immaterial [OF preachable_demo_page, of Beyond]
    pinv_pstep [OF preachable_pinv [OF preachable_demo_page], of "PressAt Beyond"]
  by (auto simp: abs_state_def astep_def outside_both_def in_overlay_def)

end
