(* ===== verification/Event_Loop.thy ===== *)
theory Event_Loop
  imports Behaviour
begin

text \<open>
  The event loop between two inputs of the user. \<open>drain\<close> runs the timers that are
  pending, oldest first, until none is left: each is one \<open>TimerFire\<close> step of
  \<open>Runtime\<close>. Nothing the component does in a timer callback queues another timer, so
  the loop ends; the measure is the number of pending timers. When it has ended, an
  open overlay has its listener registered: the state in which the next press of the
  user is judged.
\<close>

section \<open>Running the pending timers\<close>

function drain :: "registry \<Rightarrow> sys \<Rightarrow> sys result" where
  "drain reg s =
     (case timers (doc s) of
        [] \<Rightarrow> Inr s
      | tc # r \<Rightarrow>
          (case step reg s (TimerFire (fst tc)) of
             Inl err \<Rightarrow> Inl err
           | Inr s' \<Rightarrow> drain reg s'))"
  by pat_completeness auto

definition settled :: "sys \<Rightarrow> bool" where
  "settled s \<longleftrightarrow> timers (doc s) = []"

definition after_idle :: "phase \<Rightarrow> phase" where
  "after_idle ph = (if ph = Arming then Live else ph)"

section \<open>The loop ends\<close>

lemma length_clearTimeout:
  "pending t h \<Longrightarrow> length (timers (clearTimeout t h)) < length (timers h)"
  by (auto simp: clearTimeout_def pending_def intro!: length_filter_less)

lemma timers_run_timer [simp]: "timers (run_timer cb h) = timers h"
  by (cases cb) simp_all

lemma step_timer_fewer:
  assumes "pending t (doc s)" and "step reg s (TimerFire t) = Inr s'"
  shows "length (timers (doc s')) < length (timers (doc s))"
  using assms length_clearTimeout [of t "doc s"]
  by (auto simp: step_timer pending_map_of)

termination drain
proof (relation "measure (\<lambda>(reg, s). length (timers (doc s)))")
  show "wf (measure (\<lambda>(reg, s). length (timers (doc s))))" by simp
next
  fix reg :: registry and s :: sys and tc r s'
  assume t: "timers (doc s) = tc # r" and s: "step reg s (TimerFire (fst tc)) = Inr s'"
  from t have "pending (fst tc) (doc s)" by (simp add: pending_def)
  from step_timer_fewer [OF this s]
  show "((reg, s'), (reg, s)) \<in> measure (\<lambda>(reg, s). length (timers (doc s)))" by simp
qed

declare drain.simps [simp del]

lemma drain_settled: "timers (doc s) = [] \<Longrightarrow> drain reg s = Inr s"
  by (simp add: drain.simps)

lemma drain_step:
  "timers (doc s) = tc # r \<Longrightarrow> step reg s (TimerFire (fst tc)) = Inr s' \<Longrightarrow>
     drain reg s = drain reg s'"
  by (simp add: drain.simps)

lemma after_idle_simps [simp]:
  "after_idle Arming = Live" "after_idle Live = Live" "after_idle Closed = Closed"
  "after_idle Gone = Gone" "after_idle (after_idle ph) = after_idle ph"
  by (simp_all add: after_idle_def)

lemma timer_step_phase:
  assumes "inv reg s" and "step reg s (TimerFire t) = Inr s'"
  shows "inv reg s' \<and> after_idle (phase_of s') = after_idle (phase_of s)
     \<and> calls s' = calls s \<and> cells s' = cells s \<and> dom s' = dom s"
proof -
  from step_timer_cases [OF assms]
  consider "s' = s"
    | k where "(t, AddMousedownListener k) \<in> set (timers (doc s))" "s' = arm_detector t k s"
    | n where "(t, OtherTimer n) \<in> set (timers (doc s))" "s' = drop_timer t s"
    by blast
  then show ?thesis
  proof cases
    case 1
    with assms(1) show ?thesis by simp
  next
    case 2
    from own_timer_pendingD [OF assms(1) 2(1)] have p: "phase_of s = Arming" by simp
    then have "phase_of (arm_detector t k s) = Live"
      by (simp add: phase_arm_detector phase_of_iff)
    with 2 p inv_arm_detector [OF assms(1) 2(1)] show ?thesis by simp
  next
    case 3
    have "phase_of (drop_timer t s) = phase_of s"
      by (simp add: phase_of_def drop_timer_def)
    with 3 inv_drop_timer [OF assms(1) 3(1)] show ?thesis by simp
  qed
qed

lemma drain_inv:
  assumes "inv reg s"
  shows "\<exists>s'. drain reg s = Inr s' \<and> inv reg s' \<and> timers (doc s') = []
     \<and> after_idle (phase_of s') = after_idle (phase_of s)
     \<and> calls s' = calls s \<and> cells s' = cells s \<and> dom s' = dom s"
  using assms
proof (induction reg s rule: drain.induct)
  case (1 reg s)
  show ?case
  proof (cases "timers (doc s)")
    case Nil
    with "1.prems" show ?thesis by (simp add: drain_settled)
  next
    case (Cons tc r)
    from inv_step_timer [OF "1.prems", of "fst tc"] obtain s1 where
      s1: "step reg s (TimerFire (fst tc)) = Inr s1" by blast
    note t = timer_step_phase [OF "1.prems" s1]
    from "1.IH" [OF Cons s1] t obtain s' where
      "drain reg s1 = Inr s'" "inv reg s'" "timers (doc s') = []"
      "after_idle (phase_of s') = after_idle (phase_of s1)"
      "calls s' = calls s1" "cells s' = cells s1" "dom s' = dom s1"
      by blast
    with t drain_step [OF Cons s1] show ?thesis by simp
  qed
qed

lemma drain_reachable:
  "reachable reg s \<Longrightarrow> drain reg s = Inr s' \<Longrightarrow> reachable reg s'"
proof (induction reg s rule: drain.induct)
  case (1 reg s)
  show ?case
  proof (cases "timers (doc s)")
    case Nil
    with "1.prems" show ?thesis by (simp add: drain_settled)
  next
    case (Cons tc r)
    from inv_step_timer [OF reachable_inv [OF "1.prems"(1)], of "fst tc"] obtain s1 where
      s1: "step reg s (TimerFire (fst tc)) = Inr s1" by blast
    from "1.prems"(1) s1 have "reachable reg s1" by (rule reachable.reach_step)
    with "1.IH" [OF Cons s1] "1.prems"(2) drain_step [OF Cons s1] show ?thesis by simp
  qed
qed

lemma settled_not_arming:
  assumes "inv reg s" and "timers (doc s) = []"
  shows "after_idle (phase_of s) = phase_of s"
proof (cases "phase_of s = Arming")
  case True
  from inv_phaseD(3) [OF assms(1) True] assms(2) show ?thesis
    by (auto simp: own_timers_def)
next
  case False
  then show ?thesis by (simp add: after_idle_def)
qed

text \<open>
  Property C15 (specification 5, the one-tick deferral). The event loop always runs
  dry: from every reachable state the pending timers, run one after the other, are
  used up after finitely many steps, none fails, and the component queues no timer
  from a timer. What is left is the state before the timers with the listener
  registered if the overlay is open; the flag, the tree and the calls to the owner
  are unchanged.
\<close>

theorem event_loop_drains:
  assumes "reachable reg s"
  shows "\<exists>s'. drain reg s = Inr s' \<and> reachable reg s' \<and> settled s'
     \<and> phase_of s' = after_idle (phase_of s)
     \<and> calls s' = calls s \<and> cells s' = cells s \<and> dom s' = dom s"
proof -
  from drain_inv [OF reachable_inv [OF assms]] obtain s' where
    d: "drain reg s = Inr s'" and i: "inv reg s'" and t: "timers (doc s') = []"
    and p: "after_idle (phase_of s') = after_idle (phase_of s)"
    and k: "calls s' = calls s" "cells s' = cells s" "dom s' = dom s"
    by blast
  from settled_not_arming [OF i t] p have "phase_of s' = after_idle (phase_of s)" by simp
  with d t k drain_reachable [OF assms d] show ?thesis by (simp add: settled_def)
qed

theorem event_loop_drains_witness:
  "\<exists>s'. drain example_models demo_arming = Inr s' \<and> reachable example_models s' \<and> settled s'
     \<and> phase_of s' = Live \<and> calls s' = [] \<and> cells s' = cells demo_arming
     \<and> dom s' = dom demo_arming"
  using event_loop_drains [OF reachable_demo_arming] by simp

text \<open>
  Property C16 (specification 4.1, transition 4, and the edge-case policy). An open
  overlay can always be dismissed: from every reachable state in which the overlay is
  open, once the event loop has run dry a press outside the trigger and the overlay
  closes it, without a call to the owner.
\<close>

theorem press_after_idle_closes:
  assumes "reachable reg s" and "overlay_open s" and "target_ok s tg" and "outside_both tg"
  shows "\<exists>s1 s2. drain reg s = Inr s1 \<and> step reg s1 (MouseDown tg) = Inr s2
     \<and> phase_of s2 = Closed \<and> calls s2 = calls s \<and> foreign (doc s2)"
proof -
  from drain_inv [OF reachable_inv [OF assms(1)]] obtain s1 where
    d: "drain reg s = Inr s1" and i: "inv reg s1" and t: "timers (doc s1) = []"
    and p: "after_idle (phase_of s1) = after_idle (phase_of s)"
    and k: "calls s1 = calls s" "cells s1 = cells s" "dom s1 = dom s"
    by blast
  from assms(2) have "after_idle (phase_of s) = Live"
    by (auto simp: overlay_open_def after_idle_def phase_of_def)
  with settled_not_arming [OF i t] p have l: "phase_of s1 = Live" by simp
  from live_open [OF l] have m: "dom s1 \<noteq> None" ..
  from assms(3) k have "target_ok s1 tg" by (simp add: target_ok_def)
  with i m l assms(4) k show ?thesis
    by (simp add: d step_mousedown foreign_def release_closed)
qed

theorem press_after_idle_closes_witness:
  "\<exists>s1 s2. drain example_models demo_arming = Inr s1 \<and> step example_models s1 (MouseDown Outside) = Inr s2
     \<and> phase_of s2 = Closed \<and> calls s2 = [] \<and> foreign (doc s2)"
  using press_after_idle_closes [OF reachable_demo_arming, of Outside]
  by (simp add: overlay_open_def outside_both_def in_overlay_def)

end
