(* ===== verification/Owner.thy ===== *)
theory Owner
  imports Behaviour
begin

text \<open>
  The selector together with its owner. The specification leaves the selected id to
  the owner: it is passed in as \<open>value\<close>, and a selection is reported through the
  callback. \<open>app\<close> is the smallest owner that closes this loop: it keeps the id,
  passes it down, and on a call of its callback stores the id it is given and renders
  the selector again with it.

  \<^item> \<open>deliver\<close> hands the calls logged since the last step to the owner: the last one
    wins (the updates of one event are batched), and the selector gets new props.
  \<^item> \<open>app_step\<close> is one input of the user: a step of the selector, then \<open>deliver\<close>.
  \<^item> \<open>app_reachable\<close> are the states after a mount and any inputs.

  The lemmas show that the selector inside a reachable \<open>app\<close> is a reachable selector
  whose \<open>value\<close> is what the owner holds, and that a selection ends up on the trigger.
\<close>

section \<open>The owner and the composed step\<close>

record app =
  selected :: string
  widget :: sys

datatype input = UserClick target | UserPress target | Tick nat

fun event_of :: "input \<Rightarrow> event" where
  "event_of (UserClick tg) = Click tg"
| "event_of (UserPress tg) = MouseDown tg"
| "event_of (Tick t) = TimerFire t"

definition fresh_calls :: "sys \<Rightarrow> sys \<Rightarrow> (callback \<times> string) list" where
  "fresh_calls w w' = drop (length (calls w)) (calls w')"

definition deliver :: "registry \<Rightarrow> app \<Rightarrow> sys \<Rightarrow> app result" where
  "deliver reg a w' =
     (case fresh_calls (widget a) w' of
        [] \<Rightarrow> Inr (a\<lparr>widget := w'\<rparr>)
      | c # cs \<Rightarrow>
          bind_result
            (step reg w' (SetProps ((props w')\<lparr>value_p := snd (last (c # cs))\<rparr>)))
            (\<lambda>w''. Inr \<lparr>selected = snd (last (c # cs)), widget = w''\<rparr>))"

definition app_step :: "registry \<Rightarrow> app \<Rightarrow> input \<Rightarrow> app result" where
  "app_step reg a i = bind_result (step reg (widget a) (event_of i)) (deliver reg a)"

fun app_run :: "registry \<Rightarrow> app \<Rightarrow> input list \<Rightarrow> app result" where
  "app_run reg a [] = Inr a"
| "app_run reg a (i # is) = bind_result (app_step reg a i) (\<lambda>a'. app_run reg a' is)"

definition app_mount :: "registry \<Rightarrow> string \<Rightarrow> callback \<Rightarrow> document \<Rightarrow> app result" where
  "app_mount reg v cb h =
     bind_result (mount reg \<lparr>value_p = v, onChange = cb\<rparr> h) (\<lambda>w. Inr \<lparr>selected = v, widget = w\<rparr>)"

definition trigger_label :: "sys \<Rightarrow> string option" where
  "trigger_label s = (case dom s of None \<Rightarrow> None | Some t \<Rightarrow> text_at t [0, Suc 0, 0])"

definition controlled :: "registry \<Rightarrow> app \<Rightarrow> bool" where
  "controlled reg a \<longleftrightarrow> reachable reg (widget a) \<and> value_p (props (widget a)) = selected a"

inductive app_reachable :: "registry \<Rightarrow> app \<Rightarrow> bool" for reg :: registry where
  app_mounted: "host_ok h \<Longrightarrow> foreign h \<Longrightarrow> app_mount reg v cb h = Inr a \<Longrightarrow> app_reachable reg a"
| app_stepped: "app_reachable reg a \<Longrightarrow> app_step reg a i = Inr a' \<Longrightarrow> app_reachable reg a'"

definition demo_app :: app where
  "demo_app = \<lparr>selected = ''b'', widget = demo_live\<rparr>"

section \<open>The selector inside the owner\<close>

lemma fresh_calls_simps [simp]:
  "fresh_calls w w = []"
  "calls w' = calls w @ cs \<Longrightarrow> fresh_calls w w' = cs"
  by (simp_all add: fresh_calls_def)

lemma deliver_none:
  "calls w' = calls (widget a) \<Longrightarrow> deliver reg a w' = Inr (a\<lparr>widget := w'\<rparr>)"
  by (simp add: deliver_def fresh_calls_def)

lemma deliver_one:
  assumes "inv reg w'" and "dom w' \<noteq> None" and "calls w' = calls (widget a) @ [(cb, v)]"
  shows "deliver reg a w' =
     Inr \<lparr>selected = v, widget = new_props reg ((props w')\<lparr>value_p := v\<rparr>) w'\<rparr>"
  using assms by (simp add: deliver_def step_props)

lemma trigger_label_tree_of:
  "dom s = Some (tree_of reg p b) \<Longrightarrow> trigger_label s = Some (shown reg (value_p p))"
  by (simp add: trigger_label_def tree_of_def)

lemma shown_unique:
  "ids_unique reg \<Longrightarrow> i < length reg \<Longrightarrow> shown reg (model_id (reg ! i)) = label (reg ! i)"
  by (simp add: shown_def currentModel_unique)

lemma props_unmount [simp]: "props (unmount s) = props s"
  by (simp add: unmount_def split: option.splits)

lemma input_keeps_props:
  assumes "inv reg s" and "step reg s (event_of i) = Inr s'"
  shows "props s' = props s"
proof (cases i)
  case (UserClick tg)
  with step_click_cases [OF assms(1), of tg s'] assms(2) show ?thesis by auto
next
  case (UserPress tg)
  with step_mousedown_cases [OF assms(1), of tg s'] assms(2) show ?thesis by auto
next
  case (Tick t)
  with step_timer_cases [OF assms(1), of t s'] assms(2) show ?thesis by auto
qed

lemma call_means_mounted:
  assumes "inv reg s" and "step reg s e = Inr s'" and "calls s' \<noteq> calls s"
  shows "dom s' \<noteq> None"
  using assms(1,2)
proof (cases rule: inv_step_cases)
  case stutter
  with assms(3) show ?thesis by simp
next
  case (armed t k)
  with assms(3) show ?thesis by simp
next
  case (dropped t n)
  with assms(3) show ?thesis by simp
next
  case unmounted
  with assms(3) show ?thesis by simp
qed simp_all

lemma deliver_cases:
  assumes "reachable reg w'" and "deliver reg a w' = Inr a'"
  shows "(fresh_calls (widget a) w' = [] \<and> a' = a\<lparr>widget := w'\<rparr>)
     \<or> (\<exists>c cs. fresh_calls (widget a) w' = c # cs
          \<and> step reg w' (SetProps ((props w')\<lparr>value_p := snd (last (c # cs))\<rparr>)) = Inr (widget a')
          \<and> selected a' = snd (last (c # cs)))"
proof (cases "fresh_calls (widget a) w'")
  case Nil
  with assms(2) show ?thesis by (simp add: deliver_def)
next
  case (Cons c cs)
  with assms(2) show ?thesis
    by (auto simp: deliver_def bind_result_eq_Inr_iff)
qed

lemma controlled_step:
  assumes "controlled reg a" and "app_step reg a i = Inr a'"
  shows "controlled reg a'"
proof -
  from assms(1) have r: "reachable reg (widget a)" and v: "value_p (props (widget a)) = selected a"
    by (simp_all add: controlled_def)
  from assms(2) obtain w' where w': "step reg (widget a) (event_of i) = Inr w'"
    and d: "deliver reg a w' = Inr a'"
    by (auto simp: app_step_def bind_result_eq_Inr_iff)
  from r w' have r': "reachable reg w'" by (rule reachable.reach_step)
  from deliver_cases [OF r' d] show ?thesis
  proof
    assume "fresh_calls (widget a) w' = [] \<and> a' = a\<lparr>widget := w'\<rparr>"
    with r' v input_keeps_props [OF reachable_inv [OF r] w'] show ?thesis
      by (simp add: controlled_def)
  next
    assume "\<exists>c cs. fresh_calls (widget a) w' = c # cs
      \<and> step reg w' (SetProps ((props w')\<lparr>value_p := snd (last (c # cs))\<rparr>)) = Inr (widget a')
      \<and> selected a' = snd (last (c # cs))"
    then obtain c cs where f: "fresh_calls (widget a) w' = c # cs"
      and s: "step reg w' (SetProps ((props w')\<lparr>value_p := snd (last (c # cs))\<rparr>)) = Inr (widget a')"
      and e: "selected a' = snd (last (c # cs))"
      by blast
    from f have "calls w' \<noteq> calls (widget a)" by (auto simp: fresh_calls_def)
    from call_means_mounted [OF reachable_inv [OF r] w' this] have m: "dom w' \<noteq> None" .
    from step_props [OF reachable_inv [OF r'] m] s
    have "widget a' = new_props reg ((props w')\<lparr>value_p := snd (last (c # cs))\<rparr>) w'"
      by simp
    then have "value_p (props (widget a')) = snd (last (c # cs))" by simp
    with e reachable.reach_step [OF r' s] show ?thesis by (simp add: controlled_def)
  qed
qed

lemma app_reachable_controlled: "app_reachable reg a \<Longrightarrow> controlled reg a"
proof (induction rule: app_reachable.induct)
  case (app_mounted h v cb a)
  then obtain w where w: "mount reg \<lparr>value_p = v, onChange = cb\<rparr> h = Inr w"
    and a: "a = \<lparr>selected = v, widget = w\<rparr>"
    by (auto simp: app_mount_def bind_result_eq_Inr_iff)
  from app_mounted(1,2) w have "reachable reg w" by (rule reachable.reach_mount)
  with w a show ?case by (auto simp: controlled_def dest!: mount_InrD)
next
  case (app_stepped a i a')
  then show ?case by (auto intro: controlled_step)
qed

lemma app_reachable_demo: "app_reachable example_models demo_app"
proof -
  let ?a0 = "\<lparr>selected = ''b'', widget = demo_closed\<rparr>"
  let ?a1 = "\<lparr>selected = ''b'', widget = demo_arming\<rparr>"
  have "app_mount example_models ''b'' 7 empty_host = Inr ?a0"
    by (simp add: app_mount_def mount_eq demo_closed_def demo_props_def)
  then have 0: "app_reachable example_models ?a0"
    by (rule app_reachable.app_mounted [rotated 2]) simp_all
  have "app_step example_models ?a0 (UserClick (Inside [0])) = Inr ?a1"
    by (simp add: app_step_def demo_steps deliver_none)
  with 0 have 1: "app_reachable example_models ?a1" by (rule app_reachable.app_stepped)
  have "app_step example_models ?a1 (Tick 0) = Inr demo_app"
    by (simp add: app_step_def demo_steps deliver_none demo_app_def)
  with 1 show ?thesis by (rule app_reachable.app_stepped)
qed

section \<open>A selection comes back as the value\<close>

text \<open>
  Property C22 (specification 3 and 8.4, with the owner of section 3). With unique
  ids, a click on the row of the \<open>i\<close>-th option makes the owner hold the id of that
  option and the trigger show its label: the selector calls the owner once, the owner
  stores the id and renders the selector with it, and the overlay is closed.
\<close>

theorem selection_reaches_trigger:
  assumes "ids_unique reg" and "app_reachable reg a" and "overlay_open (widget a)"
    and "i < length reg"
  shows "\<exists>a'. app_step reg a (UserClick (Inside [Suc 0, i])) = Inr a'
     \<and> selected a' = model_id (reg ! i)
     \<and> trigger_label (widget a') = Some (label (reg ! i))
     \<and> phase_of (widget a') = Closed
     \<and> calls (widget a') = calls (widget a) @ [(onChange (props (widget a)), model_id (reg ! i))]"
proof -
  let ?w = "widget a"
  let ?c = "(onChange (props ?w), model_id (reg ! i))"
  let ?w' = "close_panel reg (log_calls [?c] ?w)"
  let ?p = "(props ?w')\<lparr>value_p := model_id (reg ! i)\<rparr>"
  from app_reachable_controlled [OF assms(2)] have r: "reachable reg ?w"
    by (simp add: controlled_def)
  note inv = reachable_inv [OF r]
  from assms(3) have d: "dom ?w \<noteq> None" and o: "isOpen (cells ?w)"
    by (simp_all add: overlay_open_def)
  from inv_mountedD(2) [OF inv d] o assms(4) have t: "target_ok ?w (Inside [Suc 0, i])"
    using target_ok_tree_of [of ?w reg "props ?w" True i] by simp
  from inv d t have s: "step reg ?w (Click (Inside [Suc 0, i])) = Inr ?w'"
    by (intro step_click_row) simp_all
  from r s have "reachable reg ?w'" by (rule reachable.reach_step)
  then have "deliver reg a ?w' = Inr \<lparr>selected = model_id (reg ! i), widget = new_props reg ?p ?w'\<rparr>"
    by (intro deliver_one reachable_inv) simp_all
  with s assms(1,4) show ?thesis
    by (simp add: app_step_def trigger_label_tree_of shown_unique phase_of_iff)
qed

theorem selection_reaches_trigger_witness:
  "\<exists>a'. app_step example_models demo_app (UserClick (Inside [Suc 0, 0])) = Inr a'
     \<and> selected a' = ''a'' \<and> trigger_label (widget a') = Some ''Alpha''
     \<and> phase_of (widget a') = Closed \<and> calls (widget a') = [(7, ''a'')]"
  using selection_reaches_trigger [OF ids_unique_example app_reachable_demo, of 0]
  by (simp add: demo_app_def overlay_open_def example_models_def demo_props_def)

text \<open>
  Property C23 (specification 3). The selector inside the owner is always controlled:
  in every state of the composed system the selector is in a reachable state of its
  own, its \<open>value\<close> is the id the owner holds, and while it is mounted the trigger
  shows the label of the entry with that id, or of the first entry when there is
  none. The selector never shows a selection of its own.
\<close>

theorem owner_value_is_shown:
  assumes "app_reachable reg a"
  shows "reachable reg (widget a) \<and> value_p (props (widget a)) = selected a
     \<and> (dom (widget a) \<noteq> None \<longrightarrow>
          trigger_label (widget a) = map_option label (currentModel reg (selected a)))"
proof -
  from app_reachable_controlled [OF assms] have r: "reachable reg (widget a)"
    and v: "value_p (props (widget a)) = selected a"
    by (simp_all add: controlled_def)
  have "trigger_label (widget a) = map_option label (currentModel reg (selected a))"
    if m: "dom (widget a) \<noteq> None"
  proof -
    note d = inv_mountedD [OF reachable_inv [OF r] m]
    from d(1) obtain x where "currentModel reg (selected a) = Some x"
      using currentModel_None_iff [of reg "selected a"] by auto
    with d(2) v show ?thesis
      by (simp add: trigger_label_tree_of shown_def)
  qed
  with r v show ?thesis by simp
qed

theorem owner_value_is_shown_witness:
  "reachable example_models (widget demo_app) \<and> value_p (props (widget demo_app)) = ''b''
     \<and> trigger_label (widget demo_app) = Some ''Beta''"
  using owner_value_is_shown [OF app_reachable_demo]
  by (simp add: demo_app_def currentModel_def example_models_def)

end
