(* ===== verification/Icons.thy ===== *)
theory Icons
  imports Prelude
begin

text \<open>
  The three glyphs of \<open>Icons.tsx\<close>: components without props, state or handlers that
  return one \<open>svg\<close> element. A glyph is kept as the source writes it, attribute strings
  included; what the strings mean is computed from them:

  \<^item> \<open>number\<close> reads an unsigned decimal with at most two decimals, in hundredths of
    a user unit; \<open>numbers\<close> a list of them separated by blanks (the \<open>viewBox\<close>);
  \<^item> \<open>path_data\<close> reads the path data of a \<open>d\<close> attribute, for the absolute commands
    \<open>M\<close>, \<open>L\<close>, \<open>H\<close>, \<open>V\<close> the glyphs use, and is \<open>None\<close> for anything else;
  \<^item> \<open>vertices\<close> are the points a path passes through, \<open>segments\<close> the straight
    strokes between them;
  \<^item> \<open>fits\<close> says that a glyph can be drawn without clipping: every stroke of every
    path, widened by half the stroke width on all sides (round caps and joins reach no
    further), and every rectangle lie inside the view box.

  The lemmas show that the reader always returns a shorter rest (so \<open>path_data\<close>
  terminates), that a point of a stroke lies in every box that holds the two ends of
  the stroke, and that the three glyphs fit.
\<close>

section \<open>Glyphs as written\<close>

record svg_attrs =
  svg_width :: string
  svg_height :: string
  viewBox :: string
  svg_fill :: string
  xmlns :: string

datatype shape =
    Path (d: string) (stroke: string) (strokeWidth: string) (strokeLinecap: string)
      (strokeLinejoin: string)
  | Rect (rect_x: string) (rect_y: string) (rect_width: string) (rect_height: string)
      (rect_fill: string) (rx: string)

datatype glyph = Svg svg_attrs "shape list"

definition svg16 :: "string \<Rightarrow> svg_attrs" where
  "svg16 sz = \<lparr>svg_width = sz, svg_height = sz, viewBox = ''0 0 16 16'',
     svg_fill = ''none'', xmlns = ''http://www.w3.org/2000/svg''\<rparr>"

definition stroked :: "string \<Rightarrow> shape" where
  "stroked data = Path data ''currentColor'' ''1.5'' ''round'' ''round''"

definition BackIcon :: glyph where
  "BackIcon = Svg (svg16 ''16'') [stroked ''M12.5 8H3.5'', stroked ''M8 12.5L3.5 8L8 3.5'']"

definition StopIcon :: glyph where
  "StopIcon = Svg (svg16 ''14'') [Rect ''4'' ''4'' ''8'' ''8'' ''currentColor'' ''1'']"

definition SendIcon :: glyph where
  "SendIcon = Svg (svg16 ''16'') [stroked ''M1.5 8.5L8 2L14.5 8.5'', stroked ''M8 14V3.5'']"

definition glyphs :: "glyph list" where
  "glyphs = [BackIcon, StopIcon, SendIcon]"

section \<open>Reading numbers and path data\<close>

type_synonym point = "int \<times> int"

datatype cmd = MoveTo int int | LineTo int int | HLineTo int | VLineTo int

definition digit :: "char \<Rightarrow> nat option" where
  "digit c = (if 48 \<le> (of_char c :: nat) \<and> (of_char c :: nat) \<le> 57
              then Some (of_char c - 48) else None)"

fun digits :: "string \<Rightarrow> nat \<Rightarrow> nat \<times> string" where
  "digits [] acc = (acc, [])"
| "digits (c # cs) acc =
     (case digit c of None \<Rightarrow> (acc, c # cs) | Some v \<Rightarrow> digits cs (10 * acc + v))"

fun decimals :: "string \<Rightarrow> (nat \<times> string) option" where
  "decimals (a # b # r) =
     (case digit a of
        None \<Rightarrow> None
      | Some x \<Rightarrow> (case digit b of None \<Rightarrow> Some (10 * x, b # r) | Some y \<Rightarrow> Some (10 * x + y, r)))"
| "decimals [a] = (case digit a of None \<Rightarrow> None | Some x \<Rightarrow> Some (10 * x, []))"
| "decimals [] = None"

definition number :: "string \<Rightarrow> (int \<times> string) option" where
  "number s =
     (case s of
        [] \<Rightarrow> None
      | c # cs \<Rightarrow>
          (case digit c of
             None \<Rightarrow> None
           | Some v \<Rightarrow>
               (case snd (digits s 0) of
                  [] \<Rightarrow> Some (int (100 * fst (digits s 0)), [])
                | p # r \<Rightarrow>
                    if p = CHR ''.'' then
                      map_option (\<lambda>(f, r'). (int (100 * fst (digits s 0) + f), r')) (decimals r)
                    else Some (int (100 * fst (digits s 0)), p # r))))"

definition blank :: "char \<Rightarrow> bool" where
  "blank c \<longleftrightarrow> c = CHR '' '' \<or> c = CHR '',''"

definition skip_blanks :: "string \<Rightarrow> string" where
  "skip_blanks s = dropWhile blank s"

definition coordinates :: "string \<Rightarrow> (point \<times> string) option" where
  "coordinates s =
     (case number (skip_blanks s) of
        None \<Rightarrow> None
      | Some (x, r) \<Rightarrow>
          (case number (skip_blanks r) of None \<Rightarrow> None | Some (y, r') \<Rightarrow> Some ((x, y), r')))"

definition command :: "string \<Rightarrow> (cmd \<times> string) option" where
  "command s =
     (case s of
        [] \<Rightarrow> None
      | c # r \<Rightarrow>
          if c = CHR ''M'' then map_option (\<lambda>((x, y), r'). (MoveTo x y, r')) (coordinates r)
          else if c = CHR ''L'' then map_option (\<lambda>((x, y), r'). (LineTo x y, r')) (coordinates r)
          else if c = CHR ''H'' then map_option (\<lambda>(x, r'). (HLineTo x, r')) (number (skip_blanks r))
          else if c = CHR ''V'' then map_option (\<lambda>(y, r'). (VLineTo y, r')) (number (skip_blanks r))
          else None)"

function path_data :: "string \<Rightarrow> cmd list option" where
  "path_data s =
     (if skip_blanks s = [] then Some []
      else (case command (skip_blanks s) of
              None \<Rightarrow> None
            | Some (c, r) \<Rightarrow> map_option ((#) c) (path_data r)))"
  by pat_completeness auto

section \<open>What a path draws\<close>

fun vertices :: "point \<Rightarrow> cmd list \<Rightarrow> point list" where
  "vertices p [] = []"
| "vertices p (MoveTo x y # cs) = (x, y) # vertices (x, y) cs"
| "vertices p (LineTo x y # cs) = (x, y) # vertices (x, y) cs"
| "vertices p (HLineTo x # cs) = (x, snd p) # vertices (x, snd p) cs"
| "vertices p (VLineTo y # cs) = (fst p, y) # vertices (fst p, y) cs"

fun segments :: "point \<Rightarrow> cmd list \<Rightarrow> (point \<times> point) list" where
  "segments p [] = []"
| "segments p (MoveTo x y # cs) = segments (x, y) cs"
| "segments p (LineTo x y # cs) = (p, (x, y)) # segments (x, y) cs"
| "segments p (HLineTo x # cs) = (p, (x, snd p)) # segments (x, snd p) cs"
| "segments p (VLineTo y # cs) = (p, (fst p, y)) # segments (fst p, y) cs"

record box =
  left :: int
  top :: int
  right :: int
  bottom :: int

definition in_box :: "box \<Rightarrow> point \<Rightarrow> bool" where
  "in_box b p \<longleftrightarrow> left b \<le> fst p \<and> fst p \<le> right b \<and> top b \<le> snd p \<and> snd p \<le> bottom b"

definition shrink :: "int \<Rightarrow> box \<Rightarrow> box" where
  "shrink m b = \<lparr>left = left b + m, top = top b + m, right = right b - m, bottom = bottom b - m\<rparr>"

text \<open>
  A point of the stroke from \<open>a\<close> to \<open>b\<close>: the weighted mean of the two ends, with
  weights \<open>m\<close> and \<open>n\<close> (the coordinates are hundredths, so the point is scaled by
  the sum of the weights instead of divided).
\<close>

definition on_segment :: "nat \<Rightarrow> nat \<Rightarrow> point \<Rightarrow> point \<Rightarrow> point \<Rightarrow> bool" where
  "on_segment m n a b q \<longleftrightarrow>
     0 < m + n \<and> int (m + n) * fst q = int m * fst a + int n * fst b
     \<and> int (m + n) * snd q = int m * snd a + int n * snd b"

fun numbers :: "nat \<Rightarrow> string \<Rightarrow> int list option" where
  "numbers 0 s = (if skip_blanks s = [] then Some [] else None)"
| "numbers (Suc k) s =
     (case number (skip_blanks s) of
        None \<Rightarrow> None
      | Some (x, r) \<Rightarrow> map_option ((#) x) (numbers k r))"

definition view_box :: "string \<Rightarrow> box option" where
  "view_box s =
     (case numbers 4 s of
        Some [x, y, w, h] \<Rightarrow> Some \<lparr>left = x, top = y, right = x + w, bottom = y + h\<rparr>
      | _ \<Rightarrow> None)"

fun shape_fits :: "box \<Rightarrow> shape \<Rightarrow> bool" where
  "shape_fits b (Path data st sw cap join) =
     (case (path_data data, numbers 1 sw) of
        (Some cs, Some [w]) \<Rightarrow> list_all (in_box (shrink (w div 2) b)) (vertices (0, 0) cs)
      | _ \<Rightarrow> False)"
| "shape_fits b (Rect x y w h fl r) =
     (case (numbers 1 x, numbers 1 y, numbers 1 w, numbers 1 h) of
        (Some [x'], Some [y'], Some [w'], Some [h']) \<Rightarrow>
          in_box b (x', y') \<and> in_box b (x' + w', y' + h')
      | _ \<Rightarrow> False)"

fun fits :: "glyph \<Rightarrow> bool" where
  "fits (Svg a shapes) =
     (case view_box (viewBox a) of None \<Rightarrow> False | Some b \<Rightarrow> list_all (shape_fits b) shapes)"

fun paths_of :: "glyph \<Rightarrow> string list" where
  "paths_of (Svg a shapes) = concat (map (\<lambda>sh. case sh of Path data st sw cap join \<Rightarrow> [data] | _ \<Rightarrow> []) shapes)"

section \<open>The reader consumes its input\<close>

lemma digits_shorter: "length (snd (digits s acc)) \<le> length s"
  by (induction s acc rule: digits.induct) (auto split: option.splits)

lemma decimals_shorter: "decimals s = Some (f, r) \<Longrightarrow> length r < length s"
  by (cases s rule: decimals.cases) (auto split: option.splits)

lemma number_shorter: "number s = Some (x, r) \<Longrightarrow> length r < length s"
proof (cases s)
  case Nil
  then show "number s = Some (x, r) \<Longrightarrow> length r < length s" by (simp add: number_def)
next
  case (Cons c cs)
  assume n: "number s = Some (x, r)"
  from n Cons obtain v where v: "digit c = Some v"
    by (auto simp: number_def split: option.splits)
  from digits_shorter [of cs v] v Cons have l: "length (snd (digits s 0)) < length s"
    by simp
  from n Cons v have "r = snd (digits s 0)
      \<or> (\<exists>p t f. snd (digits s 0) = p # t \<and> decimals t = Some (f, r))"
    by (auto simp only: number_def list.case option.case split: list.splits if_splits)
  with l show "length r < length s"
    by (auto dest!: decimals_shorter)
qed

lemma skip_blanks_shorter: "length (skip_blanks s) \<le> length s"
  by (simp add: skip_blanks_def length_dropWhile_le)

lemma number_skip_shorter:
  "number (skip_blanks s) = Some (x, r) \<Longrightarrow> length r < length s"
  using skip_blanks_shorter [of s] by (auto dest!: number_shorter)

lemma coordinates_shorter: "coordinates s = Some (p, r) \<Longrightarrow> length r < length s"
proof -
  assume "coordinates s = Some (p, r)"
  then obtain x t y where "number (skip_blanks s) = Some (x, t)"
    and "number (skip_blanks t) = Some (y, r)"
    by (auto simp: coordinates_def split: option.splits)
  then have "length t < length s" and "length r < length t"
    by (auto dest: number_skip_shorter)
  then show "length r < length s" by simp
qed

lemma command_shorter: "command s = Some (c, r) \<Longrightarrow> length r < length s"
proof (cases s)
  case Nil
  then show "command s = Some (c, r) \<Longrightarrow> length r < length s" by (simp add: command_def)
next
  case (Cons a t)
  assume "command s = Some (c, r)"
  with Cons have "(\<exists>p. coordinates t = Some (p, r)) \<or> (\<exists>x. number (skip_blanks t) = Some (x, r))"
    by (auto simp: command_def split: if_splits)
  then have "length r < length t"
    by (auto dest: coordinates_shorter number_skip_shorter)
  with Cons show "length r < length s" by simp
qed

termination path_data
proof (relation "measure length")
  show "wf (measure length)" by simp
next
  fix s :: string and x c r
  assume "command (skip_blanks s) = Some x" and "(c, r) = x"
  then have "length r < length (skip_blanks s)" by (auto dest: command_shorter)
  with skip_blanks_shorter [of s] show "(r, s) \<in> measure length" by simp
qed

declare path_data.simps [simp del]

lemma path_data_empty [simp]: "skip_blanks s = [] \<Longrightarrow> path_data s = Some []"
  by (simp add: path_data.simps)

lemma path_data_command:
  "command (skip_blanks s) = Some (c, r) \<Longrightarrow> path_data s = map_option ((#) c) (path_data r)"
  by (subst path_data.simps) (auto simp: command_def split: list.splits)

section \<open>Reading the glyphs\<close>

lemma digit_simps [simp]:
  "digit CHR ''0'' = Some 0" "digit CHR ''1'' = Some 1" "digit CHR ''2'' = Some 2"
  "digit CHR ''3'' = Some 3" "digit CHR ''4'' = Some 4" "digit CHR ''5'' = Some 5"
  "digit CHR ''6'' = Some 6" "digit CHR ''7'' = Some 7" "digit CHR ''8'' = Some 8"
  "digit CHR ''9'' = Some 9" "digit CHR ''.'' = None" "digit CHR '' '' = None"
  "digit CHR ''H'' = None" "digit CHR ''L'' = None" "digit CHR ''V'' = None"
  "digit CHR ''M'' = None"
  by (simp_all add: digit_def)

lemma blank_simps [simp]:
  "blank CHR '' ''" "\<not> blank CHR ''M''" "\<not> blank CHR ''L''" "\<not> blank CHR ''H''"
  "\<not> blank CHR ''V''" "\<not> blank CHR ''.''"
  "digit c \<noteq> None \<Longrightarrow> \<not> blank c"
  by (auto simp: blank_def digit_def)

section \<open>Strokes stay inside a box that holds their ends\<close>

lemma weighted_mean_lower:
  fixes l :: int
  assumes "0 < m + n" and "int (m + n) * q = int m * a + int n * e" and "l \<le> a" and "l \<le> e"
  shows "l \<le> q"
proof -
  have "int (m + n) * l = int m * l + int n * l" by (simp add: algebra_simps)
  also from assms(3,4) have "\<dots> \<le> int m * a + int n * e"
    by (intro add_mono mult_left_mono) simp_all
  also have "\<dots> = int (m + n) * q" by (simp only: assms(2))
  finally have "int (m + n) * l \<le> int (m + n) * q" .
  moreover have "0 < int (m + n)" using assms(1) by (simp only: of_nat_0_less_iff)
  ultimately show ?thesis by (simp only: mult_le_cancel_left_pos)
qed

lemma weighted_mean_upper:
  fixes u :: int
  assumes "0 < m + n" and "int (m + n) * q = int m * a + int n * e" and "a \<le> u" and "e \<le> u"
  shows "q \<le> u"
proof -
  have "int (m + n) * q = int m * a + int n * e" by (rule assms(2))
  also from assms(3,4) have "\<dots> \<le> int m * u + int n * u"
    by (intro add_mono mult_left_mono) simp_all
  also have "\<dots> = int (m + n) * u" by (simp add: algebra_simps)
  finally have "int (m + n) * q \<le> int (m + n) * u" .
  moreover have "0 < int (m + n)" using assms(1) by (simp only: of_nat_0_less_iff)
  ultimately show ?thesis by (simp only: mult_le_cancel_left_pos)
qed

lemma in_box_convex:
  assumes "in_box b a" and "in_box b e" and "on_segment m n a e q"
  shows "in_box b q"
proof -
  from assms(3) have p: "0 < m + n"
    and x: "int (m + n) * fst q = int m * fst a + int n * fst e"
    and y: "int (m + n) * snd q = int m * snd a + int n * snd e"
    unfolding on_segment_def by blast+
  from assms(1,2) have "left b \<le> fst q" "fst q \<le> right b"
    unfolding in_box_def
    by (blast intro: weighted_mean_lower [OF p x] weighted_mean_upper [OF p x])+
  moreover from assms(1,2) have "top b \<le> snd q" "snd q \<le> bottom b"
    unfolding in_box_def
    by (blast intro: weighted_mean_lower [OF p y] weighted_mean_upper [OF p y])+
  ultimately show ?thesis unfolding in_box_def by blast
qed

lemma segment_ends:
  "(a, e) \<in> set (segments p cs) \<Longrightarrow>
     a \<in> insert p (set (vertices p cs)) \<and> e \<in> set (vertices p cs)"
  by (induction p cs rule: segments.induct) auto

lemma strokes_stay_in_box:
  assumes "list_all (in_box b) (vertices p (MoveTo x y # cs))"
    and "(a, e) \<in> set (segments p (MoveTo x y # cs))" and "on_segment m n a e q"
  shows "in_box b q"
proof -
  from segment_ends [of a e "(x, y)" cs] assms(1,2) have "in_box b a" "in_box b e"
    by (auto simp: list_all_iff)
  then show ?thesis using assms(3) by (rule in_box_convex)
qed

section \<open>The three glyphs\<close>

lemma skip_blanks_simps [simp]:
  "skip_blanks [] = []"
  "blank c \<Longrightarrow> skip_blanks (c # s) = skip_blanks s"
  "\<not> blank c \<Longrightarrow> skip_blanks (c # s) = c # s"
  by (simp_all add: skip_blanks_def)

lemmas read_simps = number_def coordinates_def command_def path_data_command view_box_def
  in_box_def shrink_def eval_nat_numeral

text \<open>
  The path data of the three glyphs are read without error: the arrow of \<open>BackIcon\<close>
  is a horizontal stroke and a two-stroke head, \<open>StopIcon\<close> has no path, and the arrow
  of \<open>SendIcon\<close> is a two-stroke head and a vertical stroke.
\<close>

lemma glyph_paths_read:
  "map path_data (concat (map paths_of glyphs)) =
     [Some [MoveTo 1250 800, HLineTo 350],
      Some [MoveTo 800 1250, LineTo 350 800, LineTo 800 350],
      Some [MoveTo 150 850, LineTo 800 200, LineTo 1450 850],
      Some [MoveTo 800 1400, VLineTo 350]]"
  by (simp add: glyphs_def BackIcon_def StopIcon_def SendIcon_def stroked_def read_simps)

lemma glyphs_fit: "list_all fits glyphs"
  by (simp add: glyphs_def BackIcon_def StopIcon_def SendIcon_def stroked_def svg16_def
      read_simps)

lemma glyph_paths_start_with_move:
  assumes "Svg a shapes \<in> set glyphs" and "Path data st sw cap join \<in> set shapes"
  shows "\<exists>x y cs. path_data data = Some (MoveTo x y # cs)"
  using assms
  by (auto simp: glyphs_def BackIcon_def StopIcon_def SendIcon_def stroked_def read_simps)

lemma fits_pathD:
  assumes "fits (Svg a shapes)" and "Path data st sw cap join \<in> set shapes"
  shows "\<exists>b w cs. view_box (viewBox a) = Some b \<and> numbers 1 sw = Some [w]
     \<and> path_data data = Some cs
     \<and> list_all (in_box (shrink (w div 2) b)) (vertices (0, 0) cs)"
proof -
  from assms obtain b where b: "view_box (viewBox a) = Some b"
    and "shape_fits b (Path data st sw cap join)"
    by (auto simp: list_all_iff split: option.splits)
  then show ?thesis
    by (auto split: option.splits list.splits)
qed

text \<open>
  Property C38 (specification 4.2). None of the three glyphs is clipped. For each
  path of each glyph the view box, the stroke width and the path data are read without
  error, and every point of every stroke of the path keeps a distance of half the
  stroke width from the border of the view box; so the stroke, with its round caps
  and joins, is drawn inside the view box.
\<close>

theorem glyph_strokes_inside:
  assumes "Svg a shapes \<in> set glyphs" and "Path data st sw cap join \<in> set shapes"
  shows "\<exists>b w cs. view_box (viewBox a) = Some b \<and> numbers 1 sw = Some [w]
     \<and> path_data data = Some cs
     \<and> (\<forall>p e m n q. (p, e) \<in> set (segments (0, 0) cs) \<longrightarrow> on_segment m n p e q
            \<longrightarrow> in_box (shrink (w div 2) b) q)"
proof -
  from glyphs_fit assms(1) have "fits (Svg a shapes)"
    unfolding list_all_iff by blast
  from fits_pathD [OF this assms(2)] obtain b w cs where
    r: "view_box (viewBox a) = Some b" "numbers 1 sw = Some [w]" "path_data data = Some cs"
    and v: "list_all (in_box (shrink (w div 2) b)) (vertices (0, 0) cs)"
    by blast
  from glyph_paths_start_with_move [OF assms] r(3) obtain x y cs' where
    cs: "cs = MoveTo x y # cs'" by auto
  from v have "in_box (shrink (w div 2) b) q"
    if "(p, e) \<in> set (segments (0, 0) cs)" "on_segment m n p e q" for p e m n q
    using that unfolding cs by (rule strokes_stay_in_box)
  with r show ?thesis by blast
qed

theorem glyph_strokes_inside_witness:
  "in_box (shrink 75 \<lparr>left = 0, top = 0, right = 1600, bottom = 1600\<rparr>) (575, 1025)"
proof -
  from glyph_strokes_inside [of "svg16 ''16''"
      "[stroked ''M12.5 8H3.5'', stroked ''M8 12.5L3.5 8L8 3.5'']"
      "''M8 12.5L3.5 8L8 3.5''" "''currentColor''" "''1.5''" "''round''" "''round''"]
  obtain b w cs where r: "view_box ''0 0 16 16'' = Some b" "numbers 1 ''1.5'' = Some [w]"
      "path_data ''M8 12.5L3.5 8L8 3.5'' = Some cs"
    and i: "\<And>p e m n q. (p, e) \<in> set (segments (0, 0) cs) \<Longrightarrow> on_segment m n p e q
      \<Longrightarrow> in_box (shrink (w div 2) b) q"
    by (auto simp: glyphs_def BackIcon_def stroked_def svg16_def)
  from r have v: "b = \<lparr>left = 0, top = 0, right = 1600, bottom = 1600\<rparr>" "w = 150"
    "cs = [MoveTo 800 1250, LineTo 350 800, LineTo 800 350]"
    by (simp_all add: read_simps)
  have "in_box (shrink (w div 2) b) (575, 1025)"
    by (rule i [of "(800, 1250)" "(350, 800)" 1 1]) (simp_all add: v on_segment_def)
  then show ?thesis by (simp add: v)
qed

end
