(* ===== verification/Spec2Isabelle.thy ===== *)
theory Spec2Isabelle
  imports Refinement Deferred Page Event_Loop Owner Icons
begin

text \<open>
  \<^bold>\<open>A verification development for the model selector of the chat input box.\<close>

  \<^bold>\<open>The program.\<close> Two source files. \<open>selectors/ModelSelect.tsx\<close> is a function
  component: a trigger button that shows the label of the selected model, and an
  overlay listing the models of a registry, shown while the flag \<open>isOpen\<close> holds. A
  click on the trigger toggles the flag; a click on an option calls the owner's
  \<open>onChange\<close> with the option's id and closes; an effect, run whenever the flag
  changes, queues a zero-delay timer that registers a \<open>mousedown\<close> listener on
  \<open>document\<close> while the overlay is open, and its cleanup clears the timer and removes
  the listener. \<open>Icons.tsx\<close> holds three static glyphs, each one \<open>svg\<close> element.

  \<^bold>\<open>The theories\<close>, in import order.
  \<^item> \<open>Prelude\<close>: the fact collections; JavaScript values that may be \<open>undefined\<close>
    (\<open>or_else\<close> for \<open>||\<close>, \<open>at_index\<close> for \<open>xs[i]\<close>, \<open>member\<close> for \<open>x.f\<close>); results of
    code that may throw (\<open>js_error + 'a\<close>); shared list facts.
  \<^item> \<open>VDom\<close>: element trees (\<open>vnode\<close>), positions in them, refs, \<open>contains\<close>, and
    the handlers a click meets on its way to the root (\<open>click_handlers\<close>).
  \<^item> \<open>Host\<close>: the listeners on \<open>document\<close> and the timers of the event loop, with
    \<open>addEventListener\<close>, \<open>removeEventListener\<close>, \<open>setTimeout\<close>, \<open>clearTimeout\<close>
    and the well-formedness \<open>host_ok\<close> they keep.
  \<^item> \<open>Hooks\<close>: the cell of a \<open>useCallback\<close> and the dependency test of a
    \<open>useEffect\<close>.
  \<^item> \<open>Types\<close>: the option registry, a list of \<open>{id, label}\<close> records. The registry
    of the application is outside the sources; the component is modelled for any
    registry \<open>reg\<close>, and \<open>example_models\<close> is the one of the specification's scenario.
  \<^item> \<open>ModelSelect\<close>: the component, one definition per function of
    \<open>ModelSelect.tsx\<close> under the name the source gives it: \<open>currentModel\<close> (line 19),
    \<open>handleToggle\<close> (24-27), \<open>handleSelect\<close> (32-35), \<open>handleClickOutside\<close> (43-52),
    \<open>effect\<close> (40-58) with \<open>timer_callback\<close> (55-57) and \<open>cleanup\<close> (59-62), the
    element tree \<open>view\<close> (65-106) built from \<open>trigger_button\<close>, \<open>dropdown\<close> and
    \<open>option_row\<close>, and the component function \<open>ModelSelect\<close> (14-107), which reads and
    writes the hook cells of the record \<open>hooks\<close>. Closures are data that carry what
    they captured: \<open>HandleToggle b\<close> captured the flag \<open>b\<close>, \<open>HandleSelect cb id\<close>
    the callback \<open>cb\<close>; a handler returns the list of \<open>action\<close>s it performs. Its
    lemmas give what a render shows (label, rows, marks, keys), that the handlers of
    a render are never stale, and that the cleanup undoes the effect.
  \<^item> \<open>Selector_Spec\<close>: the contract of specification 4.1 as a state machine
    over gestures, independent of the implementation.
  \<^item> \<open>Runtime\<close>: one mounted instance and its document as the record \<open>sys\<close>;
    \<open>render\<close>, \<open>commit\<close>, \<open>flush_effect\<close>, \<open>mount\<close>, \<open>unmount\<close>; the dispatch of a
    click (\<open>on_click\<close>, bubbling with \<open>stopPropagation\<close>) and of a mousedown
    (\<open>on_mousedown\<close>, every document listener); \<open>step\<close> over the events \<open>Click\<close>,
    \<open>MouseDown\<close>, \<open>TimerFire\<close>, \<open>SetProps\<close>, \<open>Unmount\<close>; \<open>run\<close>; the reachable
    states; the invariant \<open>inv\<close> and the proof that every step keeps it.
  \<^item> \<open>Behaviour\<close>: what each gesture does in a reachable state, the count of
    subscriptions, the calls made to the owner, the rest of the page left alone.
  \<^item> \<open>Refinement\<close>: the mapping \<open>abs_state\<close> and the proof that \<open>step\<close> refines
    the contract.
  \<^item> \<open>Deferred\<close>: the same component under a scheduler that commits the tree
    first and runs the effect in a later task (\<open>commit_later\<close>, \<open>settle\<close>,
    \<open>dstep\<close> over the tasks \<open>Input\<close> and \<open>Flush\<close>), and the proof that every task is
    a step of \<open>Runtime.step\<close> on the settled states, or leaves them alone.
  \<^item> \<open>Page\<close>: two instances of the component on one document (\<open>pair\<close>,
    \<open>pstep\<close>), each seeing the closures of the other as entries of the rest of the
    page (\<open>swap\<close>), the proof by rely and guarantee that each keeps its invariant
    and follows its own contract, and the proof that the order in which the two
    listeners run on a press is immaterial (\<open>press_order\<close>).
  \<^item> \<open>Event_Loop\<close>: \<open>drain\<close>, the event loop running the pending timers until none
    is left, with its termination proof (the measure is the number of pending timers)
    and what is left when it has ended.
  \<^item> \<open>Owner\<close>: the selector composed with the smallest owner of the specification,
    one that stores the id it is called with and passes it back as \<open>value\<close>
    (\<open>app_step\<close>, \<open>app_reachable\<close>).
  \<^item> \<open>Icons\<close>: the glyphs \<open>BackIcon\<close>, \<open>StopIcon\<close>, \<open>SendIcon\<close> of \<open>Icons.tsx\<close>
    (lines 1-6, 8-12, 14-19) with their attribute strings as written, a reader for the
    numbers and the path data in them, and the proof that each glyph is drawn inside
    its view box. The component does not use these glyphs; the theory stands beside
    the others.
  \<^item> This theory: the scenario of specification 8.7 and the correspondence between
    what is on the screen and the state of the contract.

  \<^bold>\<open>How the parts interact.\<close> \<open>Runtime.render\<close> calls \<open>ModelSelect.ModelSelect\<close>
  and commits the tree; \<open>flush_effect\<close> runs \<open>cleanup\<close> and \<open>effect\<close> on the \<open>Host\<close>
  when the flag changed; a click runs the closures found by \<open>VDom.click_handlers\<close>; a
  mousedown runs \<open>handleClickOutside\<close> for each registered listener; a timer runs
  \<open>timer_callback\<close>. The actions returned are applied in one batch, and the component
  renders again only when the flag changed.

  \<^bold>\<open>Choices.\<close> \<open>Runtime\<close> flushes effects with the commit, as the rendering library
  does for updates caused by discrete input events; \<open>Deferred\<close> lets the effect of a
  commit wait until a flush or until the next render, whichever comes first, with input
  events and timers in between, and relates the two by \<open>settle\<close>, which runs the
  waiting effect. The properties of \<open>Behaviour\<close> are stated for the committed system
  and carry over to the settled states of the deferred one. There is no fuel and no
  bound: every definition is a total function, \<open>run\<close> recurses over the list of
  events, and the two loops that are not structural (\<open>Event_Loop.drain\<close>,
  \<open>Icons.path_data\<close>) are \<open>function\<close>s with a termination proof. \<open>drain\<close> runs the
  timers oldest first; the order does not matter to the component, which has at most
  one. The rest of the page is present as \<open>OtherListener\<close> and \<open>OtherTimer\<close> entries
  of the document, so that the statements about the component's own listener and timer
  are made in a document that holds others; in \<open>Runtime\<close> those entries are only ever
  fired or left alone, in \<open>Page\<close> the odd ones belong to a second selector that adds
  and removes them as it opens and closes. Timer ids are natural numbers, fresh by
  counting, and shared by everything on the page. Strings are byte lists; the tooltip
  prefix is kept as its UTF-8 bytes.

  \<^bold>\<open>Not modelled.\<close> The \<open>Claude.Color\<close> icon of the icon library (it appears
  in the tree as an opaque \<open>Component\<close> node); the registry module \<open>../types\<close>, which
  is not among the sources (every definition takes the registry as a parameter);
  layout, styling and painting; the path commands the glyphs do not use (relative
  commands, curves, arcs); keyboard input, which the component does not handle;
  more than two instances of the component on one document, and two instances under
  the deferred schedule (\<open>Page\<close> composes the committed system); the reconciler of the
  rendering library beyond what is described above (priorities, concurrent rendering,
  strict-mode double invocation of effects).

  \<^bold>\<open>Plan.\<close> Done: the component, the run-time model, the invariant, the behaviour
  of each gesture, the contract and the refinement, the glyphs, the well-formedness of
  trees and states, the event loop, the owner, the deferred schedule of effects, two
  selectors on one page. Every function of the two source files is modelled; what is
  left to add lies outside them.
\<close>

section \<open>The scenario of the specification\<close>


definition on_screen :: "sys \<Rightarrow> bool" where
  "on_screen s = (case dom s of None \<Rightarrow> False | Some t \<Rightarrow> node_at t [Suc 0] \<noteq> None)"



text \<open>
  Property C40 (specification 4.1, public contract). In every reachable state the
  screen is what the contract says: nothing after the unmount, and otherwise the render
  of the current props with the overlay exactly when the contract is in an open phase;
  the trigger is always rendered, the overlay only while open, with one row per entry
  of the registry.
\<close>

theorem screen_matches_contract:
  assumes "reachable reg s"
  shows "dom s =
       (if stage (abs_state s) = Gone then None
        else Some (tree_of reg (props s) (is_open (stage (abs_state s)))))
     \<and> (on_screen s \<longleftrightarrow> is_open (stage (abs_state s)))
     \<and> length (overlay_rows (tree_of reg (props s) (is_open (stage (abs_state s)))))
         = (if is_open (stage (abs_state s)) then length reg else 0)"
proof (cases "dom s")
  case None
  then show ?thesis
    by (simp add: on_screen_def is_open_phase_of phase_of_iff overlay_rows_def tree_of_def)
next
  case (Some t)
  with screen_follows_flag [OF reachable_inv [OF assms] Some] show ?thesis
    by (auto simp: on_screen_def tree_of_def is_open_phase_of phase_of_iff)
qed

theorem screen_matches_contract_witness:
  "on_screen demo_live \<and> is_open (stage (abs_state demo_live)) \<and> \<not> on_screen demo_closed
     \<and> dom demo_live = Some (tree_of example_models demo_props True)
     \<and> length (overlay_rows (tree_of example_models demo_props True)) = 2"
  using screen_matches_contract [OF reachable_demo_live]
    screen_matches_contract [OF reachable_demo_closed]
  by (simp add: is_open_phase_of example_models_def)

end
